(* ===== verification/Kernel_Prelude.thy ===== *)
theory Kernel_Prelude
  imports Main "HOL-Library.Word" "HOL-Library.Monad_Syntax"
begin

text \<open>
  Shared ground of the development: the C integer types as words, the reading of a
  kernel panic, and the generic lemmas on options, lists and words that the component
  theories use.

  \<^item> \<open>u8\<close>, \<open>u16\<close>, \<open>u32\<close>, \<open>u64\<close> are the unsigned types of \<open>include/type.h\<close>;
    arithmetic on them wraps as the C arithmetic does. A C \<open>int\<close> whose range does not
    matter to the code is an \<open>int\<close> or a \<open>nat\<close>.
  \<^item> \<open>asserts\<close> and \<open>err_halt\<close> (\<open>include/assert.h\<close>) print a message and loop forever.
    An operation that may end there returns an option, and \<open>None\<close> is that panic.
  \<^item> \<open>pretty_log\<close> and \<open>printk\<close> output is not part of any state.
\<close>

type_synonym u8 = "8 word"
type_synonym u16 = "16 word"
type_synonym u32 = "32 word"
type_synonym u64 = "64 word"

named_theorems kernel_simps \<open>unfolding rules of the operations of a component\<close>
named_theorems kernel_inv \<open>preservation of component invariants\<close>

text \<open>\<open>asserts(cond, msg)\<close>: continue, or panic.\<close>

definition asserts :: "bool \<Rightarrow> unit option" where
  "asserts c = (if c then Some () else None)"

lemma asserts_simps [simp]: "asserts True = Some ()" "asserts False = None"
  by (simp_all add: asserts_def)

lemma asserts_eq_Some [simp]: "asserts c = Some u \<longleftrightarrow> c"
  by (simp add: asserts_def)

lemma asserts_eq_None [simp]: "asserts c = None \<longleftrightarrow> \<not> c"
  by (simp add: asserts_def)

lemma asserts_bind [simp]: "(asserts c \<bind> f) = (if c then f () else None)"
  by (simp add: asserts_def)

lemma bind_SomeE:
  assumes "(m \<bind> f) = Some y"
  obtains x where "m = Some x" "f x = Some y"
  using assms by (cases m) auto

text \<open>C division truncates towards zero; on RISC-V a division by zero gives \<open>-1\<close>.\<close>

definition c_div :: "int \<Rightarrow> int \<Rightarrow> int" where
  "c_div a b = (if b = 0 then -1 else sgn a * sgn b * (\<bar>a\<bar> div \<bar>b\<bar>))"

definition c_rem :: "int \<Rightarrow> int \<Rightarrow> int" where
  "c_rem a b = (if b = 0 then a else a - c_div a b * b)"

lemma c_div_nonneg [simp]: "0 \<le> a \<Longrightarrow> 0 < b \<Longrightarrow> c_div a b = a div b"
  by (cases "a = 0") (simp_all add: c_div_def)

lemma c_rem_nonneg [simp]: "0 \<le> a \<Longrightarrow> 0 < b \<Longrightarrow> c_rem a b = a mod b"
  by (simp add: c_rem_def minus_div_mult_eq_mod)

lemma abs_c_div: "0 < b \<Longrightarrow> \<bar>c_div a b\<bar> = \<bar>a\<bar> div b"
  by (cases "a = 0") (simp_all add: c_div_def abs_mult abs_sgn_eq pos_imp_zdiv_nonneg_iff)

lemma int_div_less:
  assumes "0 < b" "a < b * (c :: int)"
  shows "a div b < c"
proof (rule ccontr)
  assume "\<not> a div b < c"
  then have "b * c \<le> b * (a div b)" using assms(1) by simp
  also have "\<dots> \<le> a" using assms(1) by (simp add: mult_div_mod_eq [symmetric] minus_mod_eq_mult_div [symmetric])
  finally show False using assms(2) by simp
qed

subsection \<open>Lists\<close>

lemma remove1_append_notin: "x \<notin> set xs \<Longrightarrow> remove1 x (xs @ x # ys) = xs @ ys"
  by (induction xs) auto

lemma in_set_split_distinct:
  assumes "x \<in> set xs" "distinct xs"
  obtains ys zs where "xs = ys @ x # zs" "x \<notin> set ys" "x \<notin> set zs" "remove1 x xs = ys @ zs"
proof -
  from assms(1) obtain ys zs where s: "xs = ys @ x # zs" "x \<notin> set ys"
    by (meson split_list_first)
  moreover have "x \<notin> set zs" using s assms(2) by simp
  moreover have "remove1 x xs = ys @ zs" unfolding s(1) by (rule remove1_append_notin [OF s(2)])
  ultimately show ?thesis by (rule that)
qed

lemma list_update_id_len [simp]: "i \<ge> length xs \<Longrightarrow> xs[i := v] = xs"
  by (simp add: list_update_beyond)

lemma find_SomeD: "find P xs = Some x \<Longrightarrow> x \<in> set xs \<and> P x"
  by (auto simp: find_Some_iff)

lemma find_first:
  assumes "find P xs = Some (xs ! k)" "j < k" "k < length xs" "distinct xs"
  shows "\<not> P (xs ! j)"
  using assms by (auto simp: find_Some_iff nth_eq_iff_index_eq)

lemma count_list_update:
  assumes "i < length xs"
  shows "int (count_list (xs[i := v]) a) =
         int (count_list xs a) - (if xs ! i = a then 1 else 0) + (if v = a then 1 else 0)"
  using assms
proof (induction xs arbitrary: i)
  case Nil
  then show ?case by simp
next
  case (Cons x xs)
  show ?case
  proof (cases i)
    case 0
    then show ?thesis by simp
  next
    case (Suc j)
    with Cons.prems have "j < length xs" by simp
    from Cons.IH [OF this] Suc show ?thesis by (simp split: if_splits)
  qed
qed

subsection \<open>Machine words\<close>

lemma word_add_eq_self [simp]: "(a :: 'a::len word) + b = a \<longleftrightarrow> b = 0"
  by (metis add.right_neutral add_left_cancel)


lemma unat_of_nat_small: "n < 2 ^ LENGTH('a) \<Longrightarrow> unat (of_nat n :: 'a::len word) = n"
  by (simp add: unat_of_nat)

lemma unat_add_small:
  "unat a + unat b < 2 ^ LENGTH('a) \<Longrightarrow> unat (a + b :: 'a::len word) = unat a + unat b"
  by (simp add: unat_word_ariths)

lemma unat_of_nat_lt: "n < 2 ^ LENGTH('a) \<Longrightarrow> unat (of_nat n :: 'a::len word) = n"
  by (simp add: unat_of_nat)

lemma unat_of_int_lt: "0 \<le> x \<Longrightarrow> x < 2 ^ LENGTH('a) \<Longrightarrow> unat (of_int x :: 'a::len word) = nat x"
  by (simp add: unsigned_of_int take_bit_int_eq_self)

lemma unat_add_lt:
  "unat a + unat b < 2 ^ LENGTH('a) \<Longrightarrow> unat (a + b :: 'a::len word) = unat a + unat b"
  by (simp add: unat_word_ariths)

lemma unat_take_bit: "unat (take_bit n w) = unat w mod 2 ^ n"
  by (simp add: unsigned_take_bit_eq take_bit_nat_def)

lemma unat_drop_bit: "unat (drop_bit n w) = unat w div 2 ^ n"
  by (simp add: unat_drop_bit_eq drop_bit_nat_def)

lemma take_bit_word_self: "unat w < 2 ^ n \<Longrightarrow> take_bit n w = w"
  by (simp add: word_unat_eq_iff unat_take_bit)

lemma bit_word_bound: "unat w < 2 ^ n \<Longrightarrow> bit w k \<Longrightarrow> k < n"
  by (metis bit_take_bit_iff take_bit_word_self)

lemma not_bit_ge: "unat w < 2 ^ n \<Longrightarrow> n \<le> k \<Longrightarrow> \<not> bit w k"
  using bit_word_bound by (metis linorder_not_less)

subsection \<open>Running sequences of operations\<close>

text \<open>
  A component's calls in the order they are made: every step returns a result and the
  next state, or panics. \<open>simulation\<close> is the contract between a detailed component and
  its specification; inside it the contract is lifted from one call to any sequence.
\<close>

primrec run_ops :: "('o \<Rightarrow> 's \<Rightarrow> ('r \<times> 's) option) \<Rightarrow> 'o list \<Rightarrow> 's \<Rightarrow> ('r list \<times> 's) option" where
  "run_ops step [] s = Some ([], s)"
| "run_ops step (x # xs) s = do {
     (r, s') \<leftarrow> step x s;
     (rs, s'') \<leftarrow> run_ops step xs s';
     Some (r # rs, s'')
   }"

locale simulation =
  fixes R :: "'s \<Rightarrow> 'a \<Rightarrow> bool"
    and ok :: "'o \<Rightarrow> bool"
    and cstep :: "'o \<Rightarrow> 's \<Rightarrow> ('r \<times> 's) option"
    and astep :: "'o \<Rightarrow> 'a \<Rightarrow> ('r \<times> 'a) option"
  assumes step_sim:
    "R s a \<Longrightarrow> ok x \<Longrightarrow>
       rel_option (\<lambda>(r, s') (r', a'). r = r' \<and> R s' a') (cstep x s) (astep x a)"
begin

lemma run_sim:
  assumes "R s a" "list_all ok xs"
  shows "rel_option (\<lambda>(rs, s') (rs', a'). rs = rs' \<and> R s' a')
           (run_ops cstep xs s) (run_ops astep xs a)"
  using assms
proof (induction xs arbitrary: s a)
  case Nil
  then show ?case by simp
next
  case (Cons x xs)
  have one: "rel_option (\<lambda>(r, s') (r', a'). r = r' \<and> R s' a') (cstep x s) (astep x a)"
    using Cons.prems by (intro step_sim) simp_all
  show ?case
  proof (cases "cstep x s")
    case None
    with one show ?thesis by simp
  next
    case (Some p)
    obtain r s' where p: "p = (r, s')" by (cases p)
    with one Some obtain a' where a': "astep x a = Some (r, a')" "R s' a'"
      by (cases "astep x a") auto
    have "rel_option (\<lambda>(rs, s') (rs', a'). rs = rs' \<and> R s' a')
            (run_ops cstep xs s') (run_ops astep xs a')"
      using Cons.IH [OF a'(2)] Cons.prems(2) by simp
    then show ?thesis
      using Some p a'(1)
      by (cases "run_ops cstep xs s'"; cases "run_ops astep xs a'") auto
  qed
qed

lemma run_no_panic:
  assumes "R s a" "list_all ok xs" "run_ops astep xs a = Some (rs, a')"
  obtains s' where "run_ops cstep xs s = Some (rs, s')" "R s' a'"
  using run_sim [OF assms(1,2)] assms(3) by (cases "run_ops cstep xs s") auto

end

end
