(* ===== verification/Intrusive_List.thy ===== *)
theory Intrusive_List
  imports Kernel_Prelude
begin

text \<open>
  The doubly linked intrusive lists of \<open>libs/list.c\<close> and \<open>include/os/list.h\<close>, on an
  explicit store of nodes, and their abstract specification.

  \<^item> The first section translates the C functions on a store \<open>lheap\<close> from addresses to
    \<open>list_node_t\<close> structs. A \<open>list_t*\<close> is the address of its head node, the first
    field of the struct. Pointers are \<open>u64\<close>, \<open>NULL\<close> is \<open>0\<close>.
  \<^item> The second section is the specification: a family of finite sequences together
    with the \<open>container\<close> field of every node, and one operation per C function.
  \<^item> \<open>rep\<close> relates the two, and the refinement lemmas show that every C function
    implements its specification, call by call; the interpretation \<open>list_c\<close> of the
    locale \<open>simulation\<close> lifts this to any sequence of calls. The scheduler, the locks and the page groups are
    modelled over the specification.
\<close>

section \<open>The code\<close>

record list_node =
  nxt :: u64
  prv :: u64
  container :: u64

type_synonym lheap = "u64 \<Rightarrow> list_node"

definition set_nxt :: "u64 \<Rightarrow> u64 \<Rightarrow> lheap \<Rightarrow> lheap" where
  "set_nxt p v h = h(p := (h p)\<lparr>nxt := v\<rparr>)"

definition set_prv :: "u64 \<Rightarrow> u64 \<Rightarrow> lheap \<Rightarrow> lheap" where
  "set_prv p v h = h(p := (h p)\<lparr>prv := v\<rparr>)"

definition set_container :: "u64 \<Rightarrow> u64 \<Rightarrow> lheap \<Rightarrow> lheap" where
  "set_container p v h = h(p := (h p)\<lparr>container := v\<rparr>)"

text \<open>\<open>list_holding\<close> panics when the three links of the node are not set together.\<close>

definition list_holding :: "lheap \<Rightarrow> u64 \<Rightarrow> bool option" where
  "list_holding h node = do {
     asserts (\<not> ((nxt (h node) \<noteq> 0) \<noteq> (prv (h node) \<noteq> 0)));
     asserts (\<not> ((nxt (h node) \<noteq> 0) \<noteq> (container (h node) \<noteq> 0)));
     Some (nxt (h node) \<noteq> 0 \<or> prv (h node) \<noteq> 0)
   }"

definition list_init :: "lheap \<Rightarrow> u64 \<Rightarrow> lheap" where
  "list_init h l = set_prv l l (set_nxt l l h)"

definition list_prepend :: "lheap \<Rightarrow> u64 \<Rightarrow> u64 \<Rightarrow> lheap option" where
  "list_prepend h l node = do {
     held \<leftarrow> list_holding h node;
     if held then Some h
     else Some (let h1 = set_nxt node (nxt (h l)) h;
                    h2 = set_prv node l h1;
                    h3 = set_prv (nxt (h2 l)) node h2;
                    h4 = set_nxt l node h3
                in set_container node l h4)
   }"

definition list_append :: "lheap \<Rightarrow> u64 \<Rightarrow> u64 \<Rightarrow> lheap option" where
  "list_append h l node = do {
     held \<leftarrow> list_holding h node;
     if held then Some h
     else Some (let h1 = set_prv node (prv (h l)) h;
                    h2 = set_nxt node l h1;
                    h3 = set_nxt (prv (h2 l)) node h2;
                    h4 = set_prv l node h3
                in set_container node l h4)
   }"

text \<open>The two removals at an end return the node, or \<open>NULL\<close> for an empty list.\<close>

definition list_shift :: "lheap \<Rightarrow> u64 \<Rightarrow> u64 \<times> lheap" where
  "list_shift h l =
     (if nxt (h l) = l then (0, h)
      else let node = nxt (h l);
               h1 = set_nxt l (nxt (h node)) h;
               h2 = set_prv (nxt (h1 node)) l h1;
               h3 = set_nxt node 0 (set_prv node 0 h2)
           in (node, set_container node 0 h3))"

definition list_pop :: "lheap \<Rightarrow> u64 \<Rightarrow> u64 \<times> lheap" where
  "list_pop h l =
     (if prv (h l) = l then (0, h)
      else let node = prv (h l);
               h1 = set_prv l (prv (h node)) h;
               h2 = set_nxt (prv (h1 node)) l h1;
               h3 = set_nxt node 0 (set_prv node 0 h2)
           in (node, set_container node 0 h3))"

definition list_delete :: "lheap \<Rightarrow> u64 \<Rightarrow> lheap option" where
  "list_delete h node = do {
     held \<leftarrow> list_holding h node;
     asserts held;
     Some (let h1 = set_nxt (prv (h node)) (nxt (h node)) h;
               h2 = set_prv (nxt (h1 node)) (prv (h1 node)) h1;
               h3 = set_prv node 0 (set_nxt node 0 h2)
           in set_container node 0 h3)
   }"

definition list_node_destruct :: "lheap \<Rightarrow> u64 \<Rightarrow> lheap option" where
  "list_node_destruct h node = do {
     held \<leftarrow> list_holding h node;
     if held then list_delete h node else Some h
   }"

text \<open>\<open>list_size\<close> counts until it is back at the head; on a broken ring it never is.\<close>

partial_function (option) list_size_loop :: "lheap \<Rightarrow> u64 \<Rightarrow> u64 \<Rightarrow> u64 \<Rightarrow> u64 option" where
  "list_size_loop h l current sz =
     (if current = l then Some sz else list_size_loop h l (nxt (h current)) (sz + 1))"

definition list_size :: "lheap \<Rightarrow> u64 \<Rightarrow> u64 option" where
  "list_size h l = list_size_loop h l (nxt (h l)) 0"

section \<open>The specification\<close>

record ('l, 'n) lists =
  items :: "'l \<Rightarrow> 'n list"
  cont :: "'n \<Rightarrow> 'l option"

definition lists_empty :: "('l, 'n) lists" where
  "lists_empty = \<lparr>items = (\<lambda>_. []), cont = (\<lambda>_. None)\<rparr>"

definition lists_append :: "'l \<Rightarrow> 'n \<Rightarrow> ('l, 'n) lists \<Rightarrow> ('l, 'n) lists" where
  "lists_append l n q =
     (if cont q n \<noteq> None then q
      else q\<lparr>items := (items q)(l := items q l @ [n]), cont := (cont q)(n := Some l)\<rparr>)"

definition lists_prepend :: "'l \<Rightarrow> 'n \<Rightarrow> ('l, 'n) lists \<Rightarrow> ('l, 'n) lists" where
  "lists_prepend l n q =
     (if cont q n \<noteq> None then q
      else q\<lparr>items := (items q)(l := n # items q l), cont := (cont q)(n := Some l)\<rparr>)"

definition lists_shift :: "'l \<Rightarrow> ('l, 'n) lists \<Rightarrow> 'n option \<times> ('l, 'n) lists" where
  "lists_shift l q =
     (case items q l of
        [] \<Rightarrow> (None, q)
      | n # ns \<Rightarrow> (Some n, q\<lparr>items := (items q)(l := ns), cont := (cont q)(n := None)\<rparr>))"

definition lists_pop :: "'l \<Rightarrow> ('l, 'n) lists \<Rightarrow> 'n option \<times> ('l, 'n) lists" where
  "lists_pop l q =
     (if items q l = [] then (None, q)
      else let n = last (items q l)
           in (Some n, q\<lparr>items := (items q)(l := butlast (items q l)),
                         cont := (cont q)(n := None)\<rparr>))"

definition lists_delete :: "'n \<Rightarrow> ('l, 'n) lists \<Rightarrow> ('l, 'n) lists option" where
  "lists_delete n q =
     (case cont q n of
        None \<Rightarrow> None
      | Some l \<Rightarrow> Some (q\<lparr>items := (items q)(l := remove1 n (items q l)),
                          cont := (cont q)(n := None)\<rparr>))"

definition lists_destruct :: "'n \<Rightarrow> ('l, 'n) lists \<Rightarrow> ('l, 'n) lists" where
  "lists_destruct n q = (case lists_delete n q of None \<Rightarrow> q | Some q' \<Rightarrow> q')"

text \<open>Every node is in at most one list, once, and its \<open>container\<close> says which.\<close>

definition lists_ok :: "('l, 'n) lists \<Rightarrow> bool" where
  "lists_ok q \<longleftrightarrow> (\<forall>l. distinct (items q l)) \<and>
                  (\<forall>l n. n \<in> set (items q l) \<longleftrightarrow> cont q n = Some l)"

lemma lists_okI:
  assumes "\<And>l. distinct (items q l)" and "\<And>l n. n \<in> set (items q l) \<longleftrightarrow> cont q n = Some l"
  shows "lists_ok q"
  using assms by (simp add: lists_ok_def)

lemma lists_ok_distinct [simp]: "lists_ok q \<Longrightarrow> distinct (items q l)"
  by (simp add: lists_ok_def)

lemma lists_ok_cont: "lists_ok q \<Longrightarrow> n \<in> set (items q l) \<longleftrightarrow> cont q n = Some l"
  by (simp add: lists_ok_def)

lemma lists_ok_disjoint: "lists_ok q \<Longrightarrow> l \<noteq> l' \<Longrightarrow> n \<in> set (items q l) \<Longrightarrow> n \<notin> set (items q l')"
  by (simp add: lists_ok_def)

lemma lists_ok_empty [kernel_inv]: "lists_ok lists_empty"
  by (simp add: lists_ok_def lists_empty_def)

lemma lists_ok_append [kernel_inv]: "lists_ok q \<Longrightarrow> lists_ok (lists_append l n q)"
  by (auto simp: lists_ok_def lists_append_def)

lemma lists_ok_prepend [kernel_inv]: "lists_ok q \<Longrightarrow> lists_ok (lists_prepend l n q)"
  by (auto simp: lists_ok_def lists_prepend_def)

text \<open>Removing one node, from whichever end, keeps the invariant.\<close>

lemma lists_ok_remove:
  assumes "lists_ok q" "cont q n = Some l" "set xs = set (items q l) - {n}" "distinct xs"
  shows "lists_ok (q\<lparr>items := (items q)(l := xs), cont := (cont q)(n := None)\<rparr>)"
proof (rule lists_okI)
  fix k m
  show "m \<in> set (items (q\<lparr>items := (items q)(l := xs), cont := (cont q)(n := None)\<rparr>) k)
        \<longleftrightarrow> cont (q\<lparr>items := (items q)(l := xs), cont := (cont q)(n := None)\<rparr>) m = Some k"
    using assms(2,3) lists_ok_cont [OF assms(1), of m k] by (cases "k = l"; cases "m = n"; simp)
next
  fix k
  show "distinct (items (q\<lparr>items := (items q)(l := xs), cont := (cont q)(n := None)\<rparr>) k)"
    using assms(1,4) by simp
qed

lemma lists_ok_shift [kernel_inv]: "lists_ok q \<Longrightarrow> lists_ok (snd (lists_shift l q))"
proof (cases "items q l")
  case (Cons n ns)
  assume ok: "lists_ok q"
  have "distinct (n # ns)" "cont q n = Some l"
    using Cons lists_ok_distinct [OF ok, of l] lists_ok_cont [OF ok, of n l] by simp_all
  with ok Cons show ?thesis
    by (simp add: lists_shift_def lists_ok_remove)
qed (simp add: lists_shift_def)

lemma lists_ok_pop [kernel_inv]: "lists_ok q \<Longrightarrow> lists_ok (snd (lists_pop l q))"
proof (cases "items q l" rule: rev_cases)
  case (snoc ns n)
  assume ok: "lists_ok q"
  have "distinct (ns @ [n])" "cont q n = Some l"
    using snoc lists_ok_distinct [OF ok, of l] lists_ok_cont [OF ok, of n l] by simp_all
  with ok snoc show ?thesis
    by (simp add: lists_pop_def lists_ok_remove)
qed (simp add: lists_pop_def)

lemma lists_ok_delete [kernel_inv]: "lists_ok q \<Longrightarrow> lists_delete n q = Some q' \<Longrightarrow> lists_ok q'"
  by (auto simp: lists_delete_def lists_ok_remove split: option.splits)

lemma lists_ok_destruct [kernel_inv]: "lists_ok q \<Longrightarrow> lists_ok (lists_destruct n q)"
  by (auto simp: lists_destruct_def intro: lists_ok_delete split: option.splits)

subsection \<open>Moving nodes between lists\<close>

text \<open>
  Deleting some nodes of \<open>l\<close> one by one and appending each to \<open>l'\<close>, as the loops that wake
  blocked processes do.
\<close>

definition lists_move :: "'l \<Rightarrow> 'l \<Rightarrow> 'n list \<Rightarrow> ('l, 'n) lists \<Rightarrow> ('l, 'n) lists" where
  "lists_move l l' ns q =
     q\<lparr>items := (items q)(l := filter (\<lambda>n. n \<notin> set ns) (items q l), l' := items q l' @ ns),
       cont := (\<lambda>n. if n \<in> set ns then Some l' else cont q n)\<rparr>"

lemma lists_move_Nil [simp]: "lists_move l l' [] q = q"
  by (simp add: lists_move_def fun_upd_idem_iff)

lemma lists_move_one:
  assumes ok: "lists_ok q" and n: "n \<in> set (items q l)" and l: "l \<noteq> l'"
  shows "lists_delete n q \<noteq> None"
    "map_option (lists_append l' n) (lists_delete n q) = Some (lists_move l l' [n] q)"
proof -
  have c: "cont q n = Some l" using n by (simp add: lists_ok_cont [OF ok])
  have r: "remove1 n (items q l) = filter (\<lambda>m. m \<noteq> n) (items q l)"
    using lists_ok_distinct [OF ok, of l] by (rule distinct_remove1_removeAll [unfolded removeAll_filter_not_eq, simplified eq_commute])
  show "lists_delete n q \<noteq> None" using c by (simp add: lists_delete_def)
  show "map_option (lists_append l' n) (lists_delete n q) = Some (lists_move l l' [n] q)"
    using c l r by (auto simp: lists_delete_def lists_append_def lists_move_def fun_eq_iff)
qed

lemma lists_move_Cons:
  "l \<noteq> l' \<Longrightarrow> lists_move l l' ns (lists_move l l' [n] q) = lists_move l l' (n # ns) q"
  by (auto simp: lists_move_def fun_eq_iff)

lemma lists_ok_move [kernel_inv]:
  assumes ok: "lists_ok q" and n: "set ns \<subseteq> set (items q l)" "distinct ns" and l: "l \<noteq> l'"
  shows "lists_ok (lists_move l l' ns q)"
proof (rule lists_okI)
  have d: "set (items q l') \<inter> set ns = {}"
    using n(1) l lists_ok_disjoint [OF ok l] by blast
  fix k m
  show "distinct (items (lists_move l l' ns q) k)"
    using n(2) ok d by (auto simp: lists_move_def)
  show "m \<in> set (items (lists_move l l' ns q) k) \<longleftrightarrow> cont (lists_move l l' ns q) m = Some k"
    using n(1) l lists_ok_cont [OF ok, of m k] lists_ok_cont [OF ok, of m l]
    by (auto simp: lists_move_def)
qed

section \<open>The code implements the specification\<close>

subsection \<open>Chains of links\<close>

text \<open>From \<open>p\<close> through the nodes of the list to \<open>q\<close>, linked in both directions.\<close>

fun chain :: "lheap \<Rightarrow> u64 \<Rightarrow> u64 list \<Rightarrow> u64 \<Rightarrow> bool" where
  "chain h p [] q \<longleftrightarrow> nxt (h p) = q \<and> prv (h q) = p"
| "chain h p (x # xs) q \<longleftrightarrow> nxt (h p) = x \<and> prv (h x) = p \<and> chain h x xs q"

lemma chain_append [simp]:
  "chain h p (xs @ y # ys) q \<longleftrightarrow> chain h p xs y \<and> chain h y ys q"
  by (induction xs arbitrary: p) auto

lemma chain_cong:
  assumes "\<And>x. x \<in> insert p (set xs) \<Longrightarrow> nxt (h' x) = nxt (h x)"
    and "\<And>x. x \<in> insert q (set xs) \<Longrightarrow> prv (h' x) = prv (h x)"
  shows "chain h' p xs q = chain h p xs q"
  using assms by (induction xs arbitrary: p) auto

lemma chain_first: "chain h p xs q \<Longrightarrow> nxt (h p) = hd (xs @ [q])"
  by (cases xs) auto

lemma chain_last: "chain h p xs q \<Longrightarrow> prv (h q) = last (p # xs)"
  by (cases xs rule: rev_cases) auto

text \<open>The two pointer surgeries: putting \<open>n\<close> between \<open>a\<close> and \<open>b\<close>, and taking it out.\<close>

definition splice :: "lheap \<Rightarrow> u64 \<Rightarrow> u64 \<Rightarrow> u64 \<Rightarrow> u64 \<Rightarrow> lheap" where
  "splice h a n b l = (\<lambda>x. \<lparr>nxt = (if x = a then n else if x = n then b else nxt (h x)),
                            prv = (if x = b then n else if x = n then a else prv (h x)),
                            container = (if x = n then l else container (h x))\<rparr>)"

definition unlink :: "lheap \<Rightarrow> u64 \<Rightarrow> u64 \<Rightarrow> u64 \<Rightarrow> lheap" where
  "unlink h a n b = (\<lambda>x. \<lparr>nxt = (if x = n then 0 else if x = a then b else nxt (h x)),
                          prv = (if x = n then 0 else if x = b then a else prv (h x)),
                          container = (if x = n then 0 else container (h x))\<rparr>)"

lemma splice_sel [simp]:
  "nxt (splice h a n b l x) = (if x = a then n else if x = n then b else nxt (h x))"
  "prv (splice h a n b l x) = (if x = b then n else if x = n then a else prv (h x))"
  "container (splice h a n b l x) = (if x = n then l else container (h x))"
  by (simp_all add: splice_def)

lemma unlink_sel [simp]:
  "nxt (unlink h a n b x) = (if x = n then 0 else if x = a then b else nxt (h x))"
  "prv (unlink h a n b x) = (if x = n then 0 else if x = b then a else prv (h x))"
  "container (unlink h a n b x) = (if x = n then 0 else container (h x))"
  by (simp_all add: unlink_def)

lemma set_sel [simp]:
  "nxt (set_nxt p v h x) = (if x = p then v else nxt (h x))"
  "prv (set_nxt p v h x) = prv (h x)"
  "container (set_nxt p v h x) = container (h x)"
  "nxt (set_prv p v h x) = nxt (h x)"
  "prv (set_prv p v h x) = (if x = p then v else prv (h x))"
  "container (set_prv p v h x) = container (h x)"
  "nxt (set_container p v h x) = nxt (h x)"
  "prv (set_container p v h x) = prv (h x)"
  "container (set_container p v h x) = (if x = p then v else container (h x))"
  by (simp_all add: set_nxt_def set_prv_def set_container_def)

lemma lheap_eqI:
  assumes "\<And>x. nxt (h x) = nxt (h' x)" "\<And>x. prv (h x) = prv (h' x)"
    "\<And>x. container (h x) = container (h' x)"
  shows "h = (h' :: lheap)"
  using assms by (intro ext) (auto intro: list_node.equality)

lemma chain_splice:
  assumes c: "chain h p (xs @ ys) q" and d: "distinct (xs @ ys)"
    and out: "p \<notin> set (xs @ ys)" "q \<notin> set (xs @ ys)"
    and n: "n \<notin> set (xs @ ys)" "n \<noteq> p" "n \<noteq> q"
    and ab: "a = last (p # xs)" "b = hd (ys @ [q])"
  shows "chain (splice h a n b l) p (xs @ n # ys) q"
proof -
  let ?h = "splice h a n b l"
  have "chain ?h p xs n"
  proof (cases xs rule: rev_cases)
    case Nil
    with ab n show ?thesis by (cases ys) auto
  next
    case (snoc us z)
    have "chain h p us z" using c snoc by (cases ys) auto
    moreover have "chain ?h p us z = chain h p us z"
      using snoc ab d out n by (intro chain_cong) (cases ys; auto)+
    ultimately show ?thesis using snoc ab d n out by (cases ys) auto
  qed
  moreover have "chain ?h n ys q"
  proof (cases ys)
    case Nil
    with ab n out d show ?thesis by auto
  next
    case (Cons w ws)
    have "chain h w ws q" using c Cons by auto
    moreover have "chain ?h w ws q = chain h w ws q"
      using Cons ab d out n by (intro chain_cong) (cases xs rule: rev_cases; auto)+
    ultimately show ?thesis using Cons ab n by auto
  qed
  ultimately show ?thesis by simp
qed

lemma chain_unlink:
  assumes c: "chain h p (xs @ n # ys) q" and d: "distinct (xs @ n # ys)"
    and out: "p \<notin> set (xs @ n # ys)" "q \<notin> set (xs @ n # ys)"
    and ab: "a = last (p # xs)" "b = hd (ys @ [q])"
  shows "chain (unlink h a n b) p (xs @ ys) q"
proof -
  let ?h = "unlink h a n b"
  have cx: "chain h p xs n" and cy: "chain h n ys q" using c by simp_all
  show ?thesis
  proof (cases ys)
    case Nil
    then have b: "b = q" using ab by simp
    show ?thesis
    proof (cases xs rule: rev_cases)
      case snoc': (snoc us z)
      have "chain ?h p us z = chain h p us z"
        using snoc' b ab d out by (intro chain_cong) auto
      with snoc' Nil b ab cx d out show ?thesis by auto
    qed (use Nil b ab out in auto)
  next
    case (Cons w ws)
    have w: "chain ?h w ws q = chain h w ws q"
      using Cons ab d out by (intro chain_cong) (cases xs rule: rev_cases; auto)+
    show ?thesis
    proof (cases xs rule: rev_cases)
      case snoc': (snoc us z)
      have "chain ?h p us z = chain h p us z"
        using Cons snoc' ab d out by (intro chain_cong) auto
      with snoc' Cons ab cx cy d out w show ?thesis by auto
    qed (use Cons ab out cy w d in auto)
  qed
qed

subsection \<open>The refinement relation\<close>

text \<open>
  \<open>H\<close> is the set of list heads and \<open>N\<close> the set of nodes of the store. A node in no
  list has its three links cleared.
\<close>

definition rep :: "u64 set \<Rightarrow> u64 set \<Rightarrow> lheap \<Rightarrow> (u64, u64) lists \<Rightarrow> bool" where
  "rep H N h q \<longleftrightarrow>
     lists_ok q \<and> H \<inter> N = {} \<and> 0 \<notin> H \<union> N \<and>
     (\<forall>l\<in>H. chain h l (items q l) l) \<and>
     (\<forall>n l. cont q n = Some l \<longrightarrow> n \<in> N \<and> l \<in> H \<and> container (h n) = l) \<and>
     (\<forall>n\<in>N. cont q n = None \<longrightarrow> nxt (h n) = 0 \<and> prv (h n) = 0 \<and> container (h n) = 0)"

lemma repD:
  assumes "rep H N h q"
  shows "lists_ok q" "H \<inter> N = {}" "0 \<notin> H" "0 \<notin> N"
    "\<And>l. l \<in> H \<Longrightarrow> chain h l (items q l) l"
    "\<And>n l. cont q n = Some l \<Longrightarrow> n \<in> N \<and> l \<in> H \<and> container (h n) = l"
    "\<And>n. n \<in> N \<Longrightarrow> cont q n = None \<Longrightarrow> nxt (h n) = 0 \<and> prv (h n) = 0 \<and> container (h n) = 0"
  using assms by (auto simp: rep_def)

lemma rep_items_nodes:
  assumes "rep H N h q" "l \<in> H"
  shows "set (items q l) \<subseteq> N" "l \<notin> set (items q l)"
    "\<And>l'. l' \<in> H \<Longrightarrow> l' \<notin> set (items q l)"
proof -
  have *: "x \<in> N" if "x \<in> set (items q l)" for x
    using that lists_ok_cont [OF repD(1) [OF assms(1)]] repD(6) [OF assms(1)] by auto
  then show "set (items q l) \<subseteq> N" by blast
  show "l \<notin> set (items q l)" "\<And>l'. l' \<in> H \<Longrightarrow> l' \<notin> set (items q l)"
    using * repD(2) [OF assms(1)] assms(2) by auto
qed

lemma chain_links_nonzero:
  assumes "chain h p xs q" "x \<in> set xs" "0 \<notin> insert p (insert q (set xs))"
  shows "nxt (h x) \<noteq> 0" "prv (h x) \<noteq> 0"
proof -
  from assms(2) obtain us vs where xs: "xs = us @ x # vs"
    by (meson split_list)
  with assms(1) have "nxt (h x) = hd (vs @ [q])" "prv (h x) = last (p # us)"
    by (auto dest: chain_first chain_last)
  moreover have "hd (vs @ [q]) \<noteq> 0" using assms(3) xs by (cases vs) auto
  moreover have "last (p # us) \<noteq> 0" using assms(3) xs by (cases us rule: rev_cases) auto
  ultimately show "nxt (h x) \<noteq> 0" "prv (h x) \<noteq> 0" by simp_all
qed

lemma rep_holding:
  assumes r: "rep H N h q" and n: "n \<in> N"
  shows "list_holding h n = Some (cont q n \<noteq> None)"
proof (cases "cont q n")
  case None
  with repD(7) [OF r n] show ?thesis by (simp add: list_holding_def)
next
  case (Some l)
  then have l: "l \<in> H" "container (h n) = l" "n \<in> set (items q l)"
    using repD(6) [OF r] lists_ok_cont [OF repD(1) [OF r]] by auto
  have "0 \<notin> insert l (insert l (set (items q l)))"
    using rep_items_nodes(1) [OF r l(1)] repD(3,4) [OF r] l(1) by auto
  from chain_links_nonzero [OF repD(5) [OF r l(1)] l(3) this] l repD(3) [OF r] Some
  show ?thesis by (auto simp: list_holding_def)
qed

text \<open>The links of one list can be rewritten without touching the others.\<close>

lemma rep_update:
  assumes r: "rep H N h q" and l: "l \<in> H" and ok: "lists_ok q'"
    and c: "chain h' l (items q' l) l"
    and others: "\<And>k. k \<noteq> l \<Longrightarrow> items q' k = items q k"
    and frame: "\<And>x. x \<noteq> l \<Longrightarrow> x \<notin> set (items q l) \<Longrightarrow> x \<noteq> n \<Longrightarrow> h' x = h x"
    and contf: "\<And>m. m \<noteq> n \<Longrightarrow> cont q' m = cont q m"
    and containerf: "\<And>m. m \<noteq> n \<Longrightarrow> container (h' m) = container (h m)"
    and n: "n \<in> N" "cont q n = None \<or> cont q n = Some l"
    and node: "(cont q' n = Some l \<and> container (h' n) = l) \<or>
       (cont q' n = None \<and> nxt (h' n) = 0 \<and> prv (h' n) = 0 \<and> container (h' n) = 0)"
  shows "rep H N h' q'"
proof -
  note [simp] = lists_ok_cont [OF repD(1) [OF r]]
  have "chain h' k (items q' k) k" if k: "k \<in> H" for k
  proof (cases "k = l")
    case False
    have "x \<noteq> l \<and> x \<notin> set (items q l) \<and> x \<noteq> n" if "x \<in> insert k (set (items q k))" for x
      using that False k l n rep_items_nodes(3) [OF r] repD(2) [OF r] by auto
    then have "chain h' k (items q k) k = chain h k (items q k) k"
      by (intro chain_cong) (auto simp: frame)
    with repD(5) [OF r k] others [OF False] show ?thesis by simp
  qed (use c in simp)
  moreover have "m \<in> N \<and> k \<in> H \<and> container (h' m) = k" if "cont q' m = Some k" for m k
    using that node n l contf containerf repD(6) [OF r] by (cases "m = n") auto
  moreover have "nxt (h' m) = 0 \<and> prv (h' m) = 0 \<and> container (h' m) = 0"
    if m: "m \<in> N" "cont q' m = None" for m
  proof (cases "m = n")
    case False
    with m contf have "cont q m = None" by simp
    moreover from this m(1) have "m \<noteq> l" "m \<notin> set (items q l)" using repD(2) [OF r] l by auto
    ultimately show ?thesis using repD(7) [OF r m(1)] frame False by simp
  qed (use node m in auto)
  ultimately show ?thesis
    using ok repD(2,3,4) [OF r] by (simp add: rep_def)
qed

subsection \<open>One refinement lemma per function\<close>

lemma rep_append:
  assumes r: "rep H N h q" and l: "l \<in> H" and n: "n \<in> N"
  shows "\<exists>h'. list_append h l n = Some h' \<and> rep H N h' (lists_append l n q)"
proof (cases "cont q n")
  case Some
  then show ?thesis using r rep_holding [OF r n]
    by (simp add: list_append_def lists_append_def)
next
  case None
  have nl: "n \<noteq> l" "n \<notin> set (items q l)"
    using None l n repD(2) [OF r] lists_ok_cont [OF repD(1) [OF r]] by auto
  let ?h = "splice h (prv (h l)) n l l"
  have eq: "list_append h l n = Some ?h"
    using nl rep_holding [OF r n] None
    by (simp add: list_append_def Let_def) (rule lheap_eqI; simp)
  have c: "chain h l (items q l) l" by (rule repD(5) [OF r l])
  note out = rep_items_nodes(2) [OF r l]
  have "chain ?h l (items q l @ n # []) l"
    using c out nl lists_ok_distinct [OF repD(1) [OF r], of l] chain_last [OF c]
    by (intro chain_splice) auto
  moreover have a: "prv (h l) = l \<or> prv (h l) \<in> set (items q l)"
    using chain_last [OF c] by (cases "items q l" rule: rev_cases) auto
  ultimately have "rep H N ?h (lists_append l n q)"
    using None n nl a lists_ok_append [OF repD(1) [OF r], of l n]
    by (intro rep_update [OF r l, where n = n])
      (auto simp: lists_append_def intro: list_node.equality)
  with eq show ?thesis by blast
qed

lemma rep_prepend:
  assumes r: "rep H N h q" and l: "l \<in> H" and n: "n \<in> N"
  shows "\<exists>h'. list_prepend h l n = Some h' \<and> rep H N h' (lists_prepend l n q)"
proof (cases "cont q n")
  case Some
  then show ?thesis using r rep_holding [OF r n]
    by (simp add: list_prepend_def lists_prepend_def)
next
  case None
  have nl: "n \<noteq> l" "n \<notin> set (items q l)"
    using None l n repD(2) [OF r] lists_ok_cont [OF repD(1) [OF r]] by auto
  let ?h = "splice h l n (nxt (h l)) l"
  have c: "chain h l (items q l) l" by (rule repD(5) [OF r l])
  have b: "nxt (h l) = l \<or> nxt (h l) \<in> set (items q l)"
    using chain_first [OF c] by (cases "items q l") auto
  have eq: "list_prepend h l n = Some ?h"
    using nl b rep_holding [OF r n] None
    by (simp add: list_prepend_def Let_def) (rule lheap_eqI; auto)
  note out = rep_items_nodes(2) [OF r l]
  have "chain ?h l ([] @ n # items q l) l"
    using c out nl lists_ok_distinct [OF repD(1) [OF r], of l] chain_first [OF c]
    by (intro chain_splice) auto
  then have "rep H N ?h (lists_prepend l n q)"
    using None n nl b lists_ok_prepend [OF repD(1) [OF r], of l n]
    by (intro rep_update [OF r l, where n = n])
      (auto simp: lists_prepend_def intro: list_node.equality)
  with eq show ?thesis by blast
qed

text \<open>The three removals share the unlinking of a node between its neighbours.\<close>

lemma rep_unlink:
  assumes r: "rep H N h q" and l: "l \<in> H" and i: "items q l = xs @ n # ys"
  shows "rep H N (unlink h (prv (h n)) n (nxt (h n)))
           (q\<lparr>items := (items q)(l := xs @ ys), cont := (cont q)(n := None)\<rparr>)"
proof -
  have c: "chain h l (xs @ n # ys) l" using repD(5) [OF r l] i by simp
  have d: "distinct (xs @ n # ys)" using lists_ok_distinct [OF repD(1) [OF r], of l] i by simp
  have out: "l \<notin> set (xs @ n # ys)" using rep_items_nodes(2) [OF r l] i by simp
  have n: "n \<in> N" "cont q n = Some l"
    using rep_items_nodes(1) [OF r l] lists_ok_cont [OF repD(1) [OF r], of n l] i by auto
  have a: "prv (h n) = last (l # xs)" and b: "nxt (h n) = hd (ys @ [l])"
    using c chain_first chain_last by auto
  have ab: "prv (h n) = l \<or> prv (h n) \<in> set (items q l)" "nxt (h n) = l \<or> nxt (h n) \<in> set (items q l)"
    unfolding a b i by (cases xs rule: rev_cases; simp) (cases ys; simp)
  have ok: "lists_ok (q\<lparr>items := (items q)(l := xs @ ys), cont := (cont q)(n := None)\<rparr>)"
    using d i n by (intro lists_ok_remove [OF repD(1) [OF r]]) auto
  have "chain (unlink h (prv (h n)) n (nxt (h n))) l (xs @ ys) l"
    by (rule chain_unlink [OF c d out out a b])
  with ok n ab show ?thesis
    by (intro rep_update [OF r l, where n = n]) (auto intro: list_node.equality)
qed

lemma rep_shift:
  assumes r: "rep H N h q" and l: "l \<in> H"
  shows "\<exists>h'. list_shift h l = ((case fst (lists_shift l q) of None \<Rightarrow> 0 | Some n \<Rightarrow> n), h')
              \<and> rep H N h' (snd (lists_shift l q))"
proof (cases "items q l")
  case Nil
  with repD(5) [OF r l] r show ?thesis by (simp add: list_shift_def lists_shift_def)
next
  case (Cons n ns)
  have c: "nxt (h l) = n" "prv (h n) = l" using repD(5) [OF r l] Cons by auto
  have nl: "n \<noteq> l" using rep_items_nodes(2) [OF r l] Cons by auto
  have "list_shift h l = (n, unlink h (prv (h n)) n (nxt (h n)))"
    using c nl by (simp add: list_shift_def Let_def) (rule lheap_eqI; simp)
  with rep_unlink [OF r l, of "[]" n ns] Cons show ?thesis
    by (simp add: lists_shift_def)
qed

lemma rep_pop:
  assumes r: "rep H N h q" and l: "l \<in> H"
  shows "\<exists>h'. list_pop h l = ((case fst (lists_pop l q) of None \<Rightarrow> 0 | Some n \<Rightarrow> n), h')
              \<and> rep H N h' (snd (lists_pop l q))"
proof (cases "items q l" rule: rev_cases)
  case Nil
  with repD(5) [OF r l] r show ?thesis by (simp add: list_pop_def lists_pop_def)
next
  case (snoc ns n)
  have c: "prv (h l) = n" "nxt (h n) = l" using repD(5) [OF r l] snoc by auto
  have nl: "n \<noteq> l" using rep_items_nodes(2) [OF r l] snoc by auto
  have "list_pop h l = (n, unlink h (prv (h n)) n (nxt (h n)))"
    using c nl by (simp add: list_pop_def Let_def) (rule lheap_eqI; simp)
  with rep_unlink [OF r l, of ns n "[]"] snoc show ?thesis
    by (simp add: lists_pop_def)
qed

lemma rep_delete:
  assumes r: "rep H N h q" and n: "n \<in> N"
  shows "rel_option (rep H N) (list_delete h n) (lists_delete n q)"
proof (cases "cont q n")
  case None
  with rep_holding [OF r n] show ?thesis by (simp add: list_delete_def lists_delete_def)
next
  case (Some l)
  have l: "l \<in> H" and i: "n \<in> set (items q l)"
    using repD(6) [OF r Some] lists_ok_cont [OF repD(1) [OF r], of n l] Some by auto
  obtain xs ys where s: "items q l = xs @ n # ys" "remove1 n (items q l) = xs @ ys"
    using in_set_split_distinct [OF i lists_ok_distinct [OF repD(1) [OF r]]] by metis
  have c: "chain h l (xs @ n # ys) l" using repD(5) [OF r l] s by simp
  have out: "l \<notin> set (xs @ n # ys)" and d: "distinct (xs @ n # ys)"
    using rep_items_nodes(2) [OF r l] lists_ok_distinct [OF repD(1) [OF r], of l] s by auto
  have a: "prv (h n) = last (l # xs)" and b: "nxt (h n) = hd (ys @ [l])"
    using c chain_first chain_last by auto
  have "prv (h n) \<noteq> n" unfolding a using out d by (cases xs rule: rev_cases) auto
  moreover have "nxt (h n) \<noteq> n" unfolding b using out d by (cases ys) auto
  ultimately have "list_delete h n = Some (unlink h (prv (h n)) n (nxt (h n)))"
    using rep_holding [OF r n] Some
    by (simp add: list_delete_def Let_def) (rule lheap_eqI; simp)
  with rep_unlink [OF r l s(1)] Some s show ?thesis
    by (simp add: lists_delete_def)
qed

lemma rep_destruct:
  assumes r: "rep H N h q" and n: "n \<in> N"
  shows "\<exists>h'. list_node_destruct h n = Some h' \<and> rep H N h' (lists_destruct n q)"
proof (cases "cont q n")
  case None
  with r rep_holding [OF r n] show ?thesis
    by (simp add: list_node_destruct_def lists_destruct_def lists_delete_def)
next
  case (Some l)
  with rep_delete [OF r n] rep_holding [OF r n] show ?thesis
    by (auto simp: list_node_destruct_def lists_destruct_def lists_delete_def
        split: option.splits elim!: option.rel_cases)
qed

lemma list_size_loop_chain:
  assumes "chain h p xs l" "l \<notin> set xs"
  shows "list_size_loop h l (nxt (h p)) k = Some (k + of_nat (length xs))"
  using assms
proof (induction xs arbitrary: p k)
  case Nil
  then show ?case by (subst list_size_loop.simps) simp
next
  case (Cons x xs)
  then have "list_size_loop h l (nxt (h x)) (k + 1) = Some (k + 1 + of_nat (length xs))"
    by simp
  with Cons.prems show ?case
    by (subst list_size_loop.simps) (auto simp: ac_simps)
qed

lemma rep_size: "rep H N h q \<Longrightarrow> l \<in> H \<Longrightarrow> list_size h l = Some (of_nat (length (items q l)))"
  by (simp add: list_size_def list_size_loop_chain [OF repD(5)] rep_items_nodes)

section \<open>Sequences of list calls\<close>

datatype ('l, 'n) list_call =
    CallAppend 'l 'n | CallPrepend 'l 'n | CallShift 'l | CallPop 'l
  | CallDelete 'n | CallDestruct 'n | CallSize 'l

text \<open>The result of a call, as the caller reads it: a node pointer or a count.\<close>

fun list_c_step :: "(u64, u64) list_call \<Rightarrow> lheap \<Rightarrow> (u64 \<times> lheap) option" where
  "list_c_step (CallAppend l n) h = map_option (Pair 0) (list_append h l n)"
| "list_c_step (CallPrepend l n) h = map_option (Pair 0) (list_prepend h l n)"
| "list_c_step (CallShift l) h = Some (list_shift h l)"
| "list_c_step (CallPop l) h = Some (list_pop h l)"
| "list_c_step (CallDelete n) h = map_option (Pair 0) (list_delete h n)"
| "list_c_step (CallDestruct n) h = map_option (Pair 0) (list_node_destruct h n)"
| "list_c_step (CallSize l) h = map_option (\<lambda>k. (k, h)) (list_size h l)"

definition node_ptr :: "u64 option \<Rightarrow> u64" where
  "node_ptr r = (case r of None \<Rightarrow> 0 | Some n \<Rightarrow> n)"

fun list_spec_step ::
  "(u64, u64) list_call \<Rightarrow> (u64, u64) lists \<Rightarrow> (u64 \<times> (u64, u64) lists) option" where
  "list_spec_step (CallAppend l n) q = Some (0, lists_append l n q)"
| "list_spec_step (CallPrepend l n) q = Some (0, lists_prepend l n q)"
| "list_spec_step (CallShift l) q = Some (map_prod node_ptr id (lists_shift l q))"
| "list_spec_step (CallPop l) q = Some (map_prod node_ptr id (lists_pop l q))"
| "list_spec_step (CallDelete n) q = map_option (Pair 0) (lists_delete n q)"
| "list_spec_step (CallDestruct n) q = Some (0, lists_destruct n q)"
| "list_spec_step (CallSize l) q = Some (of_nat (length (items q l)), q)"

text \<open>A call is legal when its list is one of the heads and its node one of the nodes.\<close>

fun legal_call :: "'l set \<Rightarrow> 'n set \<Rightarrow> ('l, 'n) list_call \<Rightarrow> bool" where
  "legal_call H N (CallAppend l n) \<longleftrightarrow> l \<in> H \<and> n \<in> N"
| "legal_call H N (CallPrepend l n) \<longleftrightarrow> l \<in> H \<and> n \<in> N"
| "legal_call H N (CallShift l) \<longleftrightarrow> l \<in> H"
| "legal_call H N (CallPop l) \<longleftrightarrow> l \<in> H"
| "legal_call H N (CallDelete n) \<longleftrightarrow> n \<in> N"
| "legal_call H N (CallDestruct n) \<longleftrightarrow> n \<in> N"
| "legal_call H N (CallSize l) \<longleftrightarrow> l \<in> H"

lemma list_step_sim:
  assumes r: "rep H N h q" and ok: "legal_call H N x"
  shows "rel_option (\<lambda>(r, s') (r', a'). r = r' \<and> rep H N s' a')
           (list_c_step x h) (list_spec_step x q)"
proof (cases x)
  case (CallAppend l n)
  with rep_append [OF r, of l n] ok show ?thesis by auto
next
  case (CallPrepend l n)
  with rep_prepend [OF r, of l n] ok show ?thesis by auto
next
  case (CallShift l)
  with rep_shift [OF r, of l] ok show ?thesis
    by (auto simp: node_ptr_def map_prod_def split: prod.splits)
next
  case (CallPop l)
  with rep_pop [OF r, of l] ok show ?thesis
    by (auto simp: node_ptr_def map_prod_def split: prod.splits)
next
  case (CallDelete n)
  with rep_delete [OF r, of n] ok show ?thesis
    by (auto elim: option.rel_cases)
next
  case (CallDestruct n)
  with rep_destruct [OF r, of n] ok show ?thesis by auto
next
  case (CallSize l)
  with rep_size [OF r, of l] r ok show ?thesis by simp
qed

interpretation list_c: simulation "rep H N" "legal_call H N" list_c_step list_spec_step for H N
  by unfold_locales (rule list_step_sim)

text \<open>Zeroed memory in which \<open>list_init\<close> has set up the heads \<open>ls\<close>.\<close>

definition lists_boot :: "u64 list \<Rightarrow> lheap" where
  "lists_boot ls = foldl list_init (\<lambda>_. \<lparr>nxt = 0, prv = 0, container = 0\<rparr>) ls"

lemma foldl_list_init:
  "foldl list_init h ls = (\<lambda>x. if x \<in> set ls then (h x)\<lparr>nxt := x, prv := x\<rparr> else h x)"
  by (induction ls arbitrary: h) (auto simp: list_init_def set_nxt_def set_prv_def)

lemma rep_boot:
  assumes "set ls \<inter> N = {}" "0 \<notin> set ls" "0 \<notin> N"
  shows "rep (set ls) N (lists_boot ls) lists_empty"
  using assms lists_ok_empty
  by (auto simp: rep_def lists_boot_def foldl_list_init lists_empty_def)

text \<open>
  C4. Starting from initialised lists, any sequence of calls to the functions of
  \<open>libs/list.c\<close>, on any of the lists and nodes and in any order, behaves as the
  specification on finite sequences: the same results are returned, the pointer structure
  reached represents the sequences reached, and the code panics exactly when the
  specification does (deleting a node that is in no list).
\<close>

theorem list_calls_refine:
  assumes "set ls \<inter> N = {}" "0 \<notin> set ls" "0 \<notin> N" "list_all (legal_call (set ls) N) cs"
  shows "rel_option (\<lambda>(rs, h) (rs', q). rs = rs' \<and> rep (set ls) N h q)
           (run_ops list_c_step cs (lists_boot ls)) (run_ops list_spec_step cs lists_empty)"
  by (rule list_c.run_sim [OF rep_boot [OF assms(1-3)] assms(4)])

theorem list_calls_refine_witness:
  "map_option fst (run_ops list_c_step
     [CallAppend 8 32, CallPrepend 8 48, CallAppend 16 64, CallSize 8, CallDelete 32,
      CallAppend 16 32, CallShift 16, CallPop 16, CallPop 8, CallPop 8] (lists_boot [8, 16]))
   = Some [0, 0, 0, 2, 0, 0, 64, 32, 48, 0]"
  using list_calls_refine [of "[8, 16]" "{32, 48, 64}"
     "[CallAppend 8 32, CallPrepend 8 48, CallAppend 16 64, CallSize 8, CallDelete 32,
       CallAppend 16 32, CallShift 16, CallPop 16, CallPop 8, CallPop 8]"]
  by (auto simp: lists_append_def lists_prepend_def lists_shift_def lists_pop_def
      lists_delete_def lists_empty_def node_ptr_def option_rel_Some2)

end
