(* ===== verification/Kmalloc.thy ===== *)
theory Kmalloc
  imports Kernel_Prelude
begin

unbundle bit_operations_syntax

text \<open>
  The buddy allocator of \<open>kernel/mm/kmalloc.c\<close>.

  \<^item> The code works on a store \<open>cells\<close> of 8-byte cells: the cell at a free block's
    address is its \<open>next\<close> link, and the same cell of an allocated block is its header
    (\<open>order\<close> in the low half, \<open>magic\<close> in the high half). \<open>free_lists\<close> are the list
    heads. The address that \<open>alloc_pageframe\<close> hands out for the pool is an argument of
    the operations that may initialise the pool.
  \<^item> The invariant \<open>kmalloc_inv\<close> ties this to a tiling of the pool by aligned
    power-of-two blocks, free or live, in which no two buddies are free together.
\<close>

section \<open>The code\<close>

definition MIN_ORDER :: nat where "MIN_ORDER = 4"
definition MAX_ORDER :: nat where "MAX_ORDER = 22"
definition MIN_BLOCK_SIZE :: u64 where "MIN_BLOCK_SIZE = push_bit MIN_ORDER 1"
definition POOL_BYTES :: u64 where "POOL_BYTES = 1024 * 4096"
definition HEADER_MAGIC :: u32 where "HEADER_MAGIC = 0xC0DECAFE"

record kmem =
  cells :: "u64 \<Rightarrow> u64"
  free_lists :: "nat \<Rightarrow> u64"
  pool_base :: u64
  pool_end :: u64
  kmalloc_ready :: bool

text \<open>The header struct in one cell.\<close>

definition block_header :: "u32 \<Rightarrow> u32 \<Rightarrow> u64" where
  "block_header ord magic = push_bit 32 (ucast magic) OR ucast ord"

definition header_order :: "u64 \<Rightarrow> u32" where
  "header_order c = ucast c"

definition header_magic :: "u64 \<Rightarrow> u32" where
  "header_magic c = ucast (drop_bit 32 c)"

definition order_size :: "nat \<Rightarrow> u64" where
  "order_size order = push_bit order 1"

definition order_index :: "nat \<Rightarrow> nat" where
  "order_index order = order - MIN_ORDER"

definition push_block :: "nat \<Rightarrow> u64 \<Rightarrow> kmem \<Rightarrow> kmem" where
  "push_block order addr s =
     (let idx = order_index order;
          s1 = s\<lparr>cells := (cells s)(addr := free_lists s idx)\<rparr>
      in s1\<lparr>free_lists := (free_lists s1)(idx := addr)\<rparr>)"

definition pop_block :: "nat \<Rightarrow> kmem \<Rightarrow> u64 \<times> kmem" where
  "pop_block order s =
     (let idx = order_index order; block = free_lists s idx
      in if block = 0 then (0, s)
         else (block, s\<lparr>free_lists := (free_lists s)(idx := cells s block)\<rparr>))"

text \<open>The inner loop of \<open>acquire_block\<close>, which splits a block down to \<open>order\<close>.\<close>

fun split_down :: "nat \<Rightarrow> nat \<Rightarrow> u64 \<Rightarrow> kmem \<Rightarrow> kmem" where
  "split_down order cur block s =
     (if cur > order
      then let cur' = cur - 1; buddy = block + order_size cur'
           in split_down order cur' block (push_block cur' buddy s)
      else s)"

declare split_down.simps [simp del]

function acquire_from :: "nat \<Rightarrow> nat \<Rightarrow> kmem \<Rightarrow> u64 \<times> kmem" where
  "acquire_from order cur s =
     (if cur \<le> MAX_ORDER
      then case pop_block cur s of
             (block, s') \<Rightarrow>
               if block = 0 then acquire_from order (cur + 1) s'
               else (block, split_down order cur block s')
      else (0, s))"
  by pat_completeness auto
termination
  by (relation "measure (\<lambda>(order, cur, s). Suc MAX_ORDER - cur)") auto

declare acquire_from.simps [simp del]

definition acquire_block :: "nat \<Rightarrow> kmem \<Rightarrow> u64 \<times> kmem" where
  "acquire_block order s = acquire_from order order s"

text \<open>
  The search of \<open>merge_block\<close>. \<open>prev\<close> is the address of a link: a list head, or the
  \<open>next\<close> field of a free block. On a cyclic list the C loop does not end.
\<close>

datatype link = ListHead nat | NextOf u64

fun write_link :: "link \<Rightarrow> u64 \<Rightarrow> kmem \<Rightarrow> kmem" where
  "write_link (ListHead idx) v s = s\<lparr>free_lists := (free_lists s)(idx := v)\<rparr>"
| "write_link (NextOf a) v s = s\<lparr>cells := (cells s)(a := v)\<rparr>"

partial_function (option) unlink_buddy :: "u64 \<Rightarrow> link \<Rightarrow> u64 \<Rightarrow> kmem \<Rightarrow> (bool \<times> kmem) option" where
  "unlink_buddy buddy prev cur s =
     (if cur = 0 then Some (False, s)
      else if cur = buddy then Some (True, write_link prev (cells s cur) s)
      else unlink_buddy buddy (NextOf cur) (cells s cur) s)"

function merge_block :: "u64 \<Rightarrow> nat \<Rightarrow> kmem \<Rightarrow> kmem option" where
  "merge_block addr order s =
     (if order < MAX_ORDER
      then let offset = addr - pool_base s;
               buddy = pool_base s + (offset XOR order_size order);
               idx = order_index order
           in case unlink_buddy buddy (ListHead idx) (free_lists s idx) s of
                None \<Rightarrow> None
              | Some (found, s') \<Rightarrow>
                  if \<not> found then Some (push_block order addr s')
                  else merge_block (if buddy < addr then buddy else addr) (order + 1) s'
      else Some (push_block order addr s))"
  by pat_completeness auto
termination
  by (relation "measure (\<lambda>(addr, order, s). MAX_ORDER - order)") auto

declare merge_block.simps [simp del]

definition init_kmalloc :: "u64 \<Rightarrow> kmem \<Rightarrow> kmem option" where
  "init_kmalloc frames s = do {
     asserts (frames \<noteq> 0);
     let s1 = s\<lparr>pool_base := frames, pool_end := frames + POOL_BYTES, free_lists := (\<lambda>_. 0)\<rparr>;
     let s2 = push_block MAX_ORDER frames s1;
     Some (s2\<lparr>kmalloc_ready := True\<rparr>)
   }"

function order_for :: "nat \<Rightarrow> u64 \<Rightarrow> nat" where
  "order_for order tot =
     (if order \<le> MAX_ORDER \<and> order_size order < tot then order_for (order + 1) tot else order)"
  by pat_completeness auto
termination
  by (relation "measure (\<lambda>(order, tot). Suc MAX_ORDER - order)") auto

declare order_for.simps [simp del]

definition kmalloc :: "u64 \<Rightarrow> u64 \<Rightarrow> kmem \<Rightarrow> (u64 \<times> kmem) option" where
  "kmalloc frames sz s0 = do {
     s \<leftarrow> (if \<not> kmalloc_ready s0 then init_kmalloc frames s0 else Some s0);
     if sz = 0 then Some (0, s) else do {
       let tot = sz + 8;
       let tot' = (if tot < MIN_BLOCK_SIZE then MIN_BLOCK_SIZE else tot);
       let order = order_for MIN_ORDER tot';
       if order > MAX_ORDER then Some (0, s) else do {
         let (block, s1) = acquire_block order s;
         if block = 0 then Some (0, s1) else do {
           let c1 = block_header (of_nat order) (header_magic (cells s1 block));
           let c2 = block_header (header_order c1) HEADER_MAGIC;
           Some (block + 8, s1\<lparr>cells := (cells s1)(block := c2)\<rparr>)
         }
       }
     }
   }"

definition kfree :: "u64 \<Rightarrow> u64 \<Rightarrow> kmem \<Rightarrow> kmem option" where
  "kfree frames ptr s0 = do {
     s \<leftarrow> (if \<not> kmalloc_ready s0 then init_kmalloc frames s0 else Some s0);
     if ptr = 0 then Some s else do {
       let addr = ptr - 8;
       if addr < pool_base s \<or> addr \<ge> pool_end s then Some s else do {
         let c = cells s addr;
         if header_magic c \<noteq> HEADER_MAGIC \<or> unat (header_order c) > MAX_ORDER
            \<or> unat (header_order c) < MIN_ORDER
         then Some s
         else do {
           let s1 = s\<lparr>cells := (cells s)(addr := block_header (header_order c) 0)\<rparr>;
           merge_block addr (unat (header_order (cells s1 addr))) s1
         }
       }
     }
   }"

section \<open>Tilings of the pool by buddy blocks\<close>

text \<open>A block is an offset in the pool and an order; \<open>blk\<close> is the bytes it covers.\<close>

type_synonym block = "nat \<times> nat"

definition POOL :: nat where "POOL = 2 ^ 22"

fun blk :: "block \<Rightarrow> nat set" where
  "blk (a, k) = {a..<a + 2 ^ k}"

fun wf_block :: "block \<Rightarrow> bool" where
  "wf_block (a, k) \<longleftrightarrow> 4 \<le> k \<and> k \<le> 22 \<and> 2 ^ k dvd a \<and> a + 2 ^ k \<le> POOL"

definition tiling :: "block set \<Rightarrow> bool" where
  "tiling B \<longleftrightarrow> (\<forall>b\<in>B. wf_block b) \<and> (\<forall>b\<in>B. \<forall>c\<in>B. b \<noteq> c \<longrightarrow> blk b \<inter> blk c = {}) \<and>
     \<Union> (blk ` B) = {0..<POOL}"

definition buddy_of :: "nat \<Rightarrow> nat \<Rightarrow> nat" where
  "buddy_of a k = a XOR 2 ^ k"

lemma blk_nonempty [simp]: "blk b \<noteq> {}"
  by (cases b) simp

lemma blk_start [simp]: "a \<in> blk (a, k)"
  by simp

declare blk.simps [simp del]

lemma tilingD:
  assumes "tiling B"
  shows "b \<in> B \<Longrightarrow> wf_block b"
    "b \<in> B \<Longrightarrow> c \<in> B \<Longrightarrow> b \<noteq> c \<Longrightarrow> blk b \<inter> blk c = {}"
    "\<Union> (blk ` B) = {0..<POOL}"
  using assms by (auto simp: tiling_def)

lemma tiling_inj: "tiling B \<Longrightarrow> (a, j) \<in> B \<Longrightarrow> (a, k) \<in> B \<Longrightarrow> j = k"
  using tilingD(2) [of B "(a, j)" "(a, k)"] blk_start by blast

lemma tiling_replace:
  assumes t: "tiling B" and X: "X \<subseteq> B" and Y: "\<And>y. y \<in> Y \<Longrightarrow> wf_block y"
    and d: "\<And>y z. y \<in> Y \<Longrightarrow> z \<in> Y \<Longrightarrow> y \<noteq> z \<Longrightarrow> blk y \<inter> blk z = {}"
    and U: "\<Union> (blk ` Y) = \<Union> (blk ` X)"
  shows "tiling (B - X \<union> Y)" "Y \<inter> (B - X) = {}"
proof -
  have cross: "blk b \<inter> blk y = {}" if yb: "b \<in> B - X" "y \<in> Y" for b y
  proof -
    have "blk b \<inter> blk x = {}" if "x \<in> X" for x
      by (rule tilingD(2) [OF t]) (use that yb X in auto)
    then have "blk b \<inter> \<Union> (blk ` X) = {}" by auto
    moreover have "blk y \<subseteq> \<Union> (blk ` X)" unfolding U [symmetric] using yb(2) by auto
    ultimately show ?thesis by auto
  qed
  have "\<Union> (blk ` (B - X \<union> Y)) = \<Union> (blk ` (B - X)) \<union> \<Union> (blk ` X)"
    by (simp add: image_Un U)
  also have "\<dots> = \<Union> (blk ` ((B - X) \<union> X))" by (simp only: image_Un Union_Un_distrib)
  also have "(B - X) \<union> X = B" using X by auto
  finally have cover: "\<Union> (blk ` (B - X \<union> Y)) = {0..<POOL}" using tilingD(3) [OF t] by simp
  have "blk b \<inter> blk c = {}" if bc: "b \<in> B - X \<union> Y" "c \<in> B - X \<union> Y" "b \<noteq> c" for b c
  proof (cases "b \<in> Y"; cases "c \<in> Y")
    assume "b \<in> Y" "c \<notin> Y"
    then show ?thesis using cross [of c b] bc(2) by auto
  next
    assume "b \<notin> Y" "c \<in> Y"
    then show ?thesis using cross [of b c] bc(1) by auto
  next
    assume "b \<notin> Y" "c \<notin> Y"
    then show ?thesis using tilingD(2) [OF t, of b c] bc by simp
  qed (rule d [OF _ _ bc(3)])
  moreover have "\<forall>b\<in>B - X \<union> Y. wf_block b" using tilingD(1) [OF t] Y by auto
  ultimately show "tiling (B - X \<union> Y)" unfolding tiling_def using cover by simp
  show "Y \<inter> (B - X) = {}" using cross blk_nonempty by (metis disjoint_iff inf.idem)
qed

subsection \<open>Buddies\<close>

lemma buddy_arith:
  assumes "2 ^ k dvd a"
  shows "buddy_of a k = (if 2 ^ Suc k dvd a then a + 2 ^ k else a - 2 ^ k)"
proof -
  have "bit a k \<longleftrightarrow> \<not> 2 ^ Suc k dvd a"
    using assms by (auto simp: bit_iff_odd elim!: dvdE)
  moreover have "buddy_of a k = flip_bit k a" by (simp add: buddy_of_def flip_bit_eq_xor)
  moreover have "unset_bit k a + 2 ^ k = a" if "bit a k"
  proof -
    have "set_bit k (unset_bit k a) = a"
      by (rule bit_eqI) (use that in \<open>auto simp: bit_simps\<close>)
    then show ?thesis by (simp add: set_bit_eq bit_simps)
  qed
  ultimately show ?thesis by (auto simp: flip_bit_eq_if set_bit_eq)
qed

lemma buddy_join:
  assumes "wf_block (a, k)" "k < 22"
  shows "wf_block (buddy_of a k, k)" "wf_block (min a (buddy_of a k), Suc k)"
    "blk (min a (buddy_of a k), Suc k) = blk (a, k) \<union> blk (buddy_of a k, k)"
    "blk (a, k) \<inter> blk (buddy_of a k, k) = {}" "buddy_of a k \<noteq> a"
proof -
  have d: "2 ^ k dvd a" and b: "a + 2 ^ k \<le> POOL" "4 \<le> k" using assms by simp_all
  obtain c where c: "a = 2 ^ k * c" using d by (rule dvdE)
  obtain m where m: "min a (buddy_of a k) = 2 ^ Suc k * m"
      "(a = 2 ^ Suc k * m \<and> buddy_of a k = a + 2 ^ k) \<or>
       (buddy_of a k = 2 ^ Suc k * m \<and> a = buddy_of a k + 2 ^ k)"
  proof (cases "even c")
    case True
    then obtain m where "c = 2 * m" by (rule evenE)
    then have "a = 2 ^ Suc k * m" using c by simp
    with buddy_arith [OF d] show ?thesis by (intro that [of m]) auto
  next
    case False
    then obtain m where m: "c = 2 * m + 1" by (rule oddE)
    then have a: "a = 2 ^ Suc k * m + 2 ^ k" using c by (simp add: algebra_simps)
    have "2 ^ Suc k dvd a \<longleftrightarrow> 2 ^ Suc k dvd (2 ^ k :: nat)"
      unfolding a by (rule dvd_add_right_iff) simp
    then have "\<not> 2 ^ Suc k dvd a" by (auto dest: dvd_imp_le)
    with buddy_arith [OF d] a show ?thesis by (intro that [of m]) auto
  qed
  obtain n where n: "POOL = 2 ^ Suc k * (2 ^ n)" and "n = 21 - k"
    using assms(2) by (simp add: POOL_def flip: power_add power_Suc)
  have "2 ^ Suc k * m + 2 ^ Suc k \<le> POOL"
  proof -
    have "2 ^ Suc k * m < a + 2 ^ k" using m(2) by (elim disjE conjE) (simp_all only:, simp_all)
    also note b(1)
    finally have "2 ^ Suc k * m < 2 ^ Suc k * (2 ^ n :: nat)" unfolding n .
    then have "Suc m \<le> 2 ^ n" by simp
    then have "2 ^ Suc k * Suc m \<le> 2 ^ Suc k * (2 ^ n :: nat)" by (rule mult_le_mono2)
    then show ?thesis using n by simp
  qed
  then show "wf_block (buddy_of a k, k)" "wf_block (min a (buddy_of a k), Suc k)"
    using m b assms(2) d by (auto simp: dvd_add_left_iff)
  show "blk (min a (buddy_of a k), Suc k) = blk (a, k) \<union> blk (buddy_of a k, k)"
    "blk (a, k) \<inter> blk (buddy_of a k, k) = {}" "buddy_of a k \<noteq> a"
    using m by (auto simp: blk.simps)
qed

subsection \<open>The allocator invariant on blocks\<close>

text \<open>
  \<open>fl k\<close> are the offsets on the free list of order \<open>k\<close>, and \<open>A\<close> the live blocks (a
  block in transit between the lists and its user counts as live).
\<close>

definition free_set :: "(nat \<Rightarrow> nat list) \<Rightarrow> block set" where
  "free_set fl = {(a, k). a \<in> set (fl k)}"

definition buddy_inv :: "(nat \<Rightarrow> nat list) \<Rightarrow> block set \<Rightarrow> bool" where
  "buddy_inv fl A \<longleftrightarrow> (\<forall>k. distinct (fl k)) \<and> free_set fl \<inter> A = {} \<and> tiling (free_set fl \<union> A) \<and>
     (\<forall>k<22. \<forall>a\<in>set (fl k). buddy_of a k \<notin> set (fl k))"

lemma free_set_iff [simp]: "(a, k) \<in> free_set fl \<longleftrightarrow> a \<in> set (fl k)"
  by (simp add: free_set_def)

lemma free_set_upd: "free_set (fl(k := xs)) = free_set fl - {(a, k) |a. True} \<union> {(a, k) |a. a \<in> set xs}"
  by (auto simp: free_set_def)

lemma buddy_invD:
  assumes "buddy_inv fl A"
  shows "distinct (fl k)" "free_set fl \<inter> A = {}" "tiling (free_set fl \<union> A)"
    "k < 22 \<Longrightarrow> a \<in> set (fl k) \<Longrightarrow> buddy_of a k \<notin> set (fl k)"
  using assms by (auto simp: buddy_inv_def)

lemma buddy_inv_free:
  assumes i: "buddy_inv fl A" and a: "a \<in> set (fl k)"
  shows "wf_block (a, k)" "a \<in> set (fl j) \<Longrightarrow> j = k" "(a, j) \<notin> A"
proof -
  note t = buddy_invD(3) [OF i]
  show "wf_block (a, k)" using tilingD(1) [OF t, of "(a, k)"] a by simp
  show "j = k" if "a \<in> set (fl j)" using tiling_inj [OF t, of a j k] that a by simp
  show "(a, j) \<notin> A"
  proof
    assume A: "(a, j) \<in> A"
    then have "j = k" using tiling_inj [OF t, of a j k] a by simp
    with A buddy_invD(2) [OF i] a show False by (auto simp: disjoint_iff)
  qed
qed

lemma buddy_inv_live: "buddy_inv fl A \<Longrightarrow> b \<in> A \<Longrightarrow> wf_block b"
  using tilingD(1) [OF buddy_invD(3)] by blast

lemma buddy_inv_take:
  assumes i: "buddy_inv fl A" and s: "fl k = xs @ a # ys"
  shows "buddy_inv (fl(k := xs @ ys)) (insert (a, k) A)" "(a, k) \<notin> A"
proof -
  have d: "distinct (xs @ a # ys)" using buddy_invD(1) [OF i, of k] s by simp
  have f: "free_set (fl(k := xs @ ys)) = free_set fl - {(a, k)}"
    using s d by (auto simp: free_set_upd)
  have a: "(a, k) \<in> free_set fl" using s by simp
  show n: "(a, k) \<notin> A" using buddy_inv_free(3) [OF i] a by simp
  have "free_set (fl(k := xs @ ys)) \<union> insert (a, k) A = free_set fl \<union> A"
    unfolding f using a by blast
  then have t: "tiling (free_set (fl(k := xs @ ys)) \<union> insert (a, k) A)"
    using buddy_invD(3) [OF i] by simp
  have "free_set (fl(k := xs @ ys)) \<inter> insert (a, k) A = {}"
    unfolding f using buddy_invD(2) [OF i] by blast
  moreover have "buddy_of b j \<notin> set ((fl(k := xs @ ys)) j)"
    if "j < 22" "b \<in> set ((fl(k := xs @ ys)) j)" for b j
    using buddy_invD(4) [OF i, of j b] that s by (auto split: if_splits)
  moreover have "distinct ((fl(k := xs @ ys)) j)" for j
    using buddy_invD(1) [OF i] d by simp
  ultimately show "buddy_inv (fl(k := xs @ ys)) (insert (a, k) A)"
    unfolding buddy_inv_def using t by blast
qed

lemma buddy_of_buddy_of [simp]: "buddy_of (buddy_of a k) k = a"
  by (simp add: buddy_of_def xor.assoc)

lemma buddy_inv_give:
  assumes i: "buddy_inv fl (insert (a, k) A)" and n: "(a, k) \<notin> A"
    and b: "k < 22 \<Longrightarrow> buddy_of a k \<notin> set (fl k)"
  shows "buddy_inv (fl(k := a # fl k)) A"
proof -
  have d: "a \<notin> set (fl k)" using buddy_inv_free(3) [OF i, of a k k] by auto
  have f: "free_set (fl(k := a # fl k)) = insert (a, k) (free_set fl)"
    by (auto simp: free_set_upd)
  have "tiling (free_set (fl(k := a # fl k)) \<union> A)"
    unfolding f using buddy_invD(3) [OF i] by simp
  moreover have "free_set (fl(k := a # fl k)) \<inter> A = {}"
    unfolding f using buddy_invD(2) [OF i] n by blast
  moreover have "buddy_of c j \<notin> set ((fl(k := a # fl k)) j)"
    if "j < 22" "c \<in> set ((fl(k := a # fl k)) j)" for c j
  proof (cases "j = k")
    case True
    have self: "buddy_of a k \<noteq> a"
      using buddy_join(5) [of a k] buddy_inv_live [OF i, of "(a, k)"] that(1) True by simp
    have "buddy_of c k \<noteq> a" if "c \<in> set (fl k)"
      using b [of] that True \<open>j < 22\<close> by (metis buddy_of_buddy_of)
    then show ?thesis using True that b self buddy_invD(4) [OF i, of k c] by auto
  next
    case False
    then show ?thesis using that buddy_invD(4) [OF i, of j c] by simp
  qed
  ultimately show ?thesis
    unfolding buddy_inv_def using buddy_invD(1) [OF i] d by simp
qed

text \<open>Exchanging live blocks for others that cover the same bytes.\<close>

lemma buddy_inv_exchange:
  assumes i: "buddy_inv fl (X \<union> A)" and X: "X \<inter> A = {}" and Y: "\<And>y. y \<in> Y \<Longrightarrow> wf_block y"
    and d: "\<And>y z. y \<in> Y \<Longrightarrow> z \<in> Y \<Longrightarrow> y \<noteq> z \<Longrightarrow> blk y \<inter> blk z = {}"
    and U: "\<Union> (blk ` Y) = \<Union> (blk ` X)"
  shows "buddy_inv fl (Y \<union> A)" "Y \<inter> A = {}"
proof -
  let ?B = "free_set fl \<union> (X \<union> A)"
  have e: "?B - X = free_set fl \<union> A" using buddy_invD(2) [OF i] X by blast
  have "X \<subseteq> ?B" by blast
  note t = tiling_replace [OF buddy_invD(3) [OF i] this Y d U, unfolded e]
  from t(2) show "Y \<inter> A = {}" by blast
  have "free_set fl \<union> (Y \<union> A) = free_set fl \<union> A \<union> Y" by blast
  moreover have "free_set fl \<inter> (Y \<union> A) = {}" using t(2) buddy_invD(2) [OF i] by blast
  ultimately show "buddy_inv fl (Y \<union> A)"
    using i t(1) unfolding buddy_inv_def by simp
qed

lemma buddy_inv_halve:
  assumes i: "buddy_inv fl (insert (a, Suc k) A)" and n: "(a, Suc k) \<notin> A" and k: "4 \<le> k"
  shows "buddy_inv fl (insert (a + 2 ^ k, k) (insert (a, k) A))"
    "(a + 2 ^ k, k) \<notin> insert (a, k) A" "(a, k) \<notin> A" "buddy_of (a + 2 ^ k) k \<notin> set (fl k)"
proof -
  have w: "wf_block (a, Suc k)" using buddy_inv_live [OF i, of "(a, Suc k)"] by simp
  then have wk: "wf_block (a, k)" and k22: "k < 22" and d: "2 ^ Suc k dvd a"
    using k by (auto dest: dvd_mult_right)
  have b: "buddy_of a k = a + 2 ^ k" using buddy_arith [of k a] wk d by simp
  note j = buddy_join [OF wk k22, unfolded b]
  let ?Y = "{(a, k), (a + 2 ^ k, k)}"
  have U: "\<Union> (blk ` ?Y) = \<Union> (blk ` {(a, Suc k)})" using j(3) by simp
  have i': "buddy_inv fl ({(a, Suc k)} \<union> A)" "{(a, Suc k)} \<inter> A = {}" using i n by simp_all
  have wY: "wf_block y" if "y \<in> ?Y" for y using that wk j(1) by blast
  have dY: "blk y \<inter> blk z = {}" if "y \<in> ?Y" "z \<in> ?Y" "y \<noteq> z" for y z
    using that j(4) by (auto simp: Int_commute)
  note e = buddy_inv_exchange [OF i' wY dY U]
  from e(2) show "(a, k) \<notin> A" "(a + 2 ^ k, k) \<notin> insert (a, k) A" by simp_all
  have "?Y \<union> A = insert (a + 2 ^ k, k) (insert (a, k) A)" by blast
  with e(1) show i2: "buddy_inv fl (insert (a + 2 ^ k, k) (insert (a, k) A))" by simp
  show "buddy_of (a + 2 ^ k) k \<notin> set (fl k)"
    using buddy_inv_free(3) [OF i2, of a k k] buddy_of_buddy_of [of a k] b by auto
qed

lemma buddy_inv_join:
  assumes i: "buddy_inv fl (insert (a, k) A)" and n: "(a, k) \<notin> A" and k: "k < 22"
    and s: "fl k = xs @ buddy_of a k # ys"
  shows "buddy_inv (fl(k := xs @ ys)) (insert (min a (buddy_of a k), Suc k) A)"
    "(min a (buddy_of a k), Suc k) \<notin> A"
proof -
  have wk: "wf_block (a, k)" using buddy_inv_live [OF i, of "(a, k)"] by simp
  note j = buddy_join [OF wk k]
  let ?X = "{(buddy_of a k, k), (a, k)}"
  from buddy_inv_take [OF i s] n
  have i': "buddy_inv (fl(k := xs @ ys)) (?X \<union> A)" "?X \<inter> A = {}" by simp_all
  have "\<Union> (blk ` {(min a (buddy_of a k), Suc k)}) = \<Union> (blk ` ?X)" using j(3) by auto
  then show "buddy_inv (fl(k := xs @ ys)) (insert (min a (buddy_of a k), Suc k) A)"
    "(min a (buddy_of a k), Suc k) \<notin> A"
    using buddy_inv_exchange [OF i', of "{(min a (buddy_of a k), Suc k)}"] j(2) by simp_all
qed

section \<open>The store represents the free lists\<close>

text \<open>\<open>at s a\<close> is the address of offset \<open>a\<close>; \<open>fchain\<close> a null-terminated free list.\<close>

definition at :: "kmem \<Rightarrow> nat \<Rightarrow> u64" where
  "at s a = pool_base s + of_nat a"

primrec fchain :: "(u64 \<Rightarrow> u64) \<Rightarrow> u64 \<Rightarrow> u64 list \<Rightarrow> bool" where
  "fchain c p [] \<longleftrightarrow> p = 0"
| "fchain c p (x # xs) \<longleftrightarrow> p = x \<and> x \<noteq> 0 \<and> fchain c (c x) xs"

definition pool_ok :: "kmem \<Rightarrow> bool" where
  "pool_ok s \<longleftrightarrow> kmalloc_ready s \<and> pool_base s \<noteq> 0 \<and> unat (pool_base s) + POOL < 2 ^ 64 \<and>
     pool_end s = pool_base s + POOL_BYTES"

definition krep :: "kmem \<Rightarrow> (nat \<Rightarrow> nat list) \<Rightarrow> bool" where
  "krep s fl \<longleftrightarrow> pool_ok s \<and>
     (\<forall>k. 4 \<le> k \<longrightarrow> k \<le> 22 \<longrightarrow> fchain (cells s) (free_lists s (k - 4)) (map (at s) (fl k)))"

text \<open>\<open>s'\<close> differs from \<open>s\<close> in cells of the pool offsets \<open>Z\<close> and the list heads only.\<close>

definition changes :: "nat set \<Rightarrow> kmem \<Rightarrow> kmem \<Rightarrow> bool" where
  "changes Z s s' \<longleftrightarrow> pool_base s' = pool_base s \<and> pool_end s' = pool_end s \<and>
     kmalloc_ready s' = kmalloc_ready s \<and> (\<forall>w. w \<notin> at s ` Z \<longrightarrow> cells s' w = cells s w)"

lemma changes_refl [simp]: "changes Z s s"
  by (simp add: changes_def)

lemma changes_at: "changes Z s s' \<Longrightarrow> at s' = at s"
  by (auto simp: changes_def at_def)

lemma changes_mono: "changes Z s s' \<Longrightarrow> Z \<subseteq> Z' \<Longrightarrow> changes Z' s s'"
  unfolding changes_def by blast

lemma changes_trans: "changes Z s s' \<Longrightarrow> changes Z s' s'' \<Longrightarrow> changes Z s s''"
  using changes_at [of Z s s'] by (auto simp: changes_def)

lemma pool_ok_changes: "changes Z s s' \<Longrightarrow> pool_ok s \<Longrightarrow> pool_ok s'"
  unfolding changes_def pool_ok_def by (elim conjE) (simp only: simp_thms)

lemma unat_at: "pool_ok s \<Longrightarrow> a \<le> POOL \<Longrightarrow> unat (at s a) = unat (pool_base s) + a"
  by (simp add: at_def pool_ok_def unat_word_ariths unat_of_nat POOL_def)

lemma at_inj: "pool_ok s \<Longrightarrow> a < POOL \<Longrightarrow> b < POOL \<Longrightarrow> at s a = at s b \<longleftrightarrow> a = b"
  by (metis add_left_cancel less_imp_le unat_at)

lemma at_nonzero: "pool_ok s \<Longrightarrow> a < POOL \<Longrightarrow> at s a \<noteq> 0"
  using unat_at [of s a] by (auto simp: pool_ok_def unat_eq_zero)

lemma at_less: "pool_ok s \<Longrightarrow> a < POOL \<Longrightarrow> b < POOL \<Longrightarrow> at s a < at s b \<longleftrightarrow> a < b"
  by (simp add: word_less_nat_alt unat_at)

lemma at_add: "at s a + order_size k = at s (a + 2 ^ k)"
  by (simp add: at_def order_size_def push_bit_of_1)

lemma word_of_nat_xor: "(of_nat (a XOR b) :: 'a::len word) = of_nat a XOR of_nat b"
  by (rule bit_word_eqI) (simp add: bit_simps)

lemma at_buddy: "pool_base s + ((at s a - pool_base s) XOR order_size k) = at s (buddy_of a k)"
  by (simp add: at_def buddy_of_def word_of_nat_xor order_size_def push_bit_of_1)

lemma wf_block_bound: "wf_block (a, k) \<Longrightarrow> a < POOL"
  by (metis add.commute add_lessD1 linorder_not_less order_le_imp_less_or_eq wf_block.simps
      zero_less_power zero_less_numeral less_add_same_cancel1)

subsection \<open>Chains\<close>

lemma fchain_cong: "(\<And>x. x \<in> set xs \<Longrightarrow> c' x = c x) \<Longrightarrow> fchain c' p xs = fchain c p xs"
  by (induction xs arbitrary: p) auto

lemma fchain_upd [simp]: "a \<notin> set xs \<Longrightarrow> fchain (c(a := v)) p xs = fchain c p xs"
  by (rule fchain_cong) auto

lemma fchain_cut:
  assumes "fchain c p (xs @ b # ys)" "distinct (xs @ b # ys)" "xs \<noteq> []"
  shows "fchain (c(last xs := c b)) p (xs @ ys)"
  using assms
proof (induction xs arbitrary: p)
  case (Cons x xs)
  show ?case
  proof (cases "xs = []")
    case True
    then have "x \<notin> set ys" "fchain c (c b) ys" "p = x" "x \<noteq> 0" using Cons.prems by auto
    then show ?thesis unfolding True by (simp only: append.simps fchain.simps fchain_upd last.simps
        fun_upd_same if_True simp_thms)
  next
    case False
    then have "fchain (c(last xs := c b)) (c x) (xs @ ys)"
      by (intro Cons.IH) (use Cons.prems in auto)
    moreover have "last xs \<noteq> x" using False Cons.prems(2) by auto
    ultimately show ?thesis using False Cons.prems by (simp add: fun_upd_def)
  qed
qed simp

subsection \<open>Each step of the code is a move on the blocks\<close>

lemma krepD:
  assumes "krep s fl"
  shows "pool_ok s" "4 \<le> k \<Longrightarrow> k \<le> 22 \<Longrightarrow> fchain (cells s) (free_lists s (k - 4)) (map (at s) (fl k))"
  using assms by (simp_all add: krep_def)

text \<open>Rewriting one list, when the changed cells are on no other list.\<close>

lemma krep_update:
  assumes r: "krep s fl" and ch: "changes Z s s'"
    and k: "4 \<le> k" "k \<le> 22"
    and heads: "\<And>i. i \<noteq> k - 4 \<Longrightarrow> free_lists s' i = free_lists s i"
    and own: "fchain (cells s') (free_lists s' (k - 4)) (map (at s) xs)"
    and Z: "\<And>j a. j \<noteq> k \<Longrightarrow> a \<in> set (fl j) \<Longrightarrow> at s a \<notin> at s ` Z"
  shows "krep s' (fl(k := xs))"
proof -
  have "fchain (cells s') (free_lists s' (j - 4)) (map (at s) ((fl(k := xs)) j))"
    if j: "4 \<le> j" "j \<le> 22" for j
  proof (cases "j = k")
    case True
    then show ?thesis using own by simp
  next
    case False
    have "fchain (cells s') (free_lists s (j - 4)) (map (at s) (fl j))
          = fchain (cells s) (free_lists s (j - 4)) (map (at s) (fl j))"
      by (rule fchain_cong) (use Z [OF False] ch in \<open>auto simp: changes_def\<close>)
    moreover have "j - 4 \<noteq> k - 4" using False j k by simp
    ultimately show ?thesis using krepD(2) [OF r j] heads False by simp
  qed
  then show ?thesis
    using pool_ok_changes [OF ch krepD(1) [OF r]] by (simp add: krep_def changes_at [OF ch])
qed

lemma pop_block_empty: "krep s fl \<Longrightarrow> 4 \<le> k \<Longrightarrow> k \<le> 22 \<Longrightarrow> fl k = [] \<Longrightarrow> pop_block k s = (0, s)"
  using krepD(2) [of s fl k] by (simp add: pop_block_def order_index_def MIN_ORDER_def)

lemma pop_block_cons:
  assumes r: "krep s fl" and k: "4 \<le> k" "k \<le> 22" and a: "fl k = a # as"
  obtains s' where "pop_block k s = (at s a, s')" "krep s' (fl(k := as))" "changes {} s s'"
proof -
  let ?s' = "s\<lparr>free_lists := (free_lists s)(k - 4 := cells s (at s a))\<rparr>"
  have c: "free_lists s (k - 4) = at s a" "at s a \<noteq> 0" "fchain (cells s) (cells s (at s a)) (map (at s) as)"
    using krepD(2) [OF r k] a by simp_all
  have ch: "changes {} s ?s'" by (simp add: changes_def)
  have "krep ?s' (fl(k := as))"
    by (rule krep_update [OF r ch k]) (use c in auto)
  moreover have "pop_block k s = (at s a, ?s')"
    using c by (simp add: pop_block_def Let_def order_index_def MIN_ORDER_def)
  ultimately show thesis using ch that by blast
qed

lemma push_block_rep:
  assumes r: "krep s fl" and i: "buddy_inv fl (insert (a, k) A)" and n: "(a, k) \<notin> A"
    and b: "k < 22 \<Longrightarrow> buddy_of a k \<notin> set (fl k)"
  shows "krep (push_block k (at s a) s) (fl(k := a # fl k))"
    "buddy_inv (fl(k := a # fl k)) A" "changes {a} s (push_block k (at s a) s)"
proof -
  let ?s' = "push_block k (at s a) s"
  show "buddy_inv (fl(k := a # fl k)) A" by (rule buddy_inv_give [OF i n b])
  have w: "wf_block (a, k)" by (rule buddy_inv_live [OF i]) simp
  then have k: "4 \<le> k" "k \<le> 22" by simp_all
  note ab = wf_block_bound [OF w] and p = krepD(1) [OF r]
  show ch: "changes {a} s ?s'" by (auto simp: changes_def push_block_def Let_def)
  have off: "at s a \<noteq> at s b" if "b \<in> set (fl j)" for b j
  proof -
    have "b \<noteq> a" using buddy_inv_free(3) [OF i, of a j k] that by auto
    then show ?thesis using at_inj [OF p ab] wf_block_bound [OF buddy_inv_free(1) [OF i that]] by simp
  qed
  have "fchain ((cells s)(at s a := free_lists s (k - 4))) (free_lists s (k - 4)) (map (at s) (fl k))"
    using krepD(2) [OF r k] off by (subst fchain_upd) auto
  then have "fchain (cells ?s') (free_lists ?s' (k - 4)) (map (at s) (a # fl k))"
    using at_nonzero [OF p ab]
    by (simp add: push_block_def Let_def order_index_def MIN_ORDER_def)
  then show "krep ?s' (fl(k := a # fl k))"
    by (intro krep_update [OF r ch k])
      (use off [THEN not_sym] in \<open>auto simp: push_block_def Let_def order_index_def MIN_ORDER_def\<close>)
qed

text \<open>The bytes not covered by live blocks: the allocator may write there.\<close>

definition unused :: "block set \<Rightarrow> nat set" where
  "unused A = {0..<POOL} - \<Union> (blk ` A)"

lemma unused_live:
  assumes "buddy_inv fl (insert b A)" "b \<notin> A"
  shows "blk b \<subseteq> unused A"
proof -
  have t: "tiling (free_set fl \<union> insert b A)" by (rule buddy_invD(3) [OF assms(1)])
  have "blk b \<inter> blk c = {}" if "c \<in> A" for c
    by (rule tilingD(2) [OF t]) (use that assms(2) in auto)
  moreover have "blk b \<subseteq> {0..<POOL}" using tilingD(3) [OF t] by auto
  ultimately show ?thesis by (auto simp: unused_def)
qed

lemma blk_upper: "wf_block (a, Suc k) \<Longrightarrow> a \<in> blk (a, Suc k) \<and> a + 2 ^ k \<in> blk (a, Suc k)"
  by (simp add: blk.simps)

lemma split_down_rep:
  assumes "krep s fl" "buddy_inv fl (insert (a, cur) A)" "(a, cur) \<notin> A" "4 \<le> order" "order \<le> cur"
  shows "\<exists>fl'. krep (split_down order cur (at s a) s) fl' \<and>
           buddy_inv fl' (insert (a, order) A) \<and> (a, order) \<notin> A \<and>
           changes (unused A) s (split_down order cur (at s a) s)"
  using assms
proof (induction "cur - order" arbitrary: cur s fl)
  case 0
  then have "split_down order cur (at s a) s = s" "cur = order" by (simp_all add: split_down.simps)
  with 0 show ?case by auto
next
  case (Suc d)
  then obtain k where k: "cur = Suc k" "order \<le> k" "d = k - order" by (cases cur) auto
  let ?s = "push_block k (at s (a + 2 ^ k)) s"
  have i: "buddy_inv fl (insert (a, Suc k) A)" "(a, Suc k) \<notin> A" "4 \<le> k"
    using Suc.prems k by simp_all
  note h = buddy_inv_halve [OF i]
  note p = push_block_rep [OF Suc.prems(1) h(1,2,4)]
  have "wf_block (a, Suc k)" by (rule buddy_inv_live [OF i(1)]) simp
  then have "a + 2 ^ k \<in> unused A" using unused_live [OF i(1,2)] blk_upper by blast
  then have ch: "changes (unused A) s ?s" using changes_mono [OF p(3)] by simp
  have sp: "split_down order cur (at s a) s = split_down order k (at ?s a) ?s"
    using k by (subst split_down.simps) (simp add: at_add changes_at [OF ch])
  show ?case
    using Suc.hyps(1) [OF k(3) p(1,2) h(3) Suc.prems(4) k(2)] changes_trans [OF ch]
    unfolding sp by blast
qed

lemma acquire_from_rep:
  assumes "krep s fl" "buddy_inv fl A" "4 \<le> order" "order \<le> cur"
  shows "(\<exists>a s' fl'. acquire_from order cur s = (at s a, s') \<and> krep s' fl' \<and> a < POOL \<and>
            buddy_inv fl' (insert (a, order) A) \<and> (a, order) \<notin> A \<and> changes (unused A) s s') \<or>
         (acquire_from order cur s = (0, s) \<and> (\<forall>j. cur \<le> j \<longrightarrow> j \<le> 22 \<longrightarrow> fl j = []))"
  using assms
proof (induction "23 - cur" arbitrary: cur)
  case 0
  then show ?case by (subst acquire_from.simps) (simp add: MAX_ORDER_def)
next
  case (Suc d)
  then have cur: "cur \<le> 22" "4 \<le> cur" "d = 23 - Suc cur" by simp_all
  show ?case
  proof (cases "fl cur")
    case Nil
    have "acquire_from order cur s = acquire_from order (Suc cur) s"
      using pop_block_empty [OF Suc.prems(1) cur(2,1) Nil] cur
      by (subst acquire_from.simps) (simp add: MAX_ORDER_def)
    moreover have "(\<forall>j. cur \<le> j \<longrightarrow> j \<le> 22 \<longrightarrow> fl j = []) \<longleftrightarrow>
        (\<forall>j. Suc cur \<le> j \<longrightarrow> j \<le> 22 \<longrightarrow> fl j = [])"
      using Nil by (metis Suc_leI Suc_leD le_neq_implies_less)
    moreover have "order \<le> Suc cur" using Suc.prems(4) by simp
    ultimately show ?thesis
      using Suc.hyps(1) [OF cur(3) Suc.prems(1-3)] by simp
  next
    case (Cons a as)
    obtain s1 where s1: "pop_block cur s = (at s a, s1)" "krep s1 (fl(cur := as))" "changes {} s s1"
      by (rule pop_block_cons [OF Suc.prems(1) cur(2,1) Cons])
    have t: "buddy_inv (fl(cur := as)) (insert (a, cur) A)" "(a, cur) \<notin> A"
      using buddy_inv_take [OF Suc.prems(2), of cur "[]" a as] Cons by simp_all
    have "wf_block (a, cur)" by (rule buddy_inv_live [OF t(1)]) simp
    then have ab: "a < POOL" by (rule wf_block_bound)
    have nz: "at s a \<noteq> 0" by (rule at_nonzero [OF krepD(1) [OF Suc.prems(1)] ab])
    have at1: "at s1 = at s" by (rule changes_at [OF s1(3)])
    have eq: "acquire_from order cur s = (at s a, split_down order cur (at s1 a) s1)"
      using s1(1) nz cur by (subst acquire_from.simps) (simp add: MAX_ORDER_def at1)
    obtain fl' where "krep (split_down order cur (at s1 a) s1) fl'"
      "buddy_inv fl' (insert (a, order) A)" "(a, order) \<notin> A"
      "changes (unused A) s1 (split_down order cur (at s1 a) s1)"
      using split_down_rep [OF s1(2) t Suc.prems(3,4)] by blast
    then show ?thesis
      using changes_trans [OF changes_mono [OF s1(3)]] ab eq by blast
  qed
qed

lemma free_unused:
  assumes i: "buddy_inv fl A" and a: "a \<in> set (fl k)"
  shows "a \<in> unused A"
proof -
  note t = buddy_invD(3) [OF i]
  have "blk (a, k) \<inter> blk c = {}" if "c \<in> A" for c
    by (rule tilingD(2) [OF t]) (use that a buddy_inv_free(3) [OF i a] in auto)
  then have "a \<notin> blk c" if "c \<in> A" for c using that blk_start [of a k] by blast
  then show ?thesis
    using wf_block_bound [OF buddy_inv_free(1) [OF i a]] by (auto simp: unused_def)
qed

text \<open>\<open>prev\<close> is the link that follows the part \<open>xs\<close> of the list already passed.\<close>

definition link_after :: "kmem \<Rightarrow> nat \<Rightarrow> nat list \<Rightarrow> link" where
  "link_after s k xs = (if xs = [] then ListHead (k - 4) else NextOf (at s (last xs)))"

lemma write_link_rep:
  assumes r: "krep s fl" and i: "buddy_inv fl A" and k: "4 \<le> k" "k \<le> 22"
    and f: "fl k = xs @ b # zs"
  defines "s' \<equiv> write_link (link_after s k xs) (cells s (at s b)) s"
  shows "krep s' (fl(k := xs @ zs))" "changes (set (fl k)) s s'"
proof -
  note c = krepD(2) [OF r k]
  show ch: "changes (set (fl k)) s s'"
    unfolding s'_def link_after_def changes_def using f by (cases xs rule: rev_cases) auto
  have inj: "inj_on (at s) (set (fl k))"
    using at_inj [OF krepD(1) [OF r]] wf_block_bound [OF buddy_inv_free(1) [OF i]]
    by (intro inj_onI) blast
  have own: "fchain (cells s') (free_lists s' (k - 4)) (map (at s) (xs @ zs))"
  proof (cases "xs = []")
    case True
    then show ?thesis using c f unfolding s'_def link_after_def by simp
  next
    case False
    have "distinct (map (at s) (xs @ b # zs))"
      unfolding f [symmetric] using inj buddy_invD(1) [OF i, of k] by (simp add: distinct_map)
    then have "fchain ((cells s)(last (map (at s) xs) := cells s (at s b))) (free_lists s (k - 4))
        (map (at s) xs @ map (at s) zs)"
      using c f False by (intro fchain_cut) simp_all
    then show ?thesis using False unfolding s'_def link_after_def by (simp add: last_map)
  qed
  have off: "at s a \<notin> at s ` set (fl k)" if "j \<noteq> k" "a \<in> set (fl j)" for j a
  proof
    assume "at s a \<in> at s ` set (fl k)"
    then obtain a' where a': "a' \<in> set (fl k)" "at s a = at s a'" by blast
    then have "a = a'"
      using at_inj [OF krepD(1) [OF r]] wf_block_bound [OF buddy_inv_free(1) [OF i]] that(2) by metis
    then show False using buddy_inv_free(2) [OF i a'(1), of j] that a' by simp
  qed
  show "krep s' (fl(k := xs @ zs))"
    by (rule krep_update [OF r ch k _ own off])
      (auto simp: s'_def link_after_def)
qed

lemma unlink_buddy_rep:
  assumes r: "krep s fl" and i: "buddy_inv fl A" and k: "4 \<le> k" "k \<le> 22" and b: "b < POOL"
    and f: "fl k = xs @ ys" and c: "fchain (cells s) cur (map (at s) ys)"
  shows "(b \<notin> set ys \<and> unlink_buddy (at s b) (link_after s k xs) cur s = Some (False, s)) \<or>
         (\<exists>us vs s'. ys = us @ b # vs \<and>
            unlink_buddy (at s b) (link_after s k xs) cur s = Some (True, s') \<and>
            krep s' (fl(k := xs @ us @ vs)) \<and> changes (set (fl k)) s s')"
  using f c
proof (induction ys arbitrary: xs cur)
  case Nil
  then show ?case by (subst unlink_buddy.simps) simp
next
  case (Cons y ys)
  have cur: "cur = at s y" "at s y \<noteq> 0" "fchain (cells s) (cells s (at s y)) (map (at s) ys)"
    using Cons.prems by simp_all
  have "y \<in> set (fl k)" using Cons.prems by simp
  then have eq: "at s y = at s b \<longleftrightarrow> y = b"
    using at_inj [OF krepD(1) [OF r] _ b] wf_block_bound [OF buddy_inv_free(1) [OF i]] by blast
  show ?case
  proof (cases "y = b")
    case True
    then have "unlink_buddy (at s b) (link_after s k xs) cur s
        = Some (True, write_link (link_after s k xs) (cells s (at s b)) s)"
      using cur by (subst unlink_buddy.simps) simp
    moreover note write_link_rep [OF r i k, of xs b ys]
    ultimately show ?thesis
      using Cons.prems(1) True by (metis append_Nil)
  next
    case False
    have step: "unlink_buddy (at s b) (link_after s k xs) cur s
        = unlink_buddy (at s b) (link_after s k (xs @ [y])) (cells s (at s y)) s"
      using cur eq False by (subst unlink_buddy.simps) (simp add: link_after_def)
    have "fl k = (xs @ [y]) @ ys" using Cons.prems(1) by simp
    from Cons.IH [OF this cur(3)] show ?thesis
      unfolding step
    proof (elim disjE exE conjE)
      fix us vs s'
      assume "ys = us @ b # vs"
        "unlink_buddy (at s b) (link_after s k (xs @ [y])) (cells s (at s y)) s = Some (True, s')"
        "krep s' (fl(k := (xs @ [y]) @ us @ vs))" "changes (set (fl k)) s s'"
      then show "(b \<notin> set (y # ys) \<and>
          unlink_buddy (at s b) (link_after s k (xs @ [y])) (cells s (at s y)) s = Some (False, s)) \<or>
         (\<exists>us vs s'. y # ys = us @ b # vs \<and>
            unlink_buddy (at s b) (link_after s k (xs @ [y])) (cells s (at s y)) s = Some (True, s') \<and>
            krep s' (fl(k := xs @ us @ vs)) \<and> changes (set (fl k)) s s')"
        by (intro disjI2 exI [of _ "y # us"] exI [of _ vs] exI [of _ s']) simp
    qed (use False in simp)
  qed
qed

lemma merge_block_rep:
  assumes "krep s fl" "buddy_inv fl (insert (a, k) A)" "(a, k) \<notin> A"
  shows "\<exists>s' fl'. merge_block (at s a) k s = Some s' \<and> krep s' fl' \<and> buddy_inv fl' A \<and>
           changes (unused A) s s'"
  using assms
proof (induction "22 - k" arbitrary: a k s fl)
  case 0
  have w: "wf_block (a, k)" by (rule buddy_inv_live [OF 0(3)]) simp
  with 0(1) have "k = 22" by simp
  have "{a} \<subseteq> unused A" using unused_live [OF 0(3,4)] blk_start by blast
  with push_block_rep [OF 0(2-4)] \<open>k = 22\<close>
  have "krep (push_block k (at s a) s) (fl(k := a # fl k))" "buddy_inv (fl(k := a # fl k)) A"
    "changes (unused A) s (push_block k (at s a) s)" by (auto intro: changes_mono)
  then show ?case using \<open>k = 22\<close> by (subst merge_block.simps) (auto simp: MAX_ORDER_def)
next
  case (Suc d)
  have w: "wf_block (a, k)" by (rule buddy_inv_live [OF Suc.prems(2)]) simp
  then have k: "4 \<le> k" "k \<le> 22" "k < 22" "d = 22 - Suc k" and ab: "a < POOL"
    using Suc.hyps(2) wf_block_bound by auto
  let ?b = "buddy_of a k"
  have wb: "wf_block (?b, k)" using buddy_join(1) [OF w k(3)] .
  then have bb: "?b < POOL" by (rule wf_block_bound)
  have own: "a \<in> unused A" using unused_live [OF Suc.prems(2,3)] blk_start by blast
  note u = unlink_buddy_rep [OF Suc.prems(1,2) k(1,2) bb, of "[]" "fl k" "free_lists s (k - 4)",
      simplified link_after_def, simplified, OF krepD(2) [OF Suc.prems(1) k(1,2)]]
  have un: "merge_block (at s a) k s =
      (case unlink_buddy (at s ?b) (ListHead (k - 4)) (free_lists s (k - 4)) s of
         None \<Rightarrow> None
       | Some (found, s') \<Rightarrow> if \<not> found then Some (push_block k (at s a) s')
                         else merge_block (if at s ?b < at s a then at s ?b else at s a) (k + 1) s')"
    by (subst merge_block.simps, unfold Let_def at_buddy order_index_def MIN_ORDER_def MAX_ORDER_def)
      (use k(3) in simp)
  from u show ?case
  proof (elim disjE exE conjE)
    assume "?b \<notin> set (fl k)"
      and "unlink_buddy (at s ?b) (ListHead (k - 4)) (free_lists s (k - 4)) s = Some (False, s)"
    with push_block_rep [OF Suc.prems] own show ?thesis
      by (auto simp: un intro!: exI intro: changes_mono)
  next
    fix us vs s'
    assume f: "fl k = us @ ?b # vs"
      and e: "unlink_buddy (at s ?b) (ListHead (k - 4)) (free_lists s (k - 4)) s = Some (True, s')"
      and r': "krep s' (fl(k := us @ vs))" and ch: "changes (set (fl k)) s s'"
    note j = buddy_inv_join [OF Suc.prems(2,3) k(3) f]
    have "set (fl k) \<subseteq> unused A" using free_unused [OF Suc.prems(2)] by (auto simp: unused_def)
    then have ch': "changes (unused A) s s'" by (rule changes_mono [OF ch])
    have "(if at s ?b < at s a then at s ?b else at s a) = at s' (min a ?b)"
      using at_less [OF krepD(1) [OF Suc.prems(1)] bb ab]
      by (simp add: changes_at [OF ch] min_def)
    then have "merge_block (at s a) k s = merge_block (at s' (min a ?b)) (Suc k) s'"
      using e by (simp add: un)
    with Suc.hyps(1) [OF k(4) r' j] changes_trans [OF ch'] show ?thesis by auto
  qed
qed

subsection \<open>Headers\<close>

lemma header_simps [simp]:
  "header_order (block_header ord magic) = ord" "header_magic (block_header ord magic) = magic"
  by (rule bit_word_eqI; auto simp: block_header_def header_order_def header_magic_def bit_simps
      dest: bit_imp_le_length)+

definition kmalloc_inv :: "kmem \<Rightarrow> block set \<Rightarrow> bool" where
  "kmalloc_inv s A \<longleftrightarrow> (\<exists>fl. krep s fl \<and> buddy_inv fl A) \<and>
     (\<forall>(a, k)\<in>A. cells s (at s a) = block_header (of_nat k) HEADER_MAGIC)"

lemma headers_frame:
  assumes ch: "changes (unused A) s s'" and p: "pool_ok s" and i: "buddy_inv fl A" and a: "(a, k) \<in> A"
  shows "cells s' (at s a) = cells s (at s a)"
proof -
  have "at s a \<notin> at s ` unused A"
  proof
    assume "at s a \<in> at s ` unused A"
    then obtain x where x: "x \<in> unused A" "at s a = at s x" by blast
    then have "x < POOL" "a < POOL"
      using wf_block_bound [OF buddy_inv_live [OF i a]] by (simp_all add: unused_def)
    then have "x = a" using at_inj [OF p] x(2) by simp
    with x(1) a blk_start [of a k] show False by (auto simp: unused_def)
  qed
  with ch show ?thesis by (simp add: changes_def)
qed

subsection \<open>No fragmentation: an unused aligned region is found\<close>

lemma blk_nested:
  assumes "2 ^ j dvd a" "2 ^ k dvd b" "j \<le> k" "blk (a, j) \<inter> blk (b, k) \<noteq> {}"
  shows "blk (a, j) \<subseteq> blk (b, k)"
proof -
  obtain x where x: "a = 2 ^ j * x" using assms(1) by (rule dvdE)
  have "(2::nat) ^ j dvd b" using assms(2,3) power_le_dvd by blast
  then obtain y where y: "b = 2 ^ j * y" by (rule dvdE)
  define m where "m = (2::nat) ^ (k - j)"
  have k: "(2::nat) ^ k = 2 ^ j * m" using assms(3) by (simp add: m_def flip: power_add)
  obtain p where "p \<in> blk (a, j)" "p \<in> blk (b, k)" using assms(4) by blast
  then have "2 ^ j * x \<le> p" "p < 2 ^ j * Suc x" "2 ^ j * y \<le> p" "p < 2 ^ j * (y + m)"
    unfolding blk.simps k unfolding x y by (auto simp: algebra_simps)
  then have "2 ^ j * x < 2 ^ j * (y + m)" "2 ^ j * y < 2 ^ j * Suc x" by linarith+
  then have "x < y + m" "y < Suc x" by (simp_all only: nat_mult_less_cancel1 zero_less_power zero_less_numeral)
  then have "2 ^ j * y \<le> 2 ^ j * x" "2 ^ j * Suc x \<le> 2 ^ j * (y + m)" by (intro mult_le_mono2, simp)+
  then show ?thesis unfolding blk.simps k unfolding x y by (auto simp: algebra_simps)
qed

lemma free_tile_covers:
  assumes i: "buddy_inv fl A" and x: "x \<in> unused A"
  obtains b j where "b \<in> set (fl j)" "x \<in> blk (b, j)"
proof -
  have "x \<in> \<Union> (blk ` (free_set fl \<union> A))"
    using tilingD(3) [OF buddy_invD(3) [OF i]] x by (simp add: unused_def)
  then obtain t where "t \<in> free_set fl \<union> A" "x \<in> blk t" by blast
  moreover then have "t \<notin> A" using x by (auto simp: unused_def)
  ultimately show thesis using that [of "fst t" "snd t"] by (cases t) auto
qed

lemma unused_region_on_list:
  assumes i: "buddy_inv fl A" and w: "wf_block (a, k)" and u: "blk (a, k) \<subseteq> unused A"
  shows "\<exists>j. k \<le> j \<and> j \<le> 22 \<and> fl j \<noteq> []"
proof (rule ccontr)
  assume none: "\<not> ?thesis"
  define P where "P j \<longleftrightarrow> (\<exists>b\<in>set (fl j). blk (b, j) \<inter> blk (a, k) \<noteq> {})" for j
  have small: "j < k" if "b \<in> set (fl j)" for b j
    using none buddy_inv_free(1) [OF i that] that by (auto simp: not_le [symmetric])
  obtain b0 j0 where "b0 \<in> set (fl j0)" "a \<in> blk (b0, j0)"
    using free_tile_covers [OF i] u blk_start by blast
  then have "P j0" unfolding P_def using blk_start [of a k] by blast
  define j where "j = (LEAST j. P j)"
  have "P j" and least: "\<And>i. P i \<Longrightarrow> j \<le> i"
    unfolding j_def using \<open>P j0\<close> by (auto intro: LeastI Least_le)
  then obtain b where b: "b \<in> set (fl j)" "blk (b, j) \<inter> blk (a, k) \<noteq> {}" by (auto simp: P_def)
  have jk: "j < k" by (rule small [OF b(1)])
  have wb: "wf_block (b, j)" by (rule buddy_inv_free(1) [OF i b(1)])
  then have j22: "j < 22" using jk w by simp
  let ?c = "buddy_of b j" and ?m = "min b (buddy_of b j)"
  note bj = buddy_join [OF wb j22]
  have "blk (?m, Suc j) \<subseteq> blk (a, k)"
    using blk_nested [of "Suc j" ?m k a] bj(2,3) b(2) w jk by auto
  then have "?c \<in> blk (a, k)" using bj(3) blk_start by blast
  then obtain d l where t: "d \<in> set (fl l)" "?c \<in> blk (d, l)"
    using free_tile_covers [OF i] u by blast
  then have "P l" using \<open>?c \<in> blk (a, k)\<close> by (auto simp: P_def)
  then have jl: "j \<le> l" by (rule least)
  have wd: "wf_block (d, l)" by (rule buddy_inv_free(1) [OF i t(1)])
  show False
  proof (cases "l = j")
    case True
    have "blk (?c, j) \<inter> blk (d, j) \<noteq> {}" using t(2) blk_start [of ?c j] True by blast
    then have "blk (?c, j) \<subseteq> blk (d, j)" "blk (d, j) \<subseteq> blk (?c, j)"
      using blk_nested [of j ?c j d] blk_nested [of j d j ?c] wd bj(1) True
      by (simp_all add: Int_commute)
    then have "?c = d" by (auto simp: blk.simps atLeastLessThan_eq_iff)
    then show False using buddy_invD(4) [OF i j22 b(1)] t(1) True by simp
  next
    case False
    then have "Suc j \<le> l" using jl by simp
    moreover have "blk (?m, Suc j) \<inter> blk (d, l) \<noteq> {}" using bj(3) t(2) blk_start [of ?c j] by blast
    ultimately have "blk (?m, Suc j) \<subseteq> blk (d, l)"
      using blk_nested [of "Suc j" ?m l d] wd bj(2) by simp
    then have "b \<in> blk (d, l)" using bj(3) blk_start by blast
    moreover have "blk (b, j) \<inter> blk (d, l) = {}"
      by (rule tilingD(2) [OF buddy_invD(3) [OF i]]) (use b(1) t(1) False in auto)
    ultimately show False using blk_start by blast
  qed
qed

section \<open>Allocation and release\<close>

lemma order_for_spec:
  assumes "order \<le> 23" "\<And>j. MIN_ORDER \<le> j \<Longrightarrow> j < order \<Longrightarrow> order_size j < n"
  shows "order \<le> order_for order n \<and> order_for order n \<le> 23 \<and>
    (order_for order n \<le> 22 \<longrightarrow> n \<le> order_size (order_for order n)) \<and>
    (\<forall>j. MIN_ORDER \<le> j \<longrightarrow> j < order_for order n \<longrightarrow> order_size j < n)"
  using assms
proof (induction order n rule: order_for.induct)
  case (1 order n)
  show ?case
  proof (cases "order \<le> MAX_ORDER \<and> order_size order < n")
    case True
    have "order_size j < n" if "MIN_ORDER \<le> j" "j < order + 1" for j
      using 1(3) [OF that(1)] that True by (cases "j = order") auto
    moreover have "order + 1 \<le> 23" using True by (simp add: MAX_ORDER_def)
    ultimately have "order + 1 \<le> order_for (order + 1) n \<and> order_for (order + 1) n \<le> 23 \<and>
        (order_for (order + 1) n \<le> 22 \<longrightarrow> n \<le> order_size (order_for (order + 1) n)) \<and>
        (\<forall>j. MIN_ORDER \<le> j \<longrightarrow> j < order_for (order + 1) n \<longrightarrow> order_size j < n)"
      using 1(1) [OF True] by blast
    moreover have "order_for order n = order_for (order + 1) n"
      using True by (subst order_for.simps) simp
    ultimately show ?thesis by simp
  next
    case False
    then have "order_for order n = order" by (subst order_for.simps) auto
    with 1(2,3) False show ?thesis by (simp add: MAX_ORDER_def not_less)
  qed
qed

lemma unat_order_size:
  assumes "k < 64"
  shows "unat (order_size k) = 2 ^ k"
proof -
  have "order_size k = of_nat (2 ^ k)" by (simp add: order_size_def push_bit_of_1)
  moreover have "(2::nat) ^ k < 2 ^ LENGTH(64)"
    using assms by (intro power_strict_increasing) simp_all
  ultimately show ?thesis by (metis unat_of_nat_lt)
qed

lemma request_order:
  assumes "unat sz + 8 < 2 ^ 64"
  defines "n \<equiv> (if sz + 8 < MIN_BLOCK_SIZE then MIN_BLOCK_SIZE else sz + 8)"
  defines "k \<equiv> order_for MIN_ORDER n"
  shows "4 \<le> k" "k \<le> 22 \<Longrightarrow> unat sz + 8 \<le> 2 ^ k"
    "\<And>j. 4 \<le> j \<Longrightarrow> j \<le> 22 \<Longrightarrow> unat sz + 8 \<le> 2 ^ j \<Longrightarrow> k \<le> j"
proof -
  have k: "4 \<le> k" "k \<le> 22 \<longrightarrow> n \<le> order_size k" "\<forall>j. 4 \<le> j \<longrightarrow> j < k \<longrightarrow> order_size j < n"
    using order_for_spec [of MIN_ORDER n] unfolding k_def by (auto simp: MIN_ORDER_def)
  have t: "unat (sz + 8) = unat sz + 8" using assms(1) by (simp add: unat_word_ariths)
  have n: "unat n = max 16 (unat sz + 8)"
    unfolding n_def MIN_BLOCK_SIZE_def MIN_ORDER_def using t
    by (auto simp: word_less_nat_alt max_def push_bit_of_1 not_less)
  show "4 \<le> k" by (rule k(1))
  show "unat sz + 8 \<le> 2 ^ k" if "k \<le> 22"
    using k(2) that n by (simp add: word_le_nat_alt unat_order_size)
  show "k \<le> j" if j: "4 \<le> j" "j \<le> 22" "unat sz + 8 \<le> 2 ^ j" for j
  proof (rule ccontr)
    assume "\<not> k \<le> j"
    then have "order_size j < n" using k(3) j(1) by simp
    then have "2 ^ j < unat n" using j(2) by (simp add: word_less_nat_alt unat_order_size)
    moreover have "(16::nat) \<le> 2 ^ j" using power_increasing [OF j(1), of "2::nat"] by simp
    ultimately show False using n j(3) by simp
  qed
qed

lemma kmalloc_inv_ready: "kmalloc_inv s A \<Longrightarrow> kmalloc_ready s"
  by (auto simp: kmalloc_inv_def krep_def pool_ok_def)

lemma headers_set:
  assumes r: "krep s fl" and i: "buddy_inv fl (insert (a, k) A)" and n: "(a, k) \<notin> A"
    and h: "\<And>b j. (b, j) \<in> A \<Longrightarrow> cells s (at s b) = block_header (of_nat j) HEADER_MAGIC"
  defines "s' \<equiv> s\<lparr>cells := (cells s)(at s a := block_header (of_nat k) HEADER_MAGIC)\<rparr>"
  shows "kmalloc_inv s' (insert (a, k) A)"
proof -
  have ab: "a < POOL" using wf_block_bound [OF buddy_inv_live [OF i, of "(a, k)"]] by simp
  have ch: "changes {a} s s'" by (simp add: changes_def s'_def)
  have off: "at s b \<noteq> at s a" if "(b, j) \<in> free_set fl \<union> A" for b j
  proof -
    note t = buddy_invD(3) [OF i]
    have "(b, j) \<noteq> (a, k)" using that n buddy_invD(2) [OF i] by blast
    then have "b \<noteq> a" using tiling_inj [OF t, of a j k] that by blast
    moreover have "b < POOL" using wf_block_bound [OF tilingD(1) [OF t, of "(b, j)"]] that by blast
    ultimately show ?thesis using at_inj [OF krepD(1) [OF r] _ ab] by blast
  qed
  have k: "4 \<le> k" "k \<le> 22" using buddy_inv_live [OF i, of "(a, k)"] by simp_all
  have eq: "fchain (cells s') (free_lists s' (j - 4)) (map (at s) (fl j))
      = fchain (cells s) (free_lists s (j - 4)) (map (at s) (fl j))" for j
    unfolding s'_def by (simp, rule fchain_cong) (use off in auto)
  have "krep s' fl"
    using r pool_ok_changes [OF ch krepD(1) [OF r]] eq by (simp add: krep_def changes_at [OF ch])
  moreover have "cells s' (at s b) = block_header (of_nat j) HEADER_MAGIC"
    if "(b, j) \<in> insert (a, k) A" for b j
    using that h [of b j] off [of b j] unfolding s'_def by auto
  ultimately show "kmalloc_inv s' (insert (a, k) A)"
    using i unfolding kmalloc_inv_def changes_at [OF ch] by blast
qed

text \<open>Writing the header of the block that \<open>acquire_from\<close> took makes it a live block.\<close>

lemma acquired_header:
  assumes inv: "kmalloc_inv s A" and i: "buddy_inv fl A" and r1: "krep s1 fl'"
    and i1: "buddy_inv fl' (insert (a, k) A)" and n1: "(a, k) \<notin> A" and ch: "changes (unused A) s s1"
    and s': "s' = s1\<lparr>cells := (cells s1)(at s1 a := block_header (of_nat k) HEADER_MAGIC)\<rparr>"
  shows "kmalloc_inv s' (insert (a, k) A)" "changes (unused A) s s'" "blk (a, k) \<subseteq> unused A"
    "wf_block (a, k)"
proof -
  have h: "cells s (at s b) = block_header (of_nat j) HEADER_MAGIC" if "(b, j) \<in> A" for b j
    using inv that by (auto simp: kmalloc_inv_def)
  have p: "pool_ok s" using inv by (auto simp: kmalloc_inv_def dest: krepD(1))
  have h1: "cells s1 (at s1 b) = block_header (of_nat j) HEADER_MAGIC" if "(b, j) \<in> A" for b j
    using headers_frame [OF ch p i that] h [OF that] changes_at [OF ch] by simp
  show "kmalloc_inv s' (insert (a, k) A)" unfolding s' by (rule headers_set [OF r1 i1 n1 h1])
  show sub: "blk (a, k) \<subseteq> unused A" by (rule unused_live [OF i1 n1])
  have "changes {a} s1 s'" by (simp add: changes_def s')
  moreover have "{a} \<subseteq> unused A" using sub blk_start by blast
  ultimately have "changes (unused A) s1 s'" by (rule changes_mono)
  then show "changes (unused A) s s'" by (rule changes_trans [OF ch])
  show "wf_block (a, k)" by (rule buddy_inv_live [OF i1]) simp
qed

text \<open>
  C9. \<open>kmalloc\<close> on an initialised pool, for any request whose size plus header does not
  wrap: it returns; either the result is a block that lies in the pool, is large enough,
  and is disjoint from every live block, the invariant holds with that block live and only
  bytes of unused blocks were written; or the result is \<open>NULL\<close>, nothing has changed,
  and no aligned power-of-two region that could hold the request is unused.
\<close>

theorem kmalloc_correct:
  assumes inv: "kmalloc_inv s A" and sz: "0 < unat sz" "unat sz + 8 < 2 ^ 64"
  shows "(\<exists>a k s'. kmalloc frames sz s = Some (at s a + 8, s') \<and> unat sz + 8 \<le> 2 ^ k \<and>
            wf_block (a, k) \<and> blk (a, k) \<subseteq> unused A \<and>
            kmalloc_inv s' (insert (a, k) A) \<and> changes (unused A) s s') \<or>
         (kmalloc frames sz s = Some (0, s) \<and>
            (\<forall>a k. wf_block (a, k) \<longrightarrow> unat sz + 8 \<le> 2 ^ k \<longrightarrow> \<not> blk (a, k) \<subseteq> unused A))"
proof -
  obtain fl where r: "krep s fl" and i: "buddy_inv fl A" using inv by (auto simp: kmalloc_inv_def)
  define n where "n = (if sz + 8 < MIN_BLOCK_SIZE then MIN_BLOCK_SIZE else sz + 8)"
  define k where "k = order_for MIN_ORDER n"
  note k = request_order [OF sz(2), folded n_def, folded k_def]
  have sz0: "sz \<noteq> 0" using sz(1) by auto
  have none: "\<forall>a j. wf_block (a, j) \<longrightarrow> unat sz + 8 \<le> 2 ^ j \<longrightarrow> \<not> blk (a, j) \<subseteq> unused A"
    if "\<forall>j. k \<le> j \<longrightarrow> j \<le> 22 \<longrightarrow> fl j = []"
  proof (intro allI impI notI)
    fix a j assume j: "wf_block (a, j)" "unat sz + 8 \<le> 2 ^ j" "blk (a, j) \<subseteq> unused A"
    then have "k \<le> j" using k(3) [of j] by simp
    then show False using unused_region_on_list [OF i j(1,3)] that by (meson le_trans)
  qed
  show ?thesis
  proof (cases "k \<le> 22")
    case False
    then have "kmalloc frames sz s = Some (0, s)"
      using kmalloc_inv_ready [OF inv] sz0
      by (simp add: kmalloc_def Let_def MAX_ORDER_def flip: n_def k_def)
    moreover have "\<forall>j. k \<le> j \<longrightarrow> j \<le> 22 \<longrightarrow> fl j = []" using False by auto
    ultimately show ?thesis using none by blast
  next
    case True
    from acquire_from_rep [OF r i k(1) order.refl] show ?thesis
    proof (elim disjE exE conjE)
      fix a s1 fl'
      assume e: "acquire_from k k s = (at s a, s1)" and r1: "krep s1 fl'" and ab: "a < POOL"
        and i1: "buddy_inv fl' (insert (a, k) A)" and n1: "(a, k) \<notin> A"
        and ch: "changes (unused A) s s1"
      note hd = acquired_header [OF inv i r1 i1 n1 ch refl]
      have "at s a \<noteq> 0" by (rule at_nonzero [OF krepD(1) [OF r] ab])
      then have "kmalloc frames sz s = Some (at s a + 8,
          s1\<lparr>cells := (cells s1)(at s1 a := block_header (of_nat k) HEADER_MAGIC)\<rparr>)"
        using kmalloc_inv_ready [OF inv] sz0 True e
        by (simp add: kmalloc_def Let_def MAX_ORDER_def acquire_block_def changes_at [OF ch]
            flip: n_def k_def)
      then show ?thesis using hd k(2) [OF True] by blast
    next
      assume "acquire_from k k s = (0, s)" and e: "\<forall>j. k \<le> j \<longrightarrow> j \<le> 22 \<longrightarrow> fl j = []"
      then have "kmalloc frames sz s = Some (0, s)"
        using kmalloc_inv_ready [OF inv] sz0 True
        by (simp add: kmalloc_def Let_def MAX_ORDER_def acquire_block_def flip: n_def k_def)
      then show ?thesis using none [OF e] by blast
    qed
  qed
qed

text \<open>The state right after \<open>init_kmalloc\<close>, from zeroed memory.\<close>

definition fresh_kmem :: "u64 \<Rightarrow> kmem" where
  "fresh_kmem base =
     \<lparr>cells = (\<lambda>_. 0), free_lists = (\<lambda>_. 0)(18 := base), pool_base = base,
      pool_end = base + POOL_BYTES, kmalloc_ready = True\<rparr>"

lemma buddy_inv_fresh: "buddy_inv ((\<lambda>_. [])(22 := [0])) {}"
proof -
  have "free_set ((\<lambda>_. [])(22 := [0])) = {(0, 22)}" by (auto simp: free_set_def split: if_splits)
  then show ?thesis by (simp add: buddy_inv_def tiling_def blk.simps POOL_def)
qed

lemma kmalloc_inv_init:
  assumes "frames \<noteq> 0" "unat frames + POOL < 2 ^ 64"
  obtains s' where "init_kmalloc frames s = Some s'" "kmalloc_inv s' {}" "pool_base s' = frames"
proof -
  let ?s = "s\<lparr>pool_base := frames, pool_end := frames + POOL_BYTES, free_lists := (\<lambda>_. 0)(18 := frames),
    cells := (cells s)(frames := 0), kmalloc_ready := True\<rparr>"
  have "init_kmalloc frames s = Some ?s"
    using assms by (simp add: init_kmalloc_def push_block_def Let_def order_index_def
        MAX_ORDER_def MIN_ORDER_def)
  moreover have "krep ?s ((\<lambda>_. [])(22 := [0]))"
    using assms by (auto simp: krep_def pool_ok_def at_def)
  then have "kmalloc_inv ?s {}" using buddy_inv_fresh by (auto simp: kmalloc_inv_def)
  ultimately show thesis using that by simp
qed

lemma kmalloc_inv_fresh: "base \<noteq> 0 \<Longrightarrow> unat base + POOL < 2 ^ 64 \<Longrightarrow> kmalloc_inv (fresh_kmem base) {}"
  unfolding kmalloc_inv_def using buddy_inv_fresh
  by (auto simp: krep_def pool_ok_def at_def fresh_kmem_def intro!: exI [of _ "(\<lambda>_. [])(22 := [0])"])

theorem kmalloc_correct_witness:
  "\<exists>a k s'. kmalloc 0x50000000 100 (fresh_kmem 0x50000000) = Some (at (fresh_kmem 0x50000000) a + 8, s')
     \<and> 108 \<le> (2::nat) ^ k \<and> kmalloc_inv s' {(a, k)}"
proof -
  have inv: "kmalloc_inv (fresh_kmem 0x50000000) {}"
    by (rule kmalloc_inv_fresh) (simp_all add: POOL_def)
  have "wf_block (0, 22)" "blk (0, 22) \<subseteq> unused {}"
    by (simp_all add: POOL_def unused_def blk.simps)
  moreover have "unat (100 :: u64) + 8 \<le> 2 ^ 22" by simp
  ultimately show ?thesis
    using kmalloc_correct [OF inv, of 100] by fastforce
qed

text \<open>
  C10. \<open>kfree\<close> of the pointer of a live block: it terminates without an error, the block is
  no longer live, the invariant holds again (so the block has been merged with every free
  buddy), and only bytes that are unused afterwards were written.
\<close>

theorem kfree_correct:
  assumes inv: "kmalloc_inv s A" and a: "(a, k) \<in> A"
  shows "\<exists>s'. kfree frames (at s a + 8) s = Some s' \<and> kmalloc_inv s' (A - {(a, k)}) \<and>
           changes (unused (A - {(a, k)})) s s'"
proof -
  let ?A = "A - {(a, k)}"
  obtain fl where r: "krep s fl" and i: "buddy_inv fl (insert (a, k) ?A)"
    and h: "\<And>a k. (a, k) \<in> A \<Longrightarrow> cells s (at s a) = block_header (of_nat k) HEADER_MAGIC"
    using inv a by (auto simp: kmalloc_inv_def insert_absorb)
  have n: "(a, k) \<notin> ?A" by simp
  have w: "wf_block (a, k)" by (rule buddy_inv_live [OF i]) simp
  note ab = wf_block_bound [OF w] and p = krepD(1) [OF r]
  have k: "unat (of_nat k :: u32) = k" "4 \<le> k" "k \<le> 22" using w by (simp_all add: unat_of_nat)
  have rng: "\<not> at s a < pool_base s" "at s a < pool_end s"
    using unat_at [OF p, of a] unat_at [OF p, of POOL] ab p
    by (auto simp: word_less_nat_alt pool_ok_def at_def POOL_def POOL_BYTES_def)
  define s1 where "s1 = s\<lparr>cells := (cells s)(at s a := block_header (of_nat k) 0)\<rparr>"
  have ch1: "changes {a} s s1" by (simp add: changes_def s1_def)
  have off: "at s b \<noteq> at s a" if "b \<in> set (fl j)" for b j
    using buddy_inv_free [OF i that] at_inj [OF p wf_block_bound ab]
    by (metis insertI1)
  have "fchain (cells s1) (free_lists s1 (j - 4)) (map (at s) (fl j))
      = fchain (cells s) (free_lists s (j - 4)) (map (at s) (fl j))" for j
    unfolding s1_def by (simp, rule fchain_cong) (use off in auto)
  then have r1: "krep s1 fl"
    using r pool_ok_changes [OF ch1 p] by (simp add: krep_def changes_at [OF ch1])
  obtain s' fl' where m: "merge_block (at s1 a) k s1 = Some s'" "krep s' fl'" "buddy_inv fl' ?A"
      "changes (unused ?A) s1 s'"
    using merge_block_rep [OF r1 i n] by blast
  have "{a} \<subseteq> unused ?A" using unused_live [OF i n] blk_start by blast
  then have ch: "changes (unused ?A) s s'"
    using changes_trans [OF changes_mono [OF ch1]] m(4) by blast
  have "(16::nat) \<le> 2 ^ k" using power_increasing [OF k(2), of "2::nat"] by simp
  then have "a + 8 < POOL" using w by simp
  from at_nonzero [OF p this] have "at s a + 8 \<noteq> 0" by (simp add: at_def add.assoc)
  then have "kfree frames (at s a + 8) s = Some s'"
    using kmalloc_inv_ready [OF inv] h [OF a] k rng m(1)
    by (auto simp: kfree_def Let_def MAX_ORDER_def MIN_ORDER_def s1_def changes_at [OF ch1]
        at_def not_less)
  moreover have "cells s' (at s' b) = block_header (of_nat j) HEADER_MAGIC" if "(b, j) \<in> ?A" for b j
    using headers_frame [OF ch p m(3) that] h that changes_at [OF ch] by auto
  ultimately show ?thesis using m(2,3) ch unfolding kmalloc_inv_def by blast
qed

text \<open>A pool that is one live block.\<close>

definition full_kmem :: "u64 \<Rightarrow> kmem" where
  "full_kmem base =
     \<lparr>cells = (\<lambda>_. 0)(base := block_header 22 HEADER_MAGIC), free_lists = (\<lambda>_. 0), pool_base = base,
      pool_end = base + POOL_BYTES, kmalloc_ready = True\<rparr>"

lemma kmalloc_inv_full:
  "base \<noteq> 0 \<Longrightarrow> unat base + POOL < 2 ^ 64 \<Longrightarrow> kmalloc_inv (full_kmem base) {(0, 22)}"
  by (auto simp: kmalloc_inv_def krep_def pool_ok_def at_def full_kmem_def buddy_inv_def tiling_def
      free_set_def blk.simps POOL_def intro!: exI [of _ "\<lambda>_. []"])

theorem kfree_correct_witness:
  "\<exists>s'. kfree 0x50000000 0x50000008 (full_kmem 0x50000000) = Some s' \<and> kmalloc_inv s' {}"
  using kfree_correct [OF kmalloc_inv_full, of "0x50000000" 0 22 "0x50000000"]
  by (auto simp: POOL_def at_def full_kmem_def)



text \<open>
  C40. The size check does not cover wrap-around: a request of the eight largest sizes is
  treated like a request of one byte, so the caller receives a 16-byte block.
\<close>

theorem kmalloc_size_wraps:
  assumes "2 ^ 64 - 8 \<le> unat sz"
  shows "kmalloc frames sz s = kmalloc frames 1 s"
proof -
  have lt: "unat sz < 2 ^ 64" using unsigned_less [of sz] by simp
  have "unat (sz + 8) = (unat sz + 8) mod 2 ^ 64" by (simp add: unat_word_ariths)
  also have "\<dots> = (unat sz + 8 - 2 ^ 64) mod 2 ^ 64" using assms by (intro le_mod_geq) simp
  also have "\<dots> = unat sz + 8 - 2 ^ 64" using lt by (intro mod_less) simp
  finally have "sz + 8 < MIN_BLOCK_SIZE"
    using lt by (simp add: word_less_nat_alt MIN_BLOCK_SIZE_def MIN_ORDER_def)
  moreover have "sz \<noteq> 0" using assms by auto
  ultimately show ?thesis by (simp add: kmalloc_def MIN_BLOCK_SIZE_def MIN_ORDER_def)
qed

theorem kmalloc_size_wraps_witness:
  "kmalloc 0x50000000 0xffffffffffffffff (fresh_kmem 0x50000000)
   = kmalloc 0x50000000 1 (fresh_kmem 0x50000000)"
  by (rule kmalloc_size_wraps) simp

end
