(* ===== verification/PgTable.thy ===== *)
theory PgTable
  imports Kernel_Prelude
begin

unbundle bit_operations_syntax

text \<open>
  Page table entries and addresses (\<open>arch/riscv/include/pgtable.h\<close>) and the boot-time
  mapping of physical memory (\<open>arch/riscv/kernel/boot.c\<close>).

  \<^item> A page table is a region of the physical store \<open>pmem\<close>, which maps the address of an
    8-byte cell to its contents. At boot, paging is off and the code writes the tables
    through physical addresses.
  \<^item> \<open>sv39\<close> is the translation the MMU performs with these tables; it is the specification
    against which the boot mapping is stated.
\<close>

section \<open>Entries and addresses\<close>

type_synonym pmem = "u64 \<Rightarrow> u64"

definition NORMAL_PAGE_SHIFT :: nat where "NORMAL_PAGE_SHIFT = 12"
definition PAGE_PFN_SHIFT :: nat where "PAGE_PFN_SHIFT = 10"
definition PPN_BITS :: nat where "PPN_BITS = 9"

definition PAGE_PRESENT :: u64 where "PAGE_PRESENT = push_bit 0 1"
definition PAGE_READ :: u64 where "PAGE_READ = push_bit 1 1"
definition PAGE_WRITE :: u64 where "PAGE_WRITE = push_bit 2 1"
definition PAGE_EXEC :: u64 where "PAGE_EXEC = push_bit 3 1"
definition PAGE_USER :: u64 where "PAGE_USER = push_bit 4 1"
definition PAGE_ACCESSED :: u64 where "PAGE_ACCESSED = push_bit 6 1"
definition PAGE_DIRTY :: u64 where "PAGE_DIRTY = push_bit 7 1"
definition PAGE_SOFT :: u64 where "PAGE_SOFT = push_bit 8 1"

definition VA_MASK :: u64 where "VA_MASK = push_bit 39 1 - 1"
definition VPN_MASK :: u64 where "VPN_MASK = push_bit PPN_BITS 1 - 1"
definition VA_EFFECTIVE_MASK :: u64 where "VA_EFFECTIVE_MASK = push_bit 38 1 - 1"
definition KERNEL_ADDR_TAG :: u64 where "KERNEL_ADDR_TAG = 0xffffffc000000000"
definition PGDIR_PA :: u64 where "PGDIR_PA = 0x51000000"
definition PGDIR_VA :: u64 where "PGDIR_VA = PGDIR_PA OR KERNEL_ADDR_TAG"
definition PA_TOP :: u64 where "PA_TOP = 0x60000000"
definition PA_BOTTOM :: u64 where "PA_BOTTOM = 0x50000000"

definition kva2pa :: "u64 \<Rightarrow> u64 option" where
  "kva2pa kva = do {
     asserts (kva AND NOT VA_EFFECTIVE_MASK = KERNEL_ADDR_TAG);
     Some (kva XOR KERNEL_ADDR_TAG)
   }"

definition pa2kva :: "u64 \<Rightarrow> u64 option" where
  "pa2kva pa = do {
     asserts (pa \<ge> PA_BOTTOM \<and> pa < PA_TOP);
     Some (pa OR KERNEL_ADDR_TAG)
   }"

definition get_pa :: "u64 \<Rightarrow> u64" where
  "get_pa entry = push_bit NORMAL_PAGE_SHIFT (drop_bit PAGE_PFN_SHIFT entry)"

definition get_pfn :: "u64 \<Rightarrow> u64" where
  "get_pfn entry = drop_bit PAGE_PFN_SHIFT entry"

definition set_pfn :: "u64 \<Rightarrow> u64 \<Rightarrow> u64" where
  "set_pfn entry pfn =
     (entry AND (push_bit PAGE_PFN_SHIFT 1 - 1)) OR push_bit PAGE_PFN_SHIFT pfn"

definition get_attribute :: "u64 \<Rightarrow> u64 \<Rightarrow> u64" where
  "get_attribute entry msk = entry AND msk"

definition set_attribute :: "u64 \<Rightarrow> u64 \<Rightarrow> u64 option" where
  "set_attribute entry bits = do {
     asserts (bits AND NOT (push_bit PAGE_PFN_SHIFT 1 - 1) = 0);
     Some (entry OR bits)
   }"

definition clear_attribute :: "u64 \<Rightarrow> u64 \<Rightarrow> u64" where
  "clear_attribute entry bits = entry AND NOT bits"

definition get_vpn :: "u64 \<Rightarrow> u64 \<times> u64 \<times> u64" where
  "get_vpn va0 =
     (let va = va0 AND VA_MASK
      in (drop_bit (NORMAL_PAGE_SHIFT + PPN_BITS + PPN_BITS) va AND VPN_MASK,
          drop_bit (NORMAL_PAGE_SHIFT + PPN_BITS) va AND VPN_MASK,
          drop_bit NORMAL_PAGE_SHIFT va AND VPN_MASK))"

text \<open>The cell of entry \<open>i\<close> of the table at \<open>pg\<close>.\<close>

definition entry :: "u64 \<Rightarrow> u64 \<Rightarrow> u64" where
  "entry pg i = pg + 8 * i"

primrec clear_cells :: "nat \<Rightarrow> u64 \<Rightarrow> pmem \<Rightarrow> pmem" where
  "clear_cells 0 a mem = mem"
| "clear_cells (Suc n) a mem = clear_cells n (a + 8) (mem(a := 0))"

definition clear_pgdir :: "u64 \<Rightarrow> pmem \<Rightarrow> pmem" where
  "clear_pgdir pgdir_addr mem = clear_cells 512 pgdir_addr mem"

definition satp_value :: "u64 \<Rightarrow> u64 \<Rightarrow> u64 \<Rightarrow> u64" where
  "satp_value mode asid ppn = push_bit 60 mode OR push_bit 44 asid OR ppn"

section \<open>Boot\<close>

record boot_state =
  bmem :: pmem
  pg_base :: u64
  bsatp :: u64

definition boot_alloc_page :: "boot_state \<Rightarrow> u64 \<times> boot_state" where
  "boot_alloc_page s = (let b = pg_base s + 0x1000 in (b, s\<lparr>pg_base := b\<rparr>))"

definition map_page :: "u64 \<Rightarrow> u64 \<Rightarrow> u64 \<Rightarrow> boot_state \<Rightarrow> boot_state option" where
  "map_page va0 pa pgdir s0 = do {
     let va = va0 AND VA_MASK;
     let vpn2 = drop_bit (NORMAL_PAGE_SHIFT + PPN_BITS + PPN_BITS) va;
     let vpn1 = push_bit PPN_BITS vpn2 XOR drop_bit (NORMAL_PAGE_SHIFT + PPN_BITS) va;
     s1 \<leftarrow> (if bmem s0 (entry pgdir vpn2) = 0
            then do {
              let (pg, s) = boot_alloc_page s0;
              let e = set_pfn (bmem s (entry pgdir vpn2)) (drop_bit NORMAL_PAGE_SHIFT pg);
              e' \<leftarrow> set_attribute e PAGE_PRESENT;
              let mem = (bmem s)(entry pgdir vpn2 := e');
              Some (s\<lparr>bmem := clear_pgdir (get_pa e') mem\<rparr>)
            }
            else Some s0);
     let pmd = get_pa (bmem s1 (entry pgdir vpn2));
     e \<leftarrow> set_attribute (set_pfn (bmem s1 (entry pmd vpn1)) (drop_bit NORMAL_PAGE_SHIFT pa))
           (PAGE_PRESENT OR PAGE_READ OR PAGE_WRITE OR PAGE_EXEC OR PAGE_ACCESSED OR PAGE_DIRTY);
     Some (s1\<lparr>bmem := (bmem s1)(entry pmd vpn1 := e)\<rparr>)
   }"

definition unmap_page :: "u64 \<Rightarrow> u64 \<Rightarrow> boot_state \<Rightarrow> boot_state option" where
  "unmap_page va0 pgdir s = do {
     let va = va0 AND VA_MASK;
     let vpn2 = drop_bit (NORMAL_PAGE_SHIFT + PPN_BITS + PPN_BITS) va;
     let vpn1 = push_bit PPN_BITS vpn2 XOR drop_bit (NORMAL_PAGE_SHIFT + PPN_BITS) va;
     pd \<leftarrow> kva2pa pgdir;
     asserts (bmem s (entry pd vpn2) \<noteq> 0);
     kpmd \<leftarrow> pa2kva (get_pa (bmem s (entry pd vpn2)));
     pmd \<leftarrow> kva2pa kpmd;
     Some (s\<lparr>bmem := (bmem s)(entry pmd vpn1 := 0)\<rparr>)
   }"

definition enable_vm :: "boot_state \<Rightarrow> boot_state" where
  "enable_vm s = s\<lparr>bsatp := satp_value 8 0 (drop_bit NORMAL_PAGE_SHIFT PGDIR_PA)\<rparr>"

text \<open>The three loops count addresses up in steps of two megabytes; \<open>n\<close> is what is left.\<close>

primrec map_kernel :: "nat \<Rightarrow> u64 \<Rightarrow> boot_state \<Rightarrow> boot_state option" where
  "map_kernel 0 kva s = Some s"
| "map_kernel (Suc n) kva s = do {
     pa \<leftarrow> kva2pa kva;
     s' \<leftarrow> map_page kva pa PGDIR_PA s;
     map_kernel n (kva + 0x200000) s'
   }"

primrec map_boot :: "nat \<Rightarrow> u64 \<Rightarrow> boot_state \<Rightarrow> boot_state option" where
  "map_boot 0 pa s = Some s"
| "map_boot (Suc n) pa s = do {
     s' \<leftarrow> map_page pa pa PGDIR_PA s;
     map_boot n (pa + 0x200000) s'
   }"

primrec unmap_boot :: "nat \<Rightarrow> u64 \<Rightarrow> boot_state \<Rightarrow> boot_state option" where
  "unmap_boot 0 pa s = Some s"
| "unmap_boot (Suc n) pa s = do {
     s' \<leftarrow> unmap_page pa PGDIR_VA s;
     unmap_boot n (pa + 0x200000) s'
   }"

definition setup_vm :: "boot_state \<Rightarrow> boot_state option" where
  "setup_vm s = do {
     let s1 = s\<lparr>bmem := clear_pgdir PGDIR_PA (bmem s)\<rparr>;
     s2 \<leftarrow> map_kernel 128 0xffffffc050000000 s1;
     s3 \<leftarrow> map_boot 8 0x50000000 s2;
     Some (enable_vm s3)
   }"

definition reset_boot_vm :: "boot_state \<Rightarrow> boot_state option" where
  "reset_boot_vm s = unmap_boot 8 0x50000000 s"

section \<open>The translation of the MMU\<close>

text \<open>
  Sv39 with the root table of \<open>satp\<close>: an address is canonical when bits 63 to 38 agree, a
  present entry with a permission bit is a leaf, and a leaf above the last level is a large page.
\<close>

definition is_leaf :: "u64 \<Rightarrow> bool" where
  "is_leaf e \<longleftrightarrow> e AND (PAGE_READ OR PAGE_WRITE OR PAGE_EXEC) \<noteq> 0"

definition sv39 :: "u64 \<Rightarrow> pmem \<Rightarrow> u64 \<Rightarrow> u64 option" where
  "sv39 root mem va =
     (case get_vpn va of (vpn2, vpn1, vpn0) \<Rightarrow>
        if \<not> (drop_bit 38 va = 0 \<or> drop_bit 38 va = mask 26) then None
        else let e2 = mem (entry root vpn2) in
        if e2 AND PAGE_PRESENT = 0 then None
        else if is_leaf e2 then Some (get_pa e2 OR (va AND mask 30))
        else let e1 = mem (entry (get_pa e2) vpn1) in
        if e1 AND PAGE_PRESENT = 0 then None
        else if is_leaf e1 then Some (get_pa e1 OR (va AND mask 21))
        else let e0 = mem (entry (get_pa e1) vpn0) in
        if e0 AND PAGE_PRESENT = 0 then None
        else Some (get_pa e0 OR (va AND mask 12)))"

section \<open>Entries\<close>

lemma mask_defs:
  "VA_MASK = mask 39" "VPN_MASK = mask 9" "VA_EFFECTIVE_MASK = mask 38"
  "push_bit PAGE_PFN_SHIFT 1 - 1 = (mask 10 :: u64)"
  by (simp_all add: VA_MASK_def VPN_MASK_def VA_EFFECTIVE_MASK_def PPN_BITS_def PAGE_PFN_SHIFT_def
      mask_eq_exp_minus_1)

lemmas shift_defs = NORMAL_PAGE_SHIFT_def PAGE_PFN_SHIFT_def PPN_BITS_def

lemmas attr_defs = PAGE_PRESENT_def PAGE_READ_def PAGE_WRITE_def PAGE_EXEC_def PAGE_USER_def
  PAGE_ACCESSED_def PAGE_DIRTY_def PAGE_SOFT_def

abbreviation V2 :: "u64 \<Rightarrow> u64" where "V2 va \<equiv> take_bit 9 (drop_bit 30 va)"
abbreviation V1 :: "u64 \<Rightarrow> u64" where "V1 va \<equiv> take_bit 9 (drop_bit 21 va)"
abbreviation V0 :: "u64 \<Rightarrow> u64" where "V0 va \<equiv> take_bit 9 (drop_bit 12 va)"

lemma get_vpn_fields: "get_vpn va = (V2 va, V1 va, V0 va)"
  unfolding get_vpn_def Let_def mask_defs shift_defs prod.inject
  by (intro conjI; rule bit_word_eqI; auto simp: bit_simps)

lemma boot_vpn:
  "drop_bit (NORMAL_PAGE_SHIFT + PPN_BITS + PPN_BITS) (va AND VA_MASK) = V2 va"
  "push_bit PPN_BITS (V2 va) XOR drop_bit (NORMAL_PAGE_SHIFT + PPN_BITS) (va AND VA_MASK) = V1 va"
  unfolding mask_defs shift_defs
  by (rule bit_word_eqI; auto simp: bit_simps)+

text \<open>
  C21. A virtual address is its three table indices and its page offset: the indices are below
  512 and determine, with the low 12 bits, the 39 translated bits of the address.
\<close>

theorem get_vpn_roundtrip:
  "case get_vpn va of (vpn2, vpn1, vpn0) \<Rightarrow>
     vpn2 < 512 \<and> vpn1 < 512 \<and> vpn0 < 512 \<and>
     push_bit 30 vpn2 OR push_bit 21 vpn1 OR push_bit 12 vpn0 OR (va AND mask 12) = va AND VA_MASK"
proof -
  have b: "take_bit 9 w < 512" for w :: u64
    by (simp add: word_less_nat_alt unat_take_bit)
  have "push_bit 30 (V2 va) OR push_bit 21 (V1 va) OR push_bit 12 (V0 va) OR (va AND mask 12)
      = va AND mask 39" (is "?l = ?r")
  proof (rule bit_word_eqI)
    fix n assume "n < LENGTH(64)"
    then show "bit ?l n = bit ?r n"
      by (cases "n < 12"; cases "n < 21"; cases "n < 30") (auto simp: bit_simps)
  qed
  with b show ?thesis by (simp add: get_vpn_fields mask_defs)
qed

lemma pte_facts:
  assumes "unat pfn < 2 ^ 54" "unat bits < 2 ^ 10"
  shows "set_attribute (set_pfn e pfn) bits = Some (set_pfn e pfn OR bits)"
    "get_pfn (set_pfn e pfn OR bits) = pfn"
    "get_pfn (clear_attribute (set_pfn e pfn) bits) = pfn"
    "get_attribute (set_pfn e pfn OR bits) (mask 10) = get_attribute e (mask 10) OR bits"
    "get_pa (set_pfn e pfn OR bits) = push_bit 12 pfn"
proof -
  note p = bit_word_bound [OF assms(1)] and b = bit_word_bound [OF assms(2)]
  have "bits AND NOT (mask 10) = 0" by (rule bit_word_eqI) (use b in \<open>auto simp: bit_simps\<close>)
  then show "set_attribute (set_pfn e pfn) bits = Some (set_pfn e pfn OR bits)"
    unfolding set_attribute_def mask_defs by simp
  show "get_pfn (set_pfn e pfn OR bits) = pfn"
    "get_pfn (clear_attribute (set_pfn e pfn) bits) = pfn"
    "get_attribute (set_pfn e pfn OR bits) (mask 10) = get_attribute e (mask 10) OR bits"
    "get_pa (set_pfn e pfn OR bits) = push_bit 12 pfn"
    unfolding get_pfn_def set_pfn_def clear_attribute_def get_attribute_def get_pa_def mask_defs
    unfolding shift_defs
    by (rule bit_word_eqI; use p b in \<open>auto simp: bit_simps\<close>)+
qed

text \<open>
  C20. The frame number and the attribute bits of an entry do not disturb each other: storing a
  frame number (of at most 54 bits) and then setting and clearing attribute bits keeps it, and
  the entry's physical address is that of the frame.
\<close>

theorem pte_roundtrip:
  assumes "unat pfn < 2 ^ 54" "unat bits < 2 ^ 10"
  shows "set_attribute (set_pfn e pfn) bits = Some (set_pfn e pfn OR bits) \<and>
    get_pfn (set_pfn e pfn OR bits) = pfn \<and>
    get_pfn (clear_attribute (set_pfn e pfn) bits) = pfn \<and>
    get_attribute (set_pfn e pfn OR bits) (mask 10) = get_attribute e (mask 10) OR bits \<and>
    get_pa (set_pfn e pfn OR bits) = push_bit 12 pfn"
  using pte_facts [OF assms] by blast

theorem pte_roundtrip_witness:
  "get_pfn (set_pfn 0xdf 0x51001 OR 0x20) = 0x51001"
  using pte_roundtrip [of "0x51001" "0x20" "0xdf"] by simp

lemma tag_bits: "bit KERNEL_ADDR_TAG n \<longleftrightarrow> 38 \<le> n \<and> n < 64"
proof -
  have eq: "KERNEL_ADDR_TAG = push_bit 38 (mask 26)"
    by (simp add: KERNEL_ADDR_TAG_def mask_eq_exp_minus_1)
  show ?thesis unfolding eq by (auto simp: bit_simps)
qed

lemma pa2kva_iff:
  "pa2kva pa = Some kva \<longleftrightarrow> kva2pa kva = Some pa \<and> PA_BOTTOM \<le> pa \<and> pa < PA_TOP"
proof -
  have low: "38 \<le> n \<Longrightarrow> \<not> bit pa n" if "pa < PA_TOP" for n
    using that bit_word_bound [of pa 38 n] by (auto simp: PA_TOP_def word_less_nat_alt)
  have fwd: "(pa OR KERNEL_ADDR_TAG) AND NOT VA_EFFECTIVE_MASK = KERNEL_ADDR_TAG"
    "(pa OR KERNEL_ADDR_TAG) XOR KERNEL_ADDR_TAG = pa" if "pa < PA_TOP"
    unfolding mask_defs
    by (rule bit_word_eqI; use low [OF that] in \<open>auto simp: bit_simps tag_bits\<close>)+
  have bwd: "pa OR KERNEL_ADDR_TAG = kva"
    if "kva AND NOT VA_EFFECTIVE_MASK = KERNEL_ADDR_TAG" "kva XOR KERNEL_ADDR_TAG = pa"
  proof (rule bit_word_eqI)
    fix n assume "n < LENGTH(64)"
    then have "bit kva n" if "38 \<le> n"
      using that arg_cong [OF \<open>kva AND NOT VA_EFFECTIVE_MASK = KERNEL_ADDR_TAG\<close>, of "\<lambda>w. bit w n"]
      by (simp add: mask_defs bit_simps tag_bits)
    then show "bit (pa OR KERNEL_ADDR_TAG) n = bit kva n"
      using \<open>n < LENGTH(64)\<close> unfolding that(2) [symmetric] by (auto simp: bit_simps tag_bits)
  qed
  show ?thesis using fwd bwd by (auto simp: pa2kva_def kva2pa_def)
qed

text \<open>
  C19. Physical memory and its kernel mapping are in bijection: \<open>kva2pa\<close> undoes \<open>pa2kva\<close> on
  physical memory, and \<open>pa2kva\<close> undoes \<open>kva2pa\<close> wherever both checks pass.
\<close>

theorem kva_pa_inverse:
  "pa2kva pa = Some kva \<longleftrightarrow> kva2pa kva = Some pa \<and> PA_BOTTOM \<le> pa \<and> pa < PA_TOP"
  by (rule pa2kva_iff)

section \<open>The boot mapping\<close>

text \<open>The tables are the root and the pages after it; \<open>cell t j\<close> is entry \<open>j\<close> of table \<open>t\<close>.\<close>

definition tbl :: "nat \<Rightarrow> u64" where
  "tbl t = 0x51000000 + 0x1000 * of_nat t"

definition cell :: "nat \<Rightarrow> nat \<Rightarrow> u64" where
  "cell t j = entry (tbl t) (of_nat j)"

lemma unat_cell: "t < 8 \<Longrightarrow> j < 512 \<Longrightarrow> unat (cell t j) = 0x51000000 + 0x1000 * t + 8 * j"
  unfolding cell_def entry_def tbl_def
  by (simp add: unat_word_ariths unat_of_nat)

lemma cell_inj:
  assumes "t < 8" "u < 8" "j < 512" "k < 512"
  shows "cell t j = cell u k \<longleftrightarrow> t = u \<and> j = k"
proof
  assume "cell t j = cell u k"
  then have "0x51000000 + 0x1000 * t + 8 * j = 0x51000000 + 0x1000 * u + 8 * k"
    using unat_cell assms by metis
  then have e: "512 * t + j = 512 * u + k" by simp
  then have "(512 * t + j) div 512 = (512 * u + k) div 512" by simp
  then have "t = u" using assms(3,4) by simp
  with e show "t = u \<and> j = k" by simp
qed simp

lemma clear_cells_eq:
  "clear_cells n a mem x = (if \<exists>k<n. x = a + 8 * of_nat k then 0 else mem x)"
proof (induction n arbitrary: a mem)
  case (Suc n)
  have "(\<exists>k<Suc n. x = a + 8 * of_nat k) \<longleftrightarrow> x = a \<or> (\<exists>k<n. x = a + 8 + 8 * of_nat k)"
    by (auto simp: less_Suc_eq_0_disj algebra_simps)
  then show ?case using Suc by auto
qed simp

lemma clear_tbl:
  assumes "t < 8" "u < 8" "j < 512"
  shows "clear_pgdir (tbl t) mem (cell u j) = (if t = u then 0 else mem (cell u j))"
proof -
  have "(\<exists>k<512. cell u j = tbl t + 8 * of_nat k) \<longleftrightarrow> t = u"
    using cell_inj [OF assms(2,1) assms(3)] assms(3) unfolding cell_def entry_def by auto
  then show ?thesis by (simp add: clear_pgdir_def clear_cells_eq)
qed

text \<open>The table entry of table \<open>t\<close>, and the large leaf for the \<open>j\<close>-th two megabytes after \<open>0x40000000\<close>.\<close>

definition table_pte :: "nat \<Rightarrow> u64" where
  "table_pte t = set_pfn 0 (0x51000 + of_nat t) OR PAGE_PRESENT"

definition leaf_pte :: "nat \<Rightarrow> u64" where
  "leaf_pte j = set_pfn 0 (0x40000 + 0x200 * of_nat j)
     OR (PAGE_PRESENT OR PAGE_READ OR PAGE_WRITE OR PAGE_EXEC OR PAGE_ACCESSED OR PAGE_DIRTY)"

lemma table_pte_simps [simp]:
  assumes "t < 8"
  shows "get_pa (table_pte t) = tbl t" "table_pte t AND PAGE_PRESENT \<noteq> 0" "\<not> is_leaf (table_pte t)"
    "table_pte t \<noteq> 0"
proof -
  have u: "unat (0x51000 + of_nat t :: u64) < 2 ^ 54" "unat PAGE_PRESENT < 2 ^ 10"
    using assms by (simp_all add: unat_word_ariths unat_of_nat PAGE_PRESENT_def)
  show "get_pa (table_pte t) = tbl t"
    unfolding table_pte_def pte_facts(5) [OF u] by (simp add: tbl_def push_bit_eq_mult algebra_simps)
  have low: "get_attribute (table_pte t) (mask 10) = PAGE_PRESENT"
    unfolding table_pte_def pte_facts(4) [OF u] by (simp add: get_attribute_def)
  have at: "table_pte t AND b = PAGE_PRESENT AND b" if "unat b < 2 ^ 10" for b
  proof -
    have "table_pte t AND b = get_attribute (table_pte t) (mask 10) AND b"
      unfolding get_attribute_def
      by (rule bit_word_eqI) (use bit_word_bound [OF that] in \<open>auto simp: bit_simps\<close>)
    then show ?thesis unfolding low .
  qed
  show "table_pte t AND PAGE_PRESENT \<noteq> 0" "\<not> is_leaf (table_pte t)"
    unfolding is_leaf_def by (subst at; simp add: attr_defs)+
  then show "table_pte t \<noteq> 0" by auto
qed

lemma leaf_pte_simps [simp]:
  assumes "j < 512"
  shows "get_pa (leaf_pte j) = 0x40000000 + 0x200000 * of_nat j" "leaf_pte j AND PAGE_PRESENT \<noteq> 0"
    "is_leaf (leaf_pte j)" "leaf_pte j \<noteq> 0"
proof -
  let ?b = "PAGE_PRESENT OR PAGE_READ OR PAGE_WRITE OR PAGE_EXEC OR PAGE_ACCESSED OR PAGE_DIRTY"
  have u: "unat (0x40000 + 0x200 * of_nat j :: u64) < 2 ^ 54" "unat ?b < 2 ^ 10"
    using assms by (simp_all add: unat_word_ariths unat_of_nat attr_defs)
  show "get_pa (leaf_pte j) = 0x40000000 + 0x200000 * of_nat j"
    unfolding leaf_pte_def pte_facts(5) [OF u] by (simp add: push_bit_eq_mult algebra_simps)
  have low: "get_attribute (leaf_pte j) (mask 10) = ?b"
    unfolding leaf_pte_def pte_facts(4) [OF u] by (simp add: get_attribute_def)
  have at: "leaf_pte j AND b = ?b AND b" if "unat b < 2 ^ 10" for b
  proof -
    have "leaf_pte j AND b = get_attribute (leaf_pte j) (mask 10) AND b"
      unfolding get_attribute_def
      by (rule bit_word_eqI) (use bit_word_bound [OF that] in \<open>auto simp: bit_simps\<close>)
    then show ?thesis unfolding low .
  qed
  show "leaf_pte j AND PAGE_PRESENT \<noteq> 0" "is_leaf (leaf_pte j)"
    unfolding is_leaf_def by (subst at; simp add: attr_defs)+
  then show "leaf_pte j \<noteq> 0" by auto
qed

lemma va_fields:
  assumes B: "unat B = 2 ^ 30 * q + 2 ^ 28" and off: "off < 2 ^ 28" and n: "unat B + off < 2 ^ 64"
  shows "V2 (B + of_nat off) = of_nat (q mod 512)" "V1 (B + of_nat off) = of_nat (128 + off div 2 ^ 21)"
    "take_bit 21 (B + of_nat off) = of_nat (off mod 2 ^ 21)"
    "unat (B + of_nat off) = unat B + off"
proof -
  have o: "unat (of_nat off :: u64) = off" using off by (simp add: unat_of_nat)
  show u: "unat (B + of_nat off) = unat B + off" using n by (simp add: unat_word_ariths o)
  have "(2 ^ 30 * q + 2 ^ 28 + off) div 2 ^ 30 = q"
    using off by (intro div_nat_eqI) simp_all
  then show "V2 (B + of_nat off) = of_nat (q mod 512)"
    by (simp add: word_unat_eq_iff unat_take_bit unat_drop_bit u B unat_of_nat)
  have d: "2 ^ 30 * q + 2 ^ 28 + off = off + (512 * q + 128) * 2 ^ 21" by simp
  have "(2 ^ 30 * q + 2 ^ 28 + off) div 2 ^ 21 = 512 * q + 128 + off div 2 ^ 21"
    unfolding d by (subst div_mult_self1) simp_all
  moreover have "off div 2 ^ 21 < 128" using off by (simp add: less_mult_imp_div_less)
  moreover have "(512 * q + 128 + x) mod 512 = 128 + x" if "x < 128" for x
    using that by (simp add: add.assoc)
  moreover have "unat (of_nat (128 + off div 2 ^ 21) :: u64) = 128 + off div 2 ^ 21"
    using off by (intro unat_of_nat_lt) simp
  ultimately show "V1 (B + of_nat off) = of_nat (128 + off div 2 ^ 21)"
    unfolding word_unat_eq_iff unat_take_bit unat_drop_bit u B by simp
  have "(2 ^ 30 * q + 2 ^ 28 + off) mod 2 ^ 21 = off mod 2 ^ 21"
    unfolding d by (subst mod_mult_self1) simp_all
  then show "take_bit 21 (B + of_nat off) = of_nat (off mod 2 ^ 21)"
    by (simp add: word_unat_eq_iff unat_take_bit u B unat_of_nat)
qed

abbreviation KBASE :: u64 where "KBASE \<equiv> 0xffffffc050000000"

lemma kva2pa_kernel:
  assumes "off < 2 ^ 28"
  shows "kva2pa (KBASE + of_nat off) = Some (0x50000000 + of_nat off)"
    "pa2kva (0x50000000 + of_nat off) = Some (KBASE + of_nat off)"
proof -
  let ?pa = "0x50000000 + of_nat off :: u64"
  have u: "unat ?pa = 0x50000000 + off" using assms by (simp add: unat_word_ariths unat_of_nat)
  have "?pa AND KERNEL_ADDR_TAG = 0"
    by (rule bit_word_eqI) (use not_bit_ge [of ?pa 38] u assms in \<open>auto simp: bit_simps tag_bits\<close>)
  then have "?pa OR KERNEL_ADDR_TAG = ?pa + KERNEL_ADDR_TAG"
    using word_plus_and_or [of ?pa KERNEL_ADDR_TAG] by simp
  also have "\<dots> = KBASE + of_nat off" by (simp add: KERNEL_ADDR_TAG_def)
  finally show p: "pa2kva ?pa = Some (KBASE + of_nat off)"
    using u assms by (simp add: pa2kva_def word_le_nat_alt word_less_nat_alt PA_BOTTOM_def PA_TOP_def)
  then show "kva2pa (KBASE + of_nat off) = Some ?pa" by (simp add: pa2kva_iff)
qed

text \<open>The tables after \<open>n\<close> kernel and \<open>m\<close> boot mappings.\<close>

definition boot_tables :: "nat \<Rightarrow> nat \<Rightarrow> boot_state \<Rightarrow> bool" where
  "boot_tables n m s \<longleftrightarrow>
     (\<forall>j<512. bmem s (cell 0 j) =
        (if j = 257 \<and> 0 < n then table_pte 1 else if j = 1 \<and> 0 < m then table_pte 2 else 0)) \<and>
     (0 < n \<longrightarrow> (\<forall>j<512. bmem s (cell 1 j) = (if 128 \<le> j \<and> j < 128 + n then leaf_pte j else 0))) \<and>
     (0 < m \<longrightarrow> (\<forall>j<512. bmem s (cell 2 j) = (if 128 \<le> j \<and> j < 128 + m then leaf_pte j else 0))) \<and>
     pg_base s = tbl ((if 0 < n then 1 else 0) + (if 0 < m then 1 else 0))"

lemma map_page_hit:
  assumes v: "V2 va = of_nat v2" "V1 va = of_nat v1" and t: "t < 8"
    and e: "bmem s (cell 0 v2) = table_pte t" "bmem s (cell t v1) = 0"
    and pa: "pa = 0x40000000 + 0x200000 * of_nat j" "j < 512"
  shows "map_page va pa PGDIR_PA s = Some (s\<lparr>bmem := (bmem s)(cell t v1 := leaf_pte j)\<rparr>)"
proof -
  have root: "PGDIR_PA = tbl 0" by (simp add: PGDIR_PA_def tbl_def)
  have pfn: "drop_bit NORMAL_PAGE_SHIFT pa = 0x40000 + 0x200 * of_nat j"
    using pa by (simp add: word_unat_eq_iff unat_drop_bit shift_defs unat_word_ariths unat_of_nat)
  have "unat (0x40000 + 0x200 * of_nat j :: u64) < 2 ^ 54"
    "unat (PAGE_PRESENT OR PAGE_READ OR PAGE_WRITE OR PAGE_EXEC OR PAGE_ACCESSED OR PAGE_DIRTY) < 2 ^ 10"
    using pa(2) by (simp_all add: unat_word_ariths unat_of_nat attr_defs)
  note at = pte_facts(1) [OF this]
  show ?thesis
    unfolding map_page_def Let_def boot_vpn unfolding v root cell_def [symmetric] e pfn
    using t e by (simp add: at leaf_pte_def flip: cell_def)
qed

lemma map_page_fresh:
  assumes v: "V2 va = of_nat v2" "V1 va = of_nat v1" "v2 < 512" "v1 < 512" and t: "0 < t" "t < 8"
    and e: "bmem s (cell 0 v2) = 0" "pg_base s = tbl (t - 1)"
    and pa: "pa = 0x40000000 + 0x200000 * of_nat j" "j < 512"
  shows "map_page va pa PGDIR_PA s = Some (s\<lparr>pg_base := tbl t,
    bmem := (clear_pgdir (tbl t) ((bmem s)(cell 0 v2 := table_pte t)))(cell t v1 := leaf_pte j)\<rparr>)"
proof -
  let ?s = "s\<lparr>pg_base := tbl t, bmem := clear_pgdir (tbl t) ((bmem s)(cell 0 v2 := table_pte t))\<rparr>"
  have root: "PGDIR_PA = tbl 0" by (simp add: PGDIR_PA_def tbl_def)
  have nx: "boot_alloc_page s = (tbl t, s\<lparr>pg_base := tbl t\<rparr>)"
    using t(1) e(2) by (cases t) (simp_all add: boot_alloc_page_def Let_def tbl_def algebra_simps)
  have pfn: "drop_bit NORMAL_PAGE_SHIFT (tbl t) = 0x51000 + of_nat t"
    using t by (simp add: tbl_def word_unat_eq_iff unat_drop_bit shift_defs unat_word_ariths unat_of_nat)
  have "unat (0x51000 + of_nat t :: u64) < 2 ^ 54" "unat PAGE_PRESENT < 2 ^ 10"
    using t by (simp_all add: unat_word_ariths unat_of_nat attr_defs)
  note at = pte_facts(1) [OF this]
  have "map_page va pa PGDIR_PA s = map_page va pa PGDIR_PA ?s"
  proof -
    have "bmem ?s (cell 0 v2) = table_pte t"
      using clear_tbl [of t 0 v2] v(3) t by simp
    moreover have "table_pte t \<noteq> 0" using t by simp
    ultimately show ?thesis
      unfolding map_page_def Let_def boot_vpn unfolding v(1,2) root cell_def [symmetric] e(1) nx prod.case pfn
      using at t by (simp add: e(1) pfn flip: table_pte_def cell_def)
  qed
  also have "\<dots> = Some (?s\<lparr>bmem := (bmem ?s)(cell t v1 := leaf_pte j)\<rparr>)"
    by (rule map_page_hit [OF v(1,2) t(2) _ _ pa])
      (use clear_tbl [of t 0 v2] clear_tbl [of t t v1] v t in simp_all)
  finally show ?thesis by simp
qed

lemma boot_tables_kernel:
  assumes b: "boot_tables n 0 s" and n: "n < 128"
  shows "\<exists>s'. map_page (KBASE + of_nat (n * 2 ^ 21)) (0x50000000 + of_nat (n * 2 ^ 21)) PGDIR_PA s = Some s'
    \<and> boot_tables (Suc n) 0 s'"
proof -
  let ?va = "KBASE + of_nat (n * 2 ^ 21)"
  have off: "n * 2 ^ 21 < 2 ^ 28" using n by simp
  have f: "V2 ?va = of_nat 257" "V1 ?va = of_nat (128 + n)"
    using va_fields(1,2) [of KBASE "0x3ffffff01" "n * 2 ^ 21"] off by simp_all
  have pa: "0x50000000 + of_nat (n * 2 ^ 21) = (0x40000000 + 0x200000 * of_nat (128 + n) :: u64)"
    by (simp add: algebra_simps)
  show ?thesis
  proof (cases "n = 0")
    case True
    have e: "bmem s (cell 0 257) = 0" "pg_base s = tbl (1 - 1)" using b True by (auto simp: boot_tables_def)
    show ?thesis
      using map_page_fresh [OF f _ _ _ _ e pa] n b True
      by (auto simp: boot_tables_def clear_tbl cell_inj)
  next
    case False
    have e: "bmem s (cell 0 257) = table_pte 1" "bmem s (cell 1 (128 + n)) = 0"
      using b n False by (auto simp: boot_tables_def)
    show ?thesis
      using map_page_hit [OF f _ e pa] n b False
      by (auto simp: boot_tables_def cell_inj)
  qed
qed

lemma boot_tables_boot:
  assumes b: "boot_tables 128 n s" and n: "n < 8"
  shows "\<exists>s'. map_page (0x50000000 + of_nat (n * 2 ^ 21)) (0x50000000 + of_nat (n * 2 ^ 21)) PGDIR_PA s = Some s'
    \<and> boot_tables 128 (Suc n) s'"
proof -
  let ?va = "0x50000000 + of_nat (n * 2 ^ 21) :: u64"
  have off: "n * 2 ^ 21 < 2 ^ 28" using n by simp
  have f: "V2 ?va = of_nat 1" "V1 ?va = of_nat (128 + n)"
    using va_fields(1,2) [of "0x50000000" 1 "n * 2 ^ 21"] off by simp_all
  have pa: "?va = 0x40000000 + 0x200000 * of_nat (128 + n)"
    by (simp add: algebra_simps)
  show ?thesis
  proof (cases "n = 0")
    case True
    have e: "bmem s (cell 0 1) = 0" "pg_base s = tbl (2 - 1)" using b True by (auto simp: boot_tables_def)
    show ?thesis
      using map_page_fresh [OF f _ _ _ _ e pa] n b True
      by (auto simp: boot_tables_def clear_tbl cell_inj numeral_2_eq_2)
  next
    case False
    have e: "bmem s (cell 0 1) = table_pte 2" "bmem s (cell 2 (128 + n)) = 0"
      using b n False by (auto simp: boot_tables_def)
    show ?thesis
      using map_page_hit [OF f _ e pa] n b False
      by (auto simp: boot_tables_def cell_inj)
  qed
qed

lemma map_kernel_tables:
  assumes "boot_tables n 0 s" "n + d = 128"
  shows "\<exists>s'. map_kernel d (KBASE + of_nat (n * 2 ^ 21)) s = Some s' \<and> boot_tables 128 0 s'"
  using assms
proof (induction d arbitrary: n s)
  case (Suc d)
  have off: "n * 2 ^ 21 < 2 ^ 28" using Suc.prems(2) by simp
  obtain s' where s': "map_page (KBASE + of_nat (n * 2 ^ 21)) (0x50000000 + of_nat (n * 2 ^ 21)) PGDIR_PA s
      = Some s'" "boot_tables (Suc n) 0 s'"
    using boot_tables_kernel [OF Suc.prems(1)] Suc.prems(2) by auto
  have "KBASE + of_nat (n * 2 ^ 21) + 0x200000 = KBASE + of_nat (Suc n * 2 ^ 21)"
    by (simp add: algebra_simps)
  moreover have "Suc n + d = 128" using Suc.prems(2) by simp
  ultimately show ?case
    using Suc.IH [OF s'(2)] s'(1) kva2pa_kernel(1) [OF off]
    by (simp only: map_kernel.simps bind.bind_lunit)
qed auto

lemma map_boot_tables:
  assumes "boot_tables 128 n s" "n + d = 8"
  shows "\<exists>s'. map_boot d (0x50000000 + of_nat (n * 2 ^ 21)) s = Some s' \<and> boot_tables 128 8 s'"
  using assms
proof (induction d arbitrary: n s)
  case (Suc d)
  obtain s' where s': "map_page (0x50000000 + of_nat (n * 2 ^ 21)) (0x50000000 + of_nat (n * 2 ^ 21))
      PGDIR_PA s = Some s'" "boot_tables 128 (Suc n) s'"
    using boot_tables_boot [OF Suc.prems(1)] Suc.prems(2) by auto
  have "0x50000000 + of_nat (n * 2 ^ 21) + 0x200000 = (0x50000000 + of_nat (Suc n * 2 ^ 21) :: u64)"
    by (simp add: algebra_simps)
  moreover have "Suc n + d = 8" using Suc.prems(2) by simp
  ultimately show ?case
    using Suc.IH [OF s'(2)] s'(1) by (simp only: map_boot.simps bind.bind_lunit)
qed auto

lemma setup_vm_tables:
  assumes "pg_base s = PGDIR_PA"
  shows "\<exists>s'. setup_vm s = Some s' \<and> boot_tables 128 8 s'"
proof -
  let ?s1 = "s\<lparr>bmem := clear_pgdir PGDIR_PA (bmem s)\<rparr>"
  have root: "PGDIR_PA = tbl 0" by (simp add: PGDIR_PA_def tbl_def)
  have "boot_tables 0 0 ?s1" using assms by (simp add: boot_tables_def root clear_tbl)
  then obtain s2 where s2: "map_kernel 128 KBASE ?s1 = Some s2" "boot_tables 128 0 s2"
    using map_kernel_tables [of 0 ?s1 128] by auto
  then obtain s3 where s3: "map_boot 8 0x50000000 s2 = Some s3" "boot_tables 128 8 s3"
    using map_boot_tables [of 0 s2 8] by auto
  then show ?thesis using s2 by (simp add: setup_vm_def enable_vm_def boot_tables_def)
qed

text \<open>After \<open>k\<close> steps of \<open>reset_boot_vm\<close>.\<close>

definition reset_tables :: "nat \<Rightarrow> boot_state \<Rightarrow> bool" where
  "reset_tables k s \<longleftrightarrow> bmem s (cell 0 257) = table_pte 1 \<and> bmem s (cell 0 1) = table_pte 2 \<and>
     (\<forall>j<512. bmem s (cell 1 j) = (if 128 \<le> j \<and> j < 256 then leaf_pte j else 0)) \<and>
     (\<forall>j<512. bmem s (cell 2 j) = (if 128 + k \<le> j \<and> j < 136 then leaf_pte j else 0))"

lemma boot_reset_tables: "boot_tables 128 8 s \<Longrightarrow> reset_tables 0 s"
  by (simp add: boot_tables_def reset_tables_def)

lemma unmap_page_step:
  assumes b: "reset_tables n s" and n: "n < 8"
  shows "\<exists>s'. unmap_page (0x50000000 + of_nat (n * 2 ^ 21)) PGDIR_VA s = Some s' \<and> reset_tables (Suc n) s'"
proof -
  let ?va = "0x50000000 + of_nat (n * 2 ^ 21) :: u64"
  have off: "n * 2 ^ 21 < 2 ^ 28" using n by simp
  have f: "V2 ?va = of_nat 1" "V1 ?va = of_nat (128 + n)"
    using va_fields(1,2) [of "0x50000000" 1 "n * 2 ^ 21"] off by simp_all
  have root: "kva2pa PGDIR_VA = Some (tbl 0)"
    using kva2pa_kernel(1) [of "0x1000000"] by (simp add: PGDIR_VA_def PGDIR_PA_def KERNEL_ADDR_TAG_def tbl_def)
  have t2: "tbl 2 = 0x50000000 + of_nat 0x1002000" by (simp add: tbl_def)
  have pmd: "pa2kva (tbl 2) = Some (KBASE + of_nat 0x1002000)"
    "kva2pa (KBASE + of_nat 0x1002000) = Some (tbl 2)"
    unfolding t2 by (rule kva2pa_kernel; simp)+
  have e: "bmem s (cell 0 1) = table_pte 2" using b by (simp add: reset_tables_def)
  have "unmap_page ?va PGDIR_VA s = Some (s\<lparr>bmem := (bmem s)(cell 2 (128 + n) := 0)\<rparr>)"
    unfolding unmap_page_def Let_def boot_vpn unfolding f root bind.bind_lunit cell_def [symmetric] e
    by (simp only: table_pte_simps pmd asserts_bind bind.bind_lunit if_True simp_thms)
      (simp add: cell_def)
  moreover have "reset_tables (Suc n) (s\<lparr>bmem := (bmem s)(cell 2 (128 + n) := 0)\<rparr>)"
    using b n by (auto simp: reset_tables_def cell_inj)
  ultimately show ?thesis by blast
qed

lemma unmap_boot_tables:
  assumes "reset_tables n s" "n + d = 8"
  shows "\<exists>s'. unmap_boot d (0x50000000 + of_nat (n * 2 ^ 21)) s = Some s' \<and> reset_tables 8 s'"
  using assms
proof (induction d arbitrary: n s)
  case (Suc d)
  obtain s' where s': "unmap_page (0x50000000 + of_nat (n * 2 ^ 21)) PGDIR_VA s = Some s'"
      "reset_tables (Suc n) s'"
    using unmap_page_step [OF Suc.prems(1)] Suc.prems(2) by auto
  have "0x50000000 + of_nat (n * 2 ^ 21) + 0x200000 = (0x50000000 + of_nat (Suc n * 2 ^ 21) :: u64)"
    by (simp add: algebra_simps)
  moreover have "Suc n + d = 8" using Suc.prems(2) by simp
  ultimately show ?case
    using Suc.IH [OF s'(2)] s'(1) by (simp only: unmap_boot.simps bind.bind_lunit)
qed auto

subsection \<open>What the MMU sees\<close>

lemma large_page:
  assumes off: "off < 2 ^ 28"
  shows "0x40000000 + 0x200000 * of_nat (128 + off div 2 ^ 21) OR of_nat (off mod 2 ^ 21)
    = (0x50000000 + of_nat off :: u64)"
proof -
  let ?a = "0x40000000 + 0x200000 * of_nat (128 + off div 2 ^ 21) :: u64" and ?b = "of_nat (off mod 2 ^ 21) :: u64"
  have a: "?a = push_bit 21 (0x200 + of_nat (128 + off div 2 ^ 21))"
    by (simp add: push_bit_eq_mult algebra_simps)
  have "unat ?b < 2 ^ 21" by (subst unat_of_nat_lt) (simp_all add: less_trans [OF mod_less_divisor])
  then have "?a AND ?b = 0"
    unfolding a by (intro bit_word_eqI) (use not_bit_ge [of ?b 21] in \<open>auto simp: bit_simps\<close>)
  then have "?a OR ?b = ?a + ?b" using word_plus_and_or [of ?a ?b] by simp
  also have "\<dots> = 0x50000000 + (2 ^ 21 * of_nat (off div 2 ^ 21) + of_nat (off mod 2 ^ 21))"
    by simp
  also have "2 ^ 21 * of_nat (off div 2 ^ 21) + of_nat (off mod 2 ^ 21)
      = (of_nat (2 ^ 21 * (off div 2 ^ 21) + off mod 2 ^ 21) :: u64)"
    by (simp only: of_nat_add of_nat_mult of_nat_power of_nat_numeral)
  also have "2 ^ 21 * (off div 2 ^ 21) + off mod 2 ^ 21 = off" by (rule mult_div_mod_eq)
  finally show ?thesis .
qed

lemma sv39_large:
  assumes B: "unat B = 2 ^ 30 * q + 2 ^ 28" and off: "off < 2 ^ 28" and n: "unat B + off < 2 ^ 64"
    and can: "drop_bit 38 (B + of_nat off) = 0 \<or> drop_bit 38 (B + of_nat off) = mask 26"
    and t: "t < 8" "mem (cell 0 (q mod 512)) = table_pte t"
  shows "mem (cell t (128 + off div 2 ^ 21)) = leaf_pte (128 + off div 2 ^ 21) \<Longrightarrow>
      sv39 PGDIR_PA mem (B + of_nat off) = Some (0x50000000 + of_nat off)"
    "mem (cell t (128 + off div 2 ^ 21)) = 0 \<Longrightarrow> sv39 PGDIR_PA mem (B + of_nat off) = None"
proof -
  have root: "PGDIR_PA = tbl 0" by (simp add: PGDIR_PA_def tbl_def)
  define j where "j = 128 + off div 2 ^ 21"
  note f = va_fields [OF B off n, folded j_def]
  have j: "j < 512" using off by (simp add: j_def less_mult_imp_div_less)
  have m: "(B + of_nat off) AND mask 21 = of_nat (off mod 2 ^ 21)"
    unfolding f(3) [symmetric] by (simp add: take_bit_eq_mask)
  note l = leaf_pte_simps [OF j] and pg = large_page [OF off, folded j_def]
  show "sv39 PGDIR_PA mem (B + of_nat off) = Some (0x50000000 + of_nat off)"
    if "mem (cell t (128 + off div 2 ^ 21)) = leaf_pte (128 + off div 2 ^ 21)"
    using can t l that [folded j_def] pg
    by (simp add: sv39_def get_vpn_fields f(1,2) m Let_def root flip: cell_def)
  show "sv39 PGDIR_PA mem (B + of_nat off) = None" if "mem (cell t (128 + off div 2 ^ 21)) = 0"
    using can t that [folded j_def]
    by (simp add: sv39_def get_vpn_fields f(1,2) m Let_def root flip: cell_def)
qed

lemma sv39_kernel:
  assumes r: "reset_tables k x" and off: "off < 2 ^ 28"
  shows "sv39 PGDIR_PA (bmem x) (KBASE + of_nat off) = kva2pa (KBASE + of_nat off)"
proof -
  have u: "unat (KBASE + of_nat off) = unat KBASE + off"
    by (rule va_fields(4) [of _ "0x3ffffff01"]) (use off in simp_all)
  have c: "drop_bit 38 (KBASE + of_nat off) = mask 26"
    unfolding word_unat_eq_iff unat_drop_bit u using off
    by (simp add: mask_eq_exp_minus_1 div_nat_eqI)
  have "off div 2 ^ 21 < 128" using off by (simp add: less_mult_imp_div_less)
  then show ?thesis
    using sv39_large(1) [of KBASE "0x3ffffff01" off 1 "bmem x"] r off c kva2pa_kernel(1) [OF off]
    by (simp add: reset_tables_def)
qed

lemma sv39_boot:
  assumes r: "reset_tables k x" and k: "k = 0 \<or> k = 8" and off: "off < 2 ^ 24"
  shows "sv39 PGDIR_PA (bmem x) (0x50000000 + of_nat off) =
    (if k = 0 then Some (0x50000000 + of_nat off) else None)"
proof -
  have u: "unat (0x50000000 + of_nat off :: u64) = 0x50000000 + off"
    using off by (simp add: unat_word_ariths unat_of_nat)
  have c: "drop_bit 38 (0x50000000 + of_nat off :: u64) = 0"
    unfolding word_unat_eq_iff unat_drop_bit u using off by simp
  have "off div 2 ^ 21 < 8" using off by (simp add: less_mult_imp_div_less)
  then have e: "bmem x (cell 2 (128 + off div 2 ^ 21)) =
      (if k = 0 then leaf_pte (128 + off div 2 ^ 21) else 0)"
    and t: "bmem x (cell 0 (1 mod 512)) = table_pte 2"
    using r k by (auto simp: reset_tables_def)
  have "unat (0x50000000 :: u64) = 2 ^ 30 * 1 + 2 ^ 28" "off < 2 ^ 28"
    "unat (0x50000000 :: u64) + off < 2 ^ 64" "(2::nat) < 8"
    using off by simp_all
  note sv = sv39_large [where mem = "bmem x", OF this(1-3) disjI1 [OF c] this(4) t]
  show ?thesis using sv e by (cases "k = 0") simp_all
qed

text \<open>
  C18. The boot mapping. \<open>setup_vm\<close>, started with its page allocator at the root table, succeeds
  and leaves tables with which the MMU translates every kernel address of physical memory to the
  physical address \<open>kva2pa\<close> gives, and the first 16 MiB to themselves; after
  \<open>reset_boot_vm\<close> the kernel addresses translate as before and those identity mappings are gone.
\<close>

theorem boot_mapping:
  assumes "pg_base s = PGDIR_PA"
  shows "\<exists>s1 s2. setup_vm s = Some s1 \<and> reset_boot_vm s1 = Some s2 \<and>
    (\<forall>off<2 ^ 28. sv39 PGDIR_PA (bmem s1) (0xffffffc050000000 + of_nat off) = kva2pa (0xffffffc050000000 + of_nat off)
       \<and> sv39 PGDIR_PA (bmem s2) (0xffffffc050000000 + of_nat off) = kva2pa (0xffffffc050000000 + of_nat off)) \<and>
    (\<forall>off<2 ^ 24. sv39 PGDIR_PA (bmem s1) (0x50000000 + of_nat off) = Some (0x50000000 + of_nat off)
       \<and> sv39 PGDIR_PA (bmem s2) (0x50000000 + of_nat off) = None)"
proof -
  obtain s1 where s1: "setup_vm s = Some s1" "reset_tables 0 s1"
    using setup_vm_tables [OF assms] boot_reset_tables by blast
  obtain s2 where s2: "reset_boot_vm s1 = Some s2" "reset_tables 8 s2"
    using unmap_boot_tables [OF s1(2), of 8] by (auto simp: reset_boot_vm_def)
  from sv39_boot [OF s1(2)] sv39_boot [OF s2(2)] s1(1) s2(1) sv39_kernel [OF s1(2)] sv39_kernel [OF s2(2)]
  show ?thesis by (intro exI [of _ s1] exI [of _ s2] conjI allI impI; simp)
qed

theorem boot_mapping_witness:
  "\<exists>s1 s2. setup_vm \<lparr>bmem = (\<lambda>_. 0xdead), pg_base = PGDIR_PA, bsatp = 0\<rparr> = Some s1 \<and>
     reset_boot_vm s1 = Some s2 \<and> sv39 PGDIR_PA (bmem s2) 0x50000000 = None"
  using boot_mapping [of "\<lparr>bmem = (\<lambda>_. 0xdead), pg_base = PGDIR_PA, bsatp = 0\<rparr>"]
  by (auto dest!: spec [of _ "0 :: nat"])

end
