(* ===== verification/Sched.thy ===== *)
theory Sched
  imports Intrusive_List PgTable
begin

unbundle bit_operations_syntax

text \<open>
  The process table and the scheduler: \<open>kernel/sched/sched.cpp\<close> (table, queues,
  \<open>pick_process\<close>, \<open>do_scheduler\<close>, \<open>do_sleep\<close>, \<open>do_block\<close>, \<open>do_unblock\<close>), the sleeping
  list of \<open>kernel/sched/time.c\<close>, and \<open>set_proc_affinity\<close> of \<open>kernel/sched/task.c\<close>.

  \<^item> A process is the index of its control block in \<open>pcb_all\<close>: \<open>0\<close> and \<open>1\<close> are the
    kernel processes of the two harts, \<open>2\<close> to \<open>33\<close> the user slots.
  \<^item> \<open>queues\<close> are the lists a \<open>sched_node\<close> can be in, at the level of the list
    specification of \<open>Intrusive_List\<close>; \<open>children\<close> the lists of the \<open>relation_node\<close>s.
  \<^item> \<open>currents h\<close> is \<open>current_running\<close> (the register \<open>tp\<close>) of hart \<open>h\<close>, and \<open>hart\<close> the
    hart that holds the kernel lock. Kernel code runs under that lock, so it is atomic
    up to the \<open>switch_to\<close> in \<open>do_scheduler\<close>: \<open>do_scheduler\<close> is the code before the
    switch; what the next process does after it (taking the lock again, its cursor and \<open>cpu\<close>
    field) is outside the model.
  \<^item> \<open>ticks\<close> is what \<open>rdtime\<close> reads.
\<close>

section \<open>State\<close>

datatype task_status = TASK_BLOCKED | TASK_RUNNING | TASK_READY | TASK_EXITED | TASK_KILLED

record pcb =
  p_pid :: int
  p_status :: task_status
  p_wakeup_time :: u64
  p_task_id :: int
  p_task_workload :: int
  p_slice_cnt :: int
  p_nice :: int
  p_affinity :: u32
  p_cpu :: nat
  p_cursor :: "int \<times> int"
  p_parent :: "nat option"
  p_pgdir :: u64
  p_cwd :: int

text \<open>The lists of the kernel that hold \<open>sched_node\<close>s.\<close>

datatype mutex_ref = Mlock nat | Mbox_lock nat
datatype cond_ref = Cond nat | Mbox_empty nat | Mbox_full nat

datatype chan =
    Ready_queue | Sleep_queue | Wait_list nat
  | Mutex_list mutex_ref | Cond_list cond_ref | Sema_list nat | Barrier_list nat
  | Pipe_list nat | Send_queue | Recv_queue

record sched_state =
  pcbs :: "nat \<Rightarrow> pcb"
  queues :: "(chan, nat) lists"
  children :: "(nat, nat) lists"
  currents :: "nat \<Rightarrow> nat"
  hart :: nat
  process_id :: int
  time_slice_history :: "nat option list"
  time_slice_history_index :: nat
  min_task_id :: int
  min_slice_cnt :: int
  ticks :: u64
  time_base :: u64
  satp :: u64

definition NR_CPUS :: nat where "NR_CPUS = 2"
definition NUM_MAX_TASK :: nat where "NUM_MAX_TASK = 32"
definition NUM_MAX_PCB :: nat where "NUM_MAX_PCB = NUM_MAX_TASK + NR_CPUS"
definition TIME_SLICE_HISTORY_SIZE :: nat where "TIME_SLICE_HISTORY_SIZE = 100 * NR_CPUS"

abbreviation current_running :: "('a) sched_state_scheme \<Rightarrow> nat" where
  "current_running s \<equiv> currents s (hart s)"

definition upd_pcb :: "nat \<Rightarrow> (pcb \<Rightarrow> pcb) \<Rightarrow> ('a) sched_state_scheme \<Rightarrow> ('a) sched_state_scheme" where
  "upd_pcb p f s = s\<lparr>pcbs := (pcbs s)(p := f (pcbs s p))\<rparr>"

definition set_status :: "nat \<Rightarrow> task_status \<Rightarrow> ('a) sched_state_scheme \<Rightarrow> ('a) sched_state_scheme" where
  "set_status p st s = upd_pcb p (p_status_update (\<lambda>_. st)) s"

definition upd_queues ::
  "((chan, nat) lists \<Rightarrow> (chan, nat) lists) \<Rightarrow> ('a) sched_state_scheme \<Rightarrow> ('a) sched_state_scheme" where
  "upd_queues f s = s\<lparr>queues := f (queues s)\<rparr>"

section \<open>The process table\<close>

definition alloc_pcb :: "('a) sched_state_scheme \<Rightarrow> nat option" where
  "alloc_pcb s = find (\<lambda>i. p_status (pcbs s i) = TASK_EXITED) [NR_CPUS..<NUM_MAX_PCB]"

definition find_pcb :: "int \<Rightarrow> ('a) sched_state_scheme \<Rightarrow> nat option option" where
  "find_pcb pid s =
     (if pid < 0 then Some None
      else if pid < int NR_CPUS
      then do { asserts (p_pid (pcbs s (nat pid)) = pid); Some (Some (nat pid)) }
      else Some (find (\<lambda>i. p_pid (pcbs s i) = pid \<and> p_status (pcbs s i) \<noteq> TASK_EXITED)
                   [NR_CPUS..<NUM_MAX_PCB]))"

text \<open>\<open>pcb_all\<close> is filled in index order by \<open>init_pcb\<close>, so the index of a found block is itself.\<close>

definition get_pcb_index :: "int \<Rightarrow> ('a) sched_state_scheme \<Rightarrow> nat option" where
  "get_pcb_index pid s = do {
     p \<leftarrow> find_pcb pid s;
     asserts (p \<noteq> None);
     find (\<lambda>i. Some i = p) [0..<NUM_MAX_PCB]
   }"

definition free_pcb :: "nat \<Rightarrow> ('a) sched_state_scheme \<Rightarrow> (('a) sched_state_scheme) option" where
  "free_pcb p s = do {
     asserts (p_pid (pcbs s p) \<ge> int NR_CPUS);
     Some (set_status p TASK_EXITED s)
   }"

section \<open>Choosing the next process\<close>

definition normalized_cnt :: "pcb \<Rightarrow> int" where
  "normalized_cnt p =
     c_div (c_div (p_slice_cnt p) (p_task_workload p + 1) * (10 + p_nice p)) 10"

definition update_by_first ::
  "nat option \<Rightarrow> nat \<Rightarrow> ('a) sched_state_scheme \<Rightarrow> bool \<times> ('a) sched_state_scheme" where
  "update_by_first selected nx s = (selected = None, s)"

definition update_by_consumption_init :: "('a) sched_state_scheme \<Rightarrow> ('a) sched_state_scheme" where
  "update_by_consumption_init s = s\<lparr>min_task_id := 0x7f7f7f7f, min_slice_cnt := 0x7f7f7f7f\<rparr>"

definition update_by_consumption ::
  "nat option \<Rightarrow> nat \<Rightarrow> ('a) sched_state_scheme \<Rightarrow> bool \<times> ('a) sched_state_scheme" where
  "update_by_consumption selected proc s =
     (let p = pcbs s proc; cnt = normalized_cnt p
      in if p_task_id p < min_task_id s
         then (True, s\<lparr>min_task_id := p_task_id p, min_slice_cnt := cnt\<rparr>)
         else if p_task_id p = min_task_id s
         then if cnt < min_slice_cnt s then (True, s\<lparr>min_slice_cnt := cnt\<rparr>) else (False, s)
         else (False, s))"

definition filter_affinity :: "('a) sched_state_scheme \<Rightarrow> nat \<Rightarrow> bool" where
  "filter_affinity s proc \<longleftrightarrow> p_affinity (pcbs s proc) AND push_bit (hart s) 1 \<noteq> 0"

definition filterout_kernel :: "('a) sched_state_scheme \<Rightarrow> nat \<Rightarrow> bool" where
  "filterout_kernel s proc \<longleftrightarrow>
     (if p_pid (pcbs s proc) < int NR_CPUS then False else filter_affinity s proc)"

primrec pick_loop ::
  "(('a) sched_state_scheme \<Rightarrow> nat \<Rightarrow> bool) \<Rightarrow>
   (nat option \<Rightarrow> nat \<Rightarrow> ('a) sched_state_scheme \<Rightarrow> bool \<times> ('a) sched_state_scheme) \<Rightarrow>
   nat list \<Rightarrow> nat option \<Rightarrow> ('a) sched_state_scheme \<Rightarrow> nat option \<times> ('a) sched_state_scheme" where
  "pick_loop fil upd [] selected s = (selected, s)"
| "pick_loop fil upd (nx # rest) selected s =
     (if \<not> fil s nx then pick_loop fil upd rest selected s
      else case upd selected nx s of
             (b, s') \<Rightarrow> pick_loop fil upd rest (if b then Some nx else selected) s')"

definition pick_process_impl ::
  "chan \<Rightarrow> (('a) sched_state_scheme \<Rightarrow> nat \<Rightarrow> bool) \<Rightarrow>
   (('a) sched_state_scheme \<Rightarrow> ('a) sched_state_scheme) \<Rightarrow>
   (nat option \<Rightarrow> nat \<Rightarrow> ('a) sched_state_scheme \<Rightarrow> bool \<times> ('a) sched_state_scheme) \<Rightarrow>
   ('a) sched_state_scheme \<Rightarrow> nat option \<times> ('a) sched_state_scheme" where
  "pick_process_impl queue fil init upd s =
     (let s' = init s in pick_loop fil upd (items (queues s') queue) None s')"

definition record_slice :: "nat \<Rightarrow> ('a) sched_state_scheme \<Rightarrow> ('a) sched_state_scheme" where
  "record_slice proc s =
     (let i = time_slice_history_index s;
          s1 = (case time_slice_history s ! i of
                  Some old \<Rightarrow> upd_pcb old (p_slice_cnt_update (\<lambda>c. c - 1)) s
                | None \<Rightarrow> s);
          s2 = s1\<lparr>time_slice_history := (time_slice_history s1)[i := Some proc]\<rparr>;
          s3 = upd_pcb proc (p_slice_cnt_update (\<lambda>c. c + 1)) s2
      in s3\<lparr>time_slice_history_index := (i + 1) mod TIME_SLICE_HISTORY_SIZE\<rparr>)"

definition pick_process :: "('a) sched_state_scheme \<Rightarrow> (nat \<times> ('a) sched_state_scheme) option" where
  "pick_process s = do {
     let (proc, s1) = pick_process_impl Ready_queue filterout_kernel update_by_consumption_init
                        update_by_consumption s;
     let (proc', s2) = (if proc = None
                        then pick_process_impl Ready_queue filter_affinity id update_by_first s1
                        else (proc, s1));
     sel \<leftarrow> proc';
     Some (sel, record_slice sel s2)
   }"

section \<open>Sleeping, blocking and switching\<close>

definition get_timer :: "('a) sched_state_scheme \<Rightarrow> u64 option" where
  "get_timer s = do { asserts (time_base s \<noteq> 0); Some (ticks s div time_base s) }"

text \<open>The loop of \<open>check_sleeping\<close>: the successor is read before a node is moved away.\<close>

primrec wake_sleepers ::
  "u64 \<Rightarrow> nat list \<Rightarrow> ('a) sched_state_scheme \<Rightarrow> (('a) sched_state_scheme) option" where
  "wake_sleepers now [] s = Some s"
| "wake_sleepers now (p # ps) s =
     (if now \<ge> p_wakeup_time (pcbs s p)
      then do {
        q \<leftarrow> lists_delete p (queues s);
        wake_sleepers now ps (s\<lparr>queues := lists_append Ready_queue p q\<rparr>)
      }
      else wake_sleepers now ps s)"

definition check_sleeping :: "('a) sched_state_scheme \<Rightarrow> (('a) sched_state_scheme) option" where
  "check_sleeping s = do {
     now \<leftarrow> get_timer s;
     wake_sleepers now (items (queues s) Sleep_queue) s
   }"

definition do_scheduler :: "('a) sched_state_scheme \<Rightarrow> (('a) sched_state_scheme) option" where
  "do_scheduler s0 = do {
     s1 \<leftarrow> check_sleeping s0;
     let p = current_running s1;
     let s2 = (if p_status (pcbs s1 p) = TASK_RUNNING
               then upd_queues (lists_append Ready_queue p) (set_status p TASK_READY s1)
               else s1);
     (nx, s3) \<leftarrow> pick_process s2;
     q \<leftarrow> lists_delete nx (queues s3);
     let s4 = set_status nx TASK_RUNNING (s3\<lparr>queues := q\<rparr>);
     pa \<leftarrow> kva2pa (p_pgdir (pcbs s4 nx));
     let s5 = s4\<lparr>satp := satp_value 8 (ucast (of_int (p_pid (pcbs s4 nx)) :: u32))
                             (drop_bit NORMAL_PAGE_SHIFT pa)\<rparr>;
     Some (s5\<lparr>currents := (currents s5)(hart s5 := nx)\<rparr>)
   }"

definition do_block :: "nat \<Rightarrow> chan \<Rightarrow> ('a) sched_state_scheme \<Rightarrow> (('a) sched_state_scheme) option" where
  "do_block p queue s =
     (if p_status (pcbs s p) = TASK_BLOCKED then Some s
      else do {
        asserts (cont (queues s) p = None);
        Some (upd_queues (lists_append queue p) (set_status p TASK_BLOCKED s))
      })"

definition do_unblock :: "nat \<Rightarrow> ('a) sched_state_scheme \<Rightarrow> ('a) sched_state_scheme" where
  "do_unblock p s = upd_queues (lists_append Ready_queue p) (set_status p TASK_READY s)"

primrec unblock_nodes :: "nat list \<Rightarrow> ('a) sched_state_scheme \<Rightarrow> (('a) sched_state_scheme) option" where
  "unblock_nodes [] s = Some s"
| "unblock_nodes (p # ps) s = do {
     q \<leftarrow> lists_delete p (queues s);
     unblock_nodes ps (do_unblock p (s\<lparr>queues := q\<rparr>))
   }"

definition unblock_list :: "chan \<Rightarrow> ('a) sched_state_scheme \<Rightarrow> (('a) sched_state_scheme) option" where
  "unblock_list queue s = unblock_nodes (items (queues s) queue) s"

definition do_sleep :: "u32 \<Rightarrow> ('a) sched_state_scheme \<Rightarrow> (('a) sched_state_scheme) option" where
  "do_sleep sleep_time s = do {
     now \<leftarrow> get_timer s;
     let p = current_running s;
     let s1 = upd_pcb p (p_wakeup_time_update (\<lambda>_. now + ucast sleep_time)) s;
     s2 \<leftarrow> do_block p Sleep_queue s1;
     do_scheduler s2
   }"

section \<open>Scheduling parameters\<close>

definition set_process_workload :: "int \<Rightarrow> ('a) sched_state_scheme \<Rightarrow> ('a) sched_state_scheme" where
  "set_process_workload workload s =
     (let p = current_running s;
          s1 = (if workload > p_task_workload (pcbs s p)
                then upd_pcb p (p_task_id_update (\<lambda>t. t + 1)) s else s)
      in upd_pcb p (p_task_workload_update (\<lambda>_. workload)) s1)"

definition set_process_nice ::
  "int \<Rightarrow> int \<Rightarrow> ('a) sched_state_scheme \<Rightarrow> (int \<times> ('a) sched_state_scheme) option" where
  "set_process_nice nice pid s =
     (if nice < 0 then Some (-1, s)
      else do {
        p \<leftarrow> find_pcb pid s;
        case p of
          None \<Rightarrow> Some (-1, s)
        | Some i \<Rightarrow> Some (0, upd_pcb i (p_nice_update (\<lambda>_. nice)) s)
      })"

definition set_proc_affinity ::
  "nat \<Rightarrow> u32 \<Rightarrow> ('a) sched_state_scheme \<Rightarrow> int \<times> ('a) sched_state_scheme" where
  "set_proc_affinity p affinity_mask s =
     (let valid_mask = push_bit NR_CPUS 1 - 1 :: u32
      in if affinity_mask AND valid_mask = 0 then (1, s)
         else (0, upd_pcb p (p_affinity_update (\<lambda>_. affinity_mask AND valid_mask)) s))"

section \<open>Start of the harts\<close>

definition kernel_pcb :: "nat \<Rightarrow> pcb" where
  "kernel_pcb i =
     \<lparr>p_pid = int i, p_status = TASK_READY, p_wakeup_time = 0, p_task_id = 0, p_task_workload = 0,
      p_slice_cnt = 0, p_nice = 0, p_affinity = push_bit i 1, p_cpu = 0, p_cursor = (0, 0),
      p_parent = None, p_pgdir = PGDIR_VA, p_cwd = 0\<rparr>"

text \<open>The tail of \<open>init_pcb\<close> and, for the second hart, of \<open>main\<close>.\<close>

definition start_hart :: "nat \<Rightarrow> ('a) sched_state_scheme \<Rightarrow> ('a) sched_state_scheme" where
  "start_hart h s =
     (let s1 = s\<lparr>currents := (currents s)(h := h)\<rparr>;
          s2 = set_status h TASK_RUNNING s1
      in upd_pcb h (p_cpu_update (\<lambda>_. h)) s2)"

definition init_pcb :: "('a) sched_state_scheme \<Rightarrow> (('a) sched_state_scheme) option" where
  "init_pcb s = do {
     let s1 = s\<lparr>pcbs := (\<lambda>i. if i < NR_CPUS then kernel_pcb i
                            else if i < NUM_MAX_PCB then (pcbs s i)\<lparr>p_status := TASK_EXITED\<rparr>
                            else pcbs s i)\<rparr>;
     asserts (hart s1 = 0);
     Some (start_hart 0 s1)
   }"

text \<open>Zeroed memory, and the scheduler state once both harts run.\<close>

definition bss_sched :: sched_state where
  "bss_sched =
     \<lparr>pcbs = (\<lambda>_. (kernel_pcb 0)\<lparr>p_affinity := 0, p_pgdir := 0\<rparr>), queues = lists_empty,
      children = lists_empty, currents = (\<lambda>_. 0), hart = 0, process_id = int NR_CPUS,
      time_slice_history = replicate TIME_SLICE_HISTORY_SIZE None, time_slice_history_index = 0,
      min_task_id = 0x7f7f7f7f, min_slice_cnt = 0x7f7f7f7f, ticks = 0, time_base = 1, satp = 0\<rparr>"

definition boot_sched :: sched_state where
  "boot_sched = start_hart 1 (the (init_pcb bss_sched))"

section \<open>Queue operations in closed form\<close>

lemma upd_pcb_sel [simp]:
  "pcbs (upd_pcb p f s) = (pcbs s)(p := f (pcbs s p))" "queues (upd_pcb p f s) = queues s"
  "children (upd_pcb p f s) = children s" "currents (upd_pcb p f s) = currents s"
  "hart (upd_pcb p f s) = hart s" "time_slice_history (upd_pcb p f s) = time_slice_history s"
  "time_slice_history_index (upd_pcb p f s) = time_slice_history_index s"
  "min_task_id (upd_pcb p f s) = min_task_id s" "min_slice_cnt (upd_pcb p f s) = min_slice_cnt s"
  "ticks (upd_pcb p f s) = ticks s" "time_base (upd_pcb p f s) = time_base s"
  "process_id (upd_pcb p f s) = process_id s" "sched_state.more (upd_pcb p f s) = sched_state.more s"
  by (simp_all add: upd_pcb_def)

lemma set_status_sel [simp]:
  "pcbs (set_status p st s) = (pcbs s)(p := (pcbs s p)\<lparr>p_status := st\<rparr>)"
  "queues (set_status p st s) = queues s" "children (set_status p st s) = children s"
  "currents (set_status p st s) = currents s" "hart (set_status p st s) = hart s"
  "time_slice_history (set_status p st s) = time_slice_history s"
  "time_slice_history_index (set_status p st s) = time_slice_history_index s"
  "ticks (set_status p st s) = ticks s" "time_base (set_status p st s) = time_base s"
  "process_id (set_status p st s) = process_id s"
  "sched_state.more (set_status p st s) = sched_state.more s"
  by (simp_all add: set_status_def)

lemma upd_queues_sel [simp]:
  "queues (upd_queues f s) = f (queues s)" "pcbs (upd_queues f s) = pcbs s"
  "children (upd_queues f s) = children s" "currents (upd_queues f s) = currents s"
  "hart (upd_queues f s) = hart s" "time_slice_history (upd_queues f s) = time_slice_history s"
  "time_slice_history_index (upd_queues f s) = time_slice_history_index s"
  "ticks (upd_queues f s) = ticks s" "time_base (upd_queues f s) = time_base s"
  "process_id (upd_queues f s) = process_id s"
  "sched_state.more (upd_queues f s) = sched_state.more s"
  by (simp_all add: upd_queues_def)

abbreviation due :: "u64 \<Rightarrow> ('a) sched_state_scheme \<Rightarrow> nat \<Rightarrow> bool" where
  "due now s p \<equiv> now \<ge> p_wakeup_time (pcbs s p)"

lemma wake_sleepers_eq:
  assumes "lists_ok (queues s)" "set ps \<subseteq> set (items (queues s) Sleep_queue)" "distinct ps"
  shows "wake_sleepers now ps s =
    Some (s\<lparr>queues := lists_move Sleep_queue Ready_queue (filter (due now s) ps) (queues s)\<rparr>)"
  using assms
proof (induction ps arbitrary: s)
  case (Cons p ps)
  show ?case
  proof (cases "due now s p")
    case True
    let ?q = "lists_move Sleep_queue Ready_queue [p] (queues s)"
    have p: "p \<in> set (items (queues s) Sleep_queue)" using Cons.prems by simp
    obtain q where q: "lists_delete p (queues s) = Some q" "lists_append Ready_queue p q = ?q"
      using lists_move_one [OF Cons.prems(1) p, of Ready_queue] by auto
    have "wake_sleepers now ps (s\<lparr>queues := ?q\<rparr>) = Some (s\<lparr>queues :=
        lists_move Sleep_queue Ready_queue (filter (due now s) ps) ?q\<rparr>)"
      using Cons.IH [of "s\<lparr>queues := ?q\<rparr>"] Cons.prems lists_ok_move [OF Cons.prems(1), of "[p]"] p
      by (auto simp: lists_move_def)
    with True q show ?thesis by (simp add: lists_move_Cons)
  next
    case False
    then show ?thesis using Cons by simp
  qed
qed simp

lemma check_sleeping_eq:
  assumes "lists_ok (queues s)" "time_base s \<noteq> 0"
  shows "check_sleeping s = Some (s\<lparr>queues := lists_move Sleep_queue Ready_queue
    (filter (due (ticks s div time_base s) s) (items (queues s) Sleep_queue)) (queues s)\<rparr>)"
  using assms by (simp add: check_sleeping_def get_timer_def wake_sleepers_eq)

definition make_ready :: "nat set \<Rightarrow> (nat \<Rightarrow> pcb) \<Rightarrow> nat \<Rightarrow> pcb" where
  "make_ready P t = (\<lambda>p. if p \<in> P then (t p)\<lparr>p_status := TASK_READY\<rparr> else t p)"

lemma make_ready_single: "make_ready {p} t = t(p := (t p)\<lparr>p_status := TASK_READY\<rparr>)"
  by (auto simp: make_ready_def)

lemma unblock_nodes_eq:
  assumes "lists_ok (queues s)" "set ps \<subseteq> set (items (queues s) l)" "distinct ps" "l \<noteq> Ready_queue"
  shows "unblock_nodes ps s = Some (s\<lparr>pcbs := make_ready (set ps) (pcbs s),
    queues := lists_move l Ready_queue ps (queues s)\<rparr>)"
  using assms
proof (induction ps arbitrary: s)
  case Nil
  then show ?case by (simp add: make_ready_def)
next
  case (Cons p ps)
  let ?q = "lists_move l Ready_queue [p] (queues s)"
  let ?s = "s\<lparr>pcbs := make_ready {p} (pcbs s), queues := ?q\<rparr>"
  have p: "p \<in> set (items (queues s) l)" using Cons.prems by simp
  obtain q where q: "lists_delete p (queues s) = Some q" "lists_append Ready_queue p q = ?q"
    using lists_move_one [OF Cons.prems(1) p Cons.prems(4)] by auto
  have "do_unblock p (s\<lparr>queues := q\<rparr>) = ?s"
    using q(2) by (auto simp: do_unblock_def upd_queues_def set_status_def upd_pcb_def make_ready_single)
  moreover have "unblock_nodes ps ?s = Some (?s\<lparr>pcbs := make_ready (set ps) (pcbs ?s),
      queues := lists_move l Ready_queue ps (queues ?s)\<rparr>)"
    using Cons.prems lists_ok_move [OF Cons.prems(1), of "[p]" l Ready_queue] p
    by (intro Cons.IH) (auto simp: lists_move_def)
  moreover have "make_ready (set ps) (make_ready {p} (pcbs s)) = make_ready (set (p # ps)) (pcbs s)"
    by (auto simp: make_ready_def fun_eq_iff)
  ultimately show ?case using q(1) Cons.prems(4) by (simp add: lists_move_Cons)
qed

lemma unblock_list_eq:
  assumes "lists_ok (queues s)" "l \<noteq> Ready_queue"
  shows "unblock_list l s = Some (s\<lparr>pcbs := make_ready (set (items (queues s) l)) (pcbs s),
    queues := lists_move l Ready_queue (items (queues s) l) (queues s)\<rparr>)"
  using assms by (simp add: unblock_list_def unblock_nodes_eq)

text \<open>
  C13. \<open>check_sleeping\<close> wakes exactly the sleepers whose time has come: in their order they leave
  the sleep queue for the end of the ready queue, the others stay, and nothing else changes.
\<close>

theorem check_sleeping_wakes:
  assumes "lists_ok (queues s)" "time_base s \<noteq> 0"
  shows "\<exists>q. check_sleeping s = Some (s\<lparr>queues := q\<rparr>) \<and> lists_ok q \<and>
    items q Ready_queue = items (queues s) Ready_queue @
      filter (\<lambda>p. p_wakeup_time (pcbs s p) \<le> ticks s div time_base s) (items (queues s) Sleep_queue) \<and>
    items q Sleep_queue =
      filter (\<lambda>p. \<not> p_wakeup_time (pcbs s p) \<le> ticks s div time_base s) (items (queues s) Sleep_queue) \<and>
    (\<forall>l. l \<noteq> Ready_queue \<longrightarrow> l \<noteq> Sleep_queue \<longrightarrow> items q l = items (queues s) l)"
proof -
  let ?ps = "filter (due (ticks s div time_base s) s) (items (queues s) Sleep_queue)"
  have "lists_ok (lists_move Sleep_queue Ready_queue ?ps (queues s))"
    using assms by (intro lists_ok_move) auto
  then show ?thesis
    using check_sleeping_eq [OF assms]
    by (auto simp: lists_move_def intro!: filter_cong)
qed

theorem check_sleeping_wakes_witness:
  "\<exists>q. check_sleeping (bss_sched\<lparr>queues := lists_append Sleep_queue 3 lists_empty\<rparr>)
     = Some (bss_sched\<lparr>queues := q\<rparr>) \<and> items q Ready_queue = [3] \<and> items q Sleep_queue = []"
proof -
  have "lists_ok (lists_append Sleep_queue (3 :: nat) lists_empty)"
    by (intro lists_ok_append lists_ok_empty)
  then show ?thesis
    using check_sleeping_wakes [of "bss_sched\<lparr>queues := lists_append Sleep_queue 3 lists_empty\<rparr>"]
    by (auto simp: bss_sched_def lists_append_def lists_empty_def kernel_pcb_def)
qed

section \<open>The choice of \<open>pick_process\<close>\<close>

text \<open>The order of the scheduler: the smaller task id first, then the smaller normalised share.\<close>

definition sched_key :: "pcb \<Rightarrow> int \<times> int" where
  "sched_key p = (p_task_id p, normalized_cnt p)"

fun key_less :: "int \<times> int \<Rightarrow> int \<times> int \<Rightarrow> bool" where
  "key_less (a, b) (c, d) \<longleftrightarrow> a < c \<or> (a = c \<and> b < d)"

lemma key_less_trans: "key_less x y \<Longrightarrow> key_less y z \<Longrightarrow> key_less x z"
  by (cases x; cases y; cases z) auto

lemma key_not_less_trans: "key_less x y \<Longrightarrow> \<not> key_less z y \<Longrightarrow> \<not> key_less z x"
  using key_less_trans by blast

lemma update_by_consumption_eq:
  "update_by_consumption sel p s =
     (if key_less (sched_key (pcbs s p)) (min_task_id s, min_slice_cnt s)
      then (True, s\<lparr>min_task_id := fst (sched_key (pcbs s p)), min_slice_cnt := snd (sched_key (pcbs s p))\<rparr>)
      else (False, s))"
  by (simp add: update_by_consumption_def sched_key_def Let_def)

abbreviation with_min :: "('a) sched_state_scheme \<Rightarrow> int \<times> int \<Rightarrow> ('a) sched_state_scheme" where
  "with_min s m \<equiv> s\<lparr>min_task_id := fst m, min_slice_cnt := snd m\<rparr>"

lemma filterout_kernel_with_min [simp]:
  "filterout_kernel (with_min s m) = filterout_kernel s" "filter_affinity (with_min s m) = filter_affinity s"
  by (auto simp: filterout_kernel_def filter_affinity_def fun_eq_iff)

text \<open>\<open>r\<close> is the best eligible process of \<open>xs\<close> below the bound \<open>m\<close>, or \<open>sel\<close> if there is none.\<close>

definition best_of ::
  "('a) sched_state_scheme \<Rightarrow> nat list \<Rightarrow> nat option \<Rightarrow> int \<times> int \<Rightarrow> nat option \<Rightarrow> bool" where
  "best_of s xs sel m r \<longleftrightarrow>
     (r = sel \<and> (\<forall>q\<in>set xs. filterout_kernel s q \<longrightarrow> \<not> key_less (sched_key (pcbs s q)) m)) \<or>
     (\<exists>p\<in>set xs. filterout_kernel s p \<and> r = Some p \<and> key_less (sched_key (pcbs s p)) m \<and>
        (\<forall>q\<in>set xs. filterout_kernel s q \<longrightarrow> \<not> key_less (sched_key (pcbs s q)) (sched_key (pcbs s p))))"

lemma best_of_skip:
  assumes "best_of s xs sel m r" "\<not> (filterout_kernel s x \<and> key_less (sched_key (pcbs s x)) m)"
  shows "best_of s (x # xs) sel m r"
  using assms(1) unfolding best_of_def
proof (elim disjE bexE conjE)
  fix p assume p: "p \<in> set xs" "filterout_kernel s p" "r = Some p" "key_less (sched_key (pcbs s p)) m"
    and min: "\<forall>q\<in>set xs. filterout_kernel s q \<longrightarrow> \<not> key_less (sched_key (pcbs s q)) (sched_key (pcbs s p))"
  have "filterout_kernel s x \<longrightarrow> \<not> key_less (sched_key (pcbs s x)) (sched_key (pcbs s p))"
    using assms(2) key_less_trans [OF _ p(4)] by blast
  with p min show "(r = sel \<and> (\<forall>q\<in>set (x # xs). filterout_kernel s q \<longrightarrow> \<not> key_less (sched_key (pcbs s q)) m)) \<or>
     (\<exists>p\<in>set (x # xs). filterout_kernel s p \<and> r = Some p \<and> key_less (sched_key (pcbs s p)) m \<and>
        (\<forall>q\<in>set (x # xs). filterout_kernel s q \<longrightarrow> \<not> key_less (sched_key (pcbs s q)) (sched_key (pcbs s p))))"
    by auto
qed (use assms(2) in simp)

lemma best_of_take:
  assumes "best_of s xs (Some x) (sched_key (pcbs s x)) r" "filterout_kernel s x" "key_less (sched_key (pcbs s x)) m"
  shows "best_of s (x # xs) sel m r"
proof -
  have irr: "\<not> key_less k k" for k by (cases k) simp
  obtain p where p: "p \<in> set (x # xs)" "filterout_kernel s p" "r = Some p"
      "p = x \<or> key_less (sched_key (pcbs s p)) (sched_key (pcbs s x))"
      "\<forall>q\<in>set xs. filterout_kernel s q \<longrightarrow> \<not> key_less (sched_key (pcbs s q)) (sched_key (pcbs s p))"
    using assms(1,2) unfolding best_of_def by auto
  have "key_less (sched_key (pcbs s p)) m" using p(4) assms(3) key_less_trans by blast
  moreover have "\<not> key_less (sched_key (pcbs s x)) (sched_key (pcbs s p))"
    using p(4) irr key_less_trans by blast
  ultimately show ?thesis unfolding best_of_def using p(1,2,3,5) by auto
qed

lemma pick_consumption:
  fixes s :: "('a) sched_state_scheme"
  shows "\<exists>r m'. pick_loop filterout_kernel update_by_consumption xs sel (with_min s m) = (r, with_min s m')
    \<and> best_of s xs sel m r"
proof (induction xs arbitrary: sel m)
  case Nil
  then show ?case by (intro exI [of _ sel] exI [of _ m]) (simp add: best_of_def)
next
  case (Cons x xs)
  show ?case
  proof (cases "filterout_kernel s x \<and> key_less (sched_key (pcbs s x)) m")
    case False
    then have "pick_loop filterout_kernel update_by_consumption (x # xs) sel (with_min s m) =
        pick_loop filterout_kernel update_by_consumption xs sel (with_min s m)"
      by (simp add: update_by_consumption_eq)
    then show ?thesis using Cons.IH [of sel m] best_of_skip [OF _ False] by metis
  next
    case True
    have "pick_loop filterout_kernel update_by_consumption (x # xs) sel (with_min s m) =
        pick_loop filterout_kernel update_by_consumption xs (Some x) (with_min s (sched_key (pcbs s x)))"
      using True by (simp add: update_by_consumption_eq)
    then show ?thesis
      using Cons.IH [of "Some x" "sched_key (pcbs s x)"] best_of_take [where s = s and x = x and m = m] True
      by metis
  qed
qed

lemma pick_first:
  "pick_loop filter_affinity update_by_first xs sel s =
     (case sel of Some p \<Rightarrow> Some p | None \<Rightarrow> find (filter_affinity s) xs, s)"
  by (induction xs arbitrary: sel) (auto simp: update_by_first_def split: option.splits)

lemma pick_process_choice:
  obtains (user) p m where
    "best_of s (items (queues s) Ready_queue) None (0x7f7f7f7f, 0x7f7f7f7f) (Some p)"
    "pick_process s = Some (p, record_slice p (with_min s m))"
  | (idle) m where "best_of s (items (queues s) Ready_queue) None (0x7f7f7f7f, 0x7f7f7f7f) None"
    "pick_process s = map_option (\<lambda>p. (p, record_slice p (with_min s m)))
       (find (filter_affinity s) (items (queues s) Ready_queue))"
proof -
  obtain r m where r: "pick_process_impl Ready_queue filterout_kernel update_by_consumption_init
        update_by_consumption s = (r, with_min s m)"
      "best_of s (items (queues s) Ready_queue) None (0x7f7f7f7f, 0x7f7f7f7f) r"
    using pick_consumption [where xs = "items (queues s) Ready_queue" and sel = None and s = s
        and m = "(0x7f7f7f7f, 0x7f7f7f7f)"]
    by (auto simp: pick_process_impl_def update_by_consumption_init_def)
  show thesis
  proof (cases r)
    case None
    then have "pick_process s = map_option (\<lambda>p. (p, record_slice p (with_min s m)))
       (find (filter_affinity s) (items (queues s) Ready_queue))"
      using r(1) pick_first [of "items (queues s) Ready_queue" None "with_min s m"]
      by (simp add: pick_process_def pick_process_impl_def Let_def map_conv_bind_option comp_def)
    with r(2) None that(2) show thesis by simp
  next
    case (Some p)
    then have "pick_process s = Some (p, record_slice p (with_min s m))"
      using r(1) by (simp add: pick_process_def)
    with r(2) Some that(1) show thesis by simp
  qed
qed



section \<open>Accounting of time slices\<close>

definition slice_inv :: "('a) sched_state_scheme \<Rightarrow> bool" where
  "slice_inv s \<longleftrightarrow> length (time_slice_history s) = TIME_SLICE_HISTORY_SIZE \<and>
     time_slice_history_index s < TIME_SLICE_HISTORY_SIZE \<and>
     (\<forall>p. p_slice_cnt (pcbs s p) = int (count_list (time_slice_history s) (Some p)))"

lemma record_slice_sel [simp]:
  "queues (record_slice p s) = queues s" "currents (record_slice p s) = currents s"
  "hart (record_slice p s) = hart s" "children (record_slice p s) = children s"
  "time_base (record_slice p s) = time_base s" "ticks (record_slice p s) = ticks s"
  "process_id (record_slice p s) = process_id s"
  "length (time_slice_history (record_slice p s)) = length (time_slice_history s)"
  "sched_state.more (record_slice p s) = sched_state.more s"
  "time_slice_history_index (record_slice p s) < TIME_SLICE_HISTORY_SIZE"
  by (auto simp: record_slice_def Let_def TIME_SLICE_HISTORY_SIZE_def NR_CPUS_def split: option.splits)

lemma record_slice_pcb [simp]:
  "p_status (pcbs (record_slice p s) q) = p_status (pcbs s q)"
  "p_pid (pcbs (record_slice p s) q) = p_pid (pcbs s q)"
  "p_affinity (pcbs (record_slice p s) q) = p_affinity (pcbs s q)"
  "p_pgdir (pcbs (record_slice p s) q) = p_pgdir (pcbs s q)"
  "p_parent (pcbs (record_slice p s) q) = p_parent (pcbs s q)"
  "p_wakeup_time (pcbs (record_slice p s) q) = p_wakeup_time (pcbs s q)"
  by (auto simp: record_slice_def Let_def split: option.splits)

lemma slice_inv_record:
  assumes i: "slice_inv s"
  shows "slice_inv (record_slice p s)"
proof -
  let ?h = "time_slice_history s" and ?i = "time_slice_history_index s"
  have l: "?i < length ?h" using i by (simp add: slice_inv_def)
  have "p_slice_cnt (pcbs (record_slice p s) q) =
      p_slice_cnt (pcbs s q) - (if ?h ! ?i = Some q then 1 else 0) + (if Some p = Some q then 1 else 0)" for q
    by (auto simp: record_slice_def Let_def split: option.splits)
  moreover have "time_slice_history (record_slice p s) = ?h[?i := Some p]"
    by (auto simp: record_slice_def Let_def split: option.splits)
  ultimately show ?thesis
    using i count_list_update [OF l, of "Some p"] record_slice_sel(8,10) [of p s]
    unfolding slice_inv_def by (simp del: option.inject)
qed


lemmas boot_defs = boot_sched_def init_pcb_def start_hart_def bss_sched_def kernel_pcb_def Let_def


section \<open>The scheduler invariant\<close>

definition active :: "task_status \<Rightarrow> bool" where
  "active st \<longleftrightarrow> st = TASK_RUNNING \<or> st = TASK_KILLED"

text \<open>
  The process table: a process is in a queue unless it runs or its slot is free; every process
  has a page directory in kernel memory; the kernel process of a hart is allowed on that hart
  only, and it runs or is in the ready queue.
\<close>

definition pids_ok :: "('a) sched_state_scheme \<Rightarrow> bool" where
  "pids_ok s \<longleftrightarrow>
     (\<forall>p<NUM_MAX_PCB. NR_CPUS \<le> p \<longrightarrow> p_status (pcbs s p) \<noteq> TASK_EXITED \<longrightarrow>
        int NR_CPUS \<le> p_pid (pcbs s p) \<and> p_pid (pcbs s p) < process_id s) \<and>
     inj_on (\<lambda>p. p_pid (pcbs s p)) {p. p < NUM_MAX_PCB \<and> NR_CPUS \<le> p \<and> p_status (pcbs s p) \<noteq> TASK_EXITED}"

lemma pids_ok_cong:
  assumes "\<And>p. p < NUM_MAX_PCB \<Longrightarrow> p_pid (pcbs s' p) = p_pid (pcbs s p)" "process_id s' = process_id s"
    "\<And>p. p < NUM_MAX_PCB \<Longrightarrow> p_status (pcbs s' p) = TASK_EXITED \<longleftrightarrow> p_status (pcbs s p) = TASK_EXITED"
  shows "pids_ok s' \<longleftrightarrow> pids_ok s"
  using assms unfolding pids_ok_def inj_on_def by auto

definition table_inv :: "('a) sched_state_scheme \<Rightarrow> bool" where
  "table_inv s \<longleftrightarrow> pids_ok s \<and> lists_ok (queues s) \<and> time_base s \<noteq> 0 \<and> hart s < NR_CPUS \<and>
     (\<forall>p. cont (queues s) p \<noteq> None \<longrightarrow> p < NUM_MAX_PCB) \<and>
     (\<forall>p<NUM_MAX_PCB. cont (queues s) p = None \<longleftrightarrow>
        active (p_status (pcbs s p)) \<or> p_status (pcbs s p) = TASK_EXITED) \<and>
     (\<forall>p<NUM_MAX_PCB. p_status (pcbs s p) \<noteq> TASK_EXITED \<longrightarrow> kva2pa (p_pgdir (pcbs s p)) \<noteq> None) \<and>
     (\<forall>h<NR_CPUS. p_pid (pcbs s h) = int h \<and> p_affinity (pcbs s h) = push_bit h 1 \<and>
        (p_status (pcbs s h) = TASK_RUNNING \<or>
         p_status (pcbs s h) = TASK_READY \<and> cont (queues s) h = Some Ready_queue))"

text \<open>
  The harts: they run different processes; the process of every hart that is not inside the
  kernel is running or marked as killed, and no other process is.
\<close>

definition harts_inv :: "('a) sched_state_scheme \<Rightarrow> bool" where
  "harts_inv s \<longleftrightarrow> inj_on (currents s) {..<NR_CPUS} \<and>
     (\<forall>h<NR_CPUS. currents s h < NUM_MAX_PCB \<and> (currents s h < NR_CPUS \<longrightarrow> currents s h = h) \<and>
        (h \<noteq> hart s \<longrightarrow> active (p_status (pcbs s (currents s h))))) \<and>
     (\<forall>p<NUM_MAX_PCB. active (p_status (pcbs s p)) \<longrightarrow> (\<exists>h<NR_CPUS. currents s h = p))"

lemma table_invD:
  assumes "table_inv s"
  shows "lists_ok (queues s)" "time_base s \<noteq> 0" "hart s < NR_CPUS"
    "\<And>p. cont (queues s) p \<noteq> None \<Longrightarrow> p < NUM_MAX_PCB"
    "\<And>p. p < NUM_MAX_PCB \<Longrightarrow> cont (queues s) p = None \<longleftrightarrow>
        active (p_status (pcbs s p)) \<or> p_status (pcbs s p) = TASK_EXITED"
    "\<And>p. p < NUM_MAX_PCB \<Longrightarrow> p_status (pcbs s p) \<noteq> TASK_EXITED \<Longrightarrow> kva2pa (p_pgdir (pcbs s p)) \<noteq> None"
    "\<And>h. h < NR_CPUS \<Longrightarrow> p_affinity (pcbs s h) = push_bit h 1"
    "\<And>h. h < NR_CPUS \<Longrightarrow> p_status (pcbs s h) = TASK_RUNNING \<or>
         p_status (pcbs s h) = TASK_READY \<and> cont (queues s) h = Some Ready_queue"
  using assms unfolding table_inv_def by auto

lemma table_inv_check_sleeping:
  assumes i: "table_inv s"
  obtains q where "check_sleeping s = Some (s\<lparr>queues := q\<rparr>)" "table_inv (s\<lparr>queues := q\<rparr>)"
    "\<And>p. cont (queues s) p = None \<longleftrightarrow> cont q p = None"
proof -
  let ?ps = "filter (due (ticks s div time_base s) s) (items (queues s) Sleep_queue)"
  let ?q = "lists_move Sleep_queue Ready_queue ?ps (queues s)"
  note ok = table_invD(1) [OF i]
  have "lists_ok ?q" using ok by (intro lists_ok_move) auto
  moreover have c: "cont (queues s) p = None \<longleftrightarrow> cont ?q p = None" for p
    using lists_ok_cont [OF ok, of p Sleep_queue] by (auto simp: lists_move_def)
  moreover have "cont ?q p = Some Ready_queue" if "cont (queues s) p = Some Ready_queue" for p
    using that by (simp add: lists_move_def)
  moreover have "pids_ok (s\<lparr>queues := ?q\<rparr>) = pids_ok s" by (rule pids_ok_cong) simp_all
  ultimately have "table_inv (s\<lparr>queues := ?q\<rparr>)"
    using i unfolding table_inv_def by (simp del: not_None_eq) metis
  then show thesis using that check_sleeping_eq [OF ok table_invD(2) [OF i]] c by blast
qed

lemma table_inv_enqueue:
  assumes i: "table_inv s" and p: "p < NUM_MAX_PCB" "p_status (pcbs s p) = TASK_RUNNING"
  shows "table_inv (upd_queues (lists_append Ready_queue p) (set_status p TASK_READY s))"
proof -
  let ?q = "lists_append Ready_queue p (queues s)"
  have n: "cont (queues s) p = None" using table_invD(5) [OF i p(1)] p(2) by (simp add: active_def)
  then have c: "cont ?q = (cont (queues s))(p := Some Ready_queue)" by (simp add: lists_append_def)
  have "pids_ok (upd_queues (lists_append Ready_queue p) (set_status p TASK_READY s)) = pids_ok s"
    using p(2) by (intro pids_ok_cong) auto
  moreover have "lists_ok ?q" using table_invD(1) [OF i] by (rule lists_ok_append)
  ultimately show ?thesis
    using i p unfolding table_inv_def by (auto simp: c active_def)
qed

lemma pick_process_some:
  assumes "h \<in> set (items (queues s) Ready_queue)" "filter_affinity s h"
  obtains p m where "pick_process s = Some (p, record_slice p (with_min s m))"
    "p \<in> set (items (queues s) Ready_queue)" "filter_affinity s p"
proof (cases rule: pick_process_choice [of s])
  case (user p m)
  moreover have "p \<in> set (items (queues s) Ready_queue)" "filter_affinity s p"
    using user(1) by (auto simp: best_of_def filterout_kernel_def split: if_splits)
  ultimately show thesis using that by blast
next
  case (idle m)
  obtain p where p: "find (filter_affinity s) (items (queues s) Ready_queue) = Some p"
    using assms by (cases "find (filter_affinity s) (items (queues s) Ready_queue)") (auto simp: find_None_iff)
  then have "p \<in> set (items (queues s) Ready_queue)" "filter_affinity s p" by (auto simp: find_Some_iff)
  then show thesis using that idle(2) p by simp
qed

text \<open>The switch to a process taken from the ready queue.\<close>

definition dispatch :: "nat \<Rightarrow> ('a) sched_state_scheme \<Rightarrow> (('a) sched_state_scheme) option" where
  "dispatch nx s = do {
     q \<leftarrow> lists_delete nx (queues s);
     let s4 = set_status nx TASK_RUNNING (s\<lparr>queues := q\<rparr>);
     pa \<leftarrow> kva2pa (p_pgdir (pcbs s4 nx));
     let s5 = s4\<lparr>satp := satp_value 8 (ucast (of_int (p_pid (pcbs s4 nx)) :: u32))
                             (drop_bit NORMAL_PAGE_SHIFT pa)\<rparr>;
     Some (s5\<lparr>currents := (currents s5)(hart s5 := nx)\<rparr>)
   }"

lemma do_scheduler_dispatch:
  "do_scheduler s0 = do {
     s1 \<leftarrow> check_sleeping s0;
     let p = current_running s1;
     let s2 = (if p_status (pcbs s1 p) = TASK_RUNNING
               then upd_queues (lists_append Ready_queue p) (set_status p TASK_READY s1)
               else s1);
     (nx, s3) \<leftarrow> pick_process s2;
     dispatch nx s3
   }"
  by (simp add: do_scheduler_def dispatch_def Let_def)

lemma push_bit_and: "h < 32 \<Longrightarrow> k < 32 \<Longrightarrow> (push_bit h 1 AND push_bit k 1 \<noteq> (0 :: u32)) \<longleftrightarrow> h = k"
  by (auto simp: bit_eq_iff bit_simps)

lemma filter_affinity_kernel:
  assumes "table_inv s" "h < NR_CPUS"
  shows "filter_affinity s h \<longleftrightarrow> h = hart s"
  using table_invD(3,7) [OF assms(1)] assms(2) push_bit_and [of h "hart s"]
  by (simp add: filter_affinity_def NR_CPUS_def)

lemma harts_inv_inj:
  "harts_inv s \<Longrightarrow> h < NR_CPUS \<Longrightarrow> h' < NR_CPUS \<Longrightarrow> currents s h = currents s h' \<Longrightarrow> h = h'"
  by (auto simp: harts_inv_def inj_on_def)

lemma harts_inv_dispatch:
  fixes s s' :: "('a) sched_state_scheme"
  assumes h: "harts_inv s" and c: "\<not> active (p_status (pcbs s (current_running s)))"
    and nx: "\<not> active (p_status (pcbs s nx))" "nx < NUM_MAX_PCB" and b: "hart s < NR_CPUS"
    and k: "nx < NR_CPUS \<longrightarrow> nx = hart s" and sel: "hart s' = hart s" "currents s' = (currents s)(hart s := nx)"
      "pcbs s' = (pcbs s)(nx := (pcbs s nx)\<lparr>p_status := TASK_RUNNING\<rparr>)"
  shows "harts_inv s'"
proof -
  have inj: "inj_on (currents s) {..<NR_CPUS}"
    and cur: "\<And>h'. h' < NR_CPUS \<Longrightarrow> currents s h' < NUM_MAX_PCB \<and> (currents s h' < NR_CPUS \<longrightarrow> currents s h' = h') \<and>
        (h' \<noteq> hart s \<longrightarrow> active (p_status (pcbs s (currents s h'))))"
    and act: "\<And>p. p < NUM_MAX_PCB \<Longrightarrow> active (p_status (pcbs s p)) \<Longrightarrow> \<exists>h'<NR_CPUS. currents s h' = p"
    using h unfolding harts_inv_def by blast+
  have other: "active (p_status (pcbs s (currents s h')))" "currents s h' \<noteq> nx"
    if "h' < NR_CPUS" "h' \<noteq> hart s" for h'
    using cur [OF that(1)] that(2) nx(1) by auto
  have "inj_on (currents s') {..<NR_CPUS}"
    unfolding sel inj_on_def
    using other(2) inj_onD [OF inj] by (metis fun_upd_apply lessThan_iff)
  moreover have "currents s' h' < NUM_MAX_PCB \<and> (currents s' h' < NR_CPUS \<longrightarrow> currents s' h' = h') \<and>
      (h' \<noteq> hart s' \<longrightarrow> active (p_status (pcbs s' (currents s' h'))))" if "h' < NR_CPUS" for h'
    using cur [OF that] other [OF that] nx(2) k
    by (cases "h' = hart s") (simp_all add: sel)
  moreover have "\<exists>h'<NR_CPUS. currents s' h' = p" if p: "p < NUM_MAX_PCB" "active (p_status (pcbs s' p))" for p
  proof (cases "p = nx")
    case True
    then show ?thesis using b unfolding sel by (metis fun_upd_same)
  next
    case False
    then have a: "active (p_status (pcbs s p))" using p(2) by (simp add: sel)
    then obtain h' where h': "h' < NR_CPUS" "currents s h' = p" using act p(1) by blast
    have "h' \<noteq> hart s" using c a h'(2) by metis
    then show ?thesis using h' unfolding sel by (metis fun_upd_other)
  qed
  ultimately show ?thesis unfolding harts_inv_def by blast
qed

lemma dispatch_inv:
  assumes i: "table_inv s" and h: "harts_inv s" and c: "\<not> active (p_status (pcbs s (current_running s)))"
    and nx: "cont (queues s) nx = Some Ready_queue" "filter_affinity s nx"
  shows "\<exists>s'. dispatch nx s = Some s' \<and> table_inv s' \<and> harts_inv s' \<and> hart s' = hart s \<and>
    currents s' = (currents s)(hart s := nx) \<and> p_status (pcbs s' nx) = TASK_RUNNING"
proof -
  let ?q = "(queues s)\<lparr>items := (items (queues s))(Ready_queue := remove1 nx (items (queues s) Ready_queue)),
    cont := (cont (queues s))(nx := None)\<rparr>"
  have d: "lists_delete nx (queues s) = Some ?q" using nx(1) by (simp add: lists_delete_def)
  have ok: "lists_ok ?q" using lists_ok_delete [OF table_invD(1) [OF i] d] .
  have n: "nx < NUM_MAX_PCB" using table_invD(4) [OF i, of nx] nx(1) by simp
  have st: "\<not> active (p_status (pcbs s nx))" "p_status (pcbs s nx) \<noteq> TASK_EXITED"
    using table_invD(5) [OF i n] nx(1) by auto
  obtain pa where pa: "kva2pa (p_pgdir (pcbs s nx)) = Some pa" using table_invD(6) [OF i n st(2)] by auto
  obtain s' where s': "dispatch nx s = Some s'" and sel: "queues s' = ?q" "time_base s' = time_base s"
      "hart s' = hart s" "currents s' = (currents s)(hart s := nx)"
      "pcbs s' = (pcbs s)(nx := (pcbs s nx)\<lparr>p_status := TASK_RUNNING\<rparr>)" "process_id s' = process_id s"
    using d pa by (simp add: dispatch_def Let_def)
  have "pids_ok s' = pids_ok s" using st(2) by (intro pids_ok_cong) (auto simp: sel)
  then have "table_inv s'"
    using i ok n pa unfolding table_inv_def by (auto simp: sel active_def)
  moreover have "nx < NR_CPUS \<longrightarrow> nx = hart s" using filter_affinity_kernel [OF i] nx(2) by blast
  then have "harts_inv s'" by (rule harts_inv_dispatch [OF h c st(1) n table_invD(3) [OF i]]) (simp_all add: sel)
  ultimately show ?thesis using s' sel by auto
qed

lemma inv_record_slice [simp]:
  "table_inv (record_slice p (with_min s m)) = table_inv s"
  "harts_inv (record_slice p (with_min s m)) = harts_inv s"
proof -
  have "pids_ok (record_slice p (with_min s m)) = pids_ok s" by (rule pids_ok_cong) simp_all
  then show "table_inv (record_slice p (with_min s m)) = table_inv s"
    "harts_inv (record_slice p (with_min s m)) = harts_inv s"
    by (simp_all add: table_inv_def harts_inv_def)
qed

lemma do_scheduler_inv:
  assumes i: "table_inv s" and h: "harts_inv s"
    and k: "p_status (pcbs s (current_running s)) \<noteq> TASK_KILLED"
  shows "\<exists>s'. do_scheduler s = Some s' \<and> table_inv s' \<and> harts_inv s' \<and> hart s' = hart s \<and>
    p_status (pcbs s' (current_running s')) = TASK_RUNNING \<and>
    (\<forall>h. h \<noteq> hart s \<longrightarrow> currents s' h = currents s h)"
proof -
  let ?p = "current_running s"
  obtain q where q: "check_sleeping s = Some (s\<lparr>queues := q\<rparr>)" "table_inv (s\<lparr>queues := q\<rparr>)"
    by (rule table_inv_check_sleeping [OF i])
  let ?s1 = "s\<lparr>queues := q\<rparr>"
  have hp: "hart s < NR_CPUS" "?p < NUM_MAX_PCB"
    using table_invD(3) [OF i] h by (auto simp: harts_inv_def)
  define s2 where "s2 = (if p_status (pcbs s ?p) = TASK_RUNNING
    then upd_queues (lists_append Ready_queue ?p) (set_status ?p TASK_READY ?s1) else ?s1)"
  have s2: "table_inv s2" "hart s2 = hart s" "currents s2 = currents s"
    using table_inv_enqueue [OF q(2) hp(2)] q(2) by (auto simp: s2_def)
  have c2: "\<not> active (p_status (pcbs s2 (current_running s2)))"
    using k by (auto simp: s2_def active_def)
  have "harts_inv s2"
    using h harts_inv_inj [OF h _ hp(1)] unfolding harts_inv_def s2(2,3)
    by (auto simp: s2_def active_def)
  have "p_status (pcbs s2 (hart s2)) \<noteq> TASK_RUNNING"
  proof
    assume r: "p_status (pcbs s2 (hart s2)) = TASK_RUNNING"
    have "hart s2 < NUM_MAX_PCB" using hp(1) s2(2) by (simp add: NUM_MAX_PCB_def NR_CPUS_def)
    then obtain h' where "h' < NR_CPUS" "currents s2 h' = hart s2"
      using \<open>harts_inv s2\<close> r unfolding harts_inv_def active_def by blast
    then have "current_running s2 = hart s2"
      using \<open>harts_inv s2\<close> hp(1) s2(2) unfolding harts_inv_def by metis
    with c2 r show False by (simp add: active_def)
  qed
  then have idle: "cont (queues s2) (hart s2) = Some Ready_queue"
    using table_invD(8) [OF s2(1), of "hart s2"] hp(1) s2(2) by auto
  have mem: "x \<in> set (items (queues s2) Ready_queue) \<longleftrightarrow> cont (queues s2) x = Some Ready_queue" for x
    by (rule lists_ok_cont [OF table_invD(1) [OF s2(1)]])
  obtain nx m where nx: "pick_process s2 = Some (nx, record_slice nx (with_min s2 m))"
      "cont (queues s2) nx = Some Ready_queue" "filter_affinity s2 nx"
    using pick_process_some [of "hart s2" s2] idle mem filter_affinity_kernel [OF s2(1)] hp(1) s2(2)
    by metis
  let ?s3 = "record_slice nx (with_min s2 m)"
  have "filter_affinity ?s3 nx" using nx(3) by (simp add: filter_affinity_def)
  then obtain s' where s': "dispatch nx ?s3 = Some s'" "table_inv s'" "harts_inv s'" "hart s' = hart s2"
      "currents s' = (currents s2)(hart s2 := nx)" "p_status (pcbs s' nx) = TASK_RUNNING"
    using dispatch_inv [of ?s3 nx] s2(1) \<open>harts_inv s2\<close> c2 nx(2) by auto
  have "do_scheduler s = Some s'"
    unfolding do_scheduler_dispatch q(1) using nx(1) s'(1)
    by (cases "p_status (pcbs s ?p) = TASK_RUNNING") (simp_all add: s2_def Let_def)
  with s' s2 show ?thesis by auto
qed

text \<open>
  C12. The scheduler never fails and never runs a process twice. From a state of the invariant,
  with the current process running, blocked or exited, \<open>do_scheduler\<close> does not panic; afterwards
  the invariant holds again: the two harts run different processes, exactly the processes of the
  harts are marked as running (or killed), each other live process is in exactly one queue, and
  the process switched to is running. The process of the other hart is the same.
\<close>

theorem do_scheduler_safe:
  assumes i: "table_inv s" and h: "harts_inv s"
    and k: "p_status (pcbs s (current_running s)) \<noteq> TASK_KILLED"
  shows "\<exists>s'. do_scheduler s = Some s' \<and> table_inv s' \<and> harts_inv s' \<and> hart s' = hart s \<and>
    p_status (pcbs s' (current_running s')) = TASK_RUNNING \<and>
    (\<forall>h. h \<noteq> hart s \<longrightarrow> currents s' h = currents s h)"
  by (rule do_scheduler_inv [OF assms])

lemma boot_inv: "table_inv boot_sched" "harts_inv boot_sched"
  "p_status (pcbs boot_sched (current_running boot_sched)) = TASK_RUNNING"
proof -
  have "kva2pa PGDIR_VA \<noteq> None"
    by (simp add: kva2pa_def PGDIR_VA_def PGDIR_PA_def KERNEL_ADDR_TAG_def VA_EFFECTIVE_MASK_def)
  moreover have "pids_ok boot_sched"
  proof -
    have "p_status (pcbs boot_sched p) = TASK_EXITED" if "NR_CPUS \<le> p" "p < NUM_MAX_PCB" for p
      using that by (simp add: boot_defs NR_CPUS_def)
    then show ?thesis by (auto simp: pids_ok_def inj_on_def)
  qed
  ultimately show "table_inv boot_sched"
    using lists_ok_empty
    by (auto simp: table_inv_def boot_defs NR_CPUS_def NUM_MAX_PCB_def NUM_MAX_TASK_def lists_empty_def
        active_def less_2_cases_iff)
  show "harts_inv boot_sched"
    by (auto simp: harts_inv_def boot_defs NR_CPUS_def NUM_MAX_PCB_def NUM_MAX_TASK_def
        active_def less_2_cases_iff inj_on_def split: if_splits)
  show "p_status (pcbs boot_sched (current_running boot_sched)) = TASK_RUNNING"
    by (simp add: boot_defs NR_CPUS_def)
qed

theorem do_scheduler_safe_witness:
  "\<exists>s'. do_scheduler boot_sched = Some s' \<and> table_inv s' \<and> harts_inv s'"
  using do_scheduler_safe [OF boot_inv(1,2)] boot_inv(3) by auto

section \<open>What the scheduler leaves alone\<close>

lemma pick_process_SomeD:
  assumes "pick_process s = Some (p, s')"
  obtains m where "s' = record_slice p (with_min s m)" "p \<in> set (items (queues s) Ready_queue)"
    "filter_affinity s p"
proof (cases rule: pick_process_choice [of s])
  case (user p' m)
  then have "p' \<in> set (items (queues s) Ready_queue)" "filter_affinity s p'"
    by (auto simp: best_of_def filterout_kernel_def split: if_splits)
  with user(2) assms that show thesis by simp
next
  case (idle m)
  then have f: "find (filter_affinity s) (items (queues s) Ready_queue) = Some p"
    and "s' = record_slice p (with_min s m)"
    using assms by (cases "find (filter_affinity s) (items (queues s) Ready_queue)"; simp)+
  moreover have "p \<in> set (items (queues s) Ready_queue)" "filter_affinity s p"
    using f by (auto simp: find_Some_iff)
  ultimately show thesis using that by blast
qed

text \<open>
  Only the ready and the sleep queue change; process control blocks keep everything but their
  status and slice count; the state the record is extended with is untouched.
\<close>

lemma dispatch_frame:
  assumes d: "dispatch p s = Some s'" and ok: "lists_ok (queues s)" and p: "p \<in> set (items (queues s) Ready_queue)"
  shows "l \<noteq> Ready_queue \<Longrightarrow> items (queues s') l = items (queues s) l"
    and "sched_state.more s' = sched_state.more s" and "children s' = children s" and "process_id s' = process_id s"
    and "p_pid (pcbs s' x) = p_pid (pcbs s x)" and "p_parent (pcbs s' x) = p_parent (pcbs s x)"
    and "p_status (pcbs s' x) = (if x = p then TASK_RUNNING else p_status (pcbs s x))"
proof -
  have c: "cont (queues s) p = Some Ready_queue" using p lists_ok_cont [OF ok] by simp
  obtain q where q: "lists_delete p (queues s) = Some q" by (simp add: lists_delete_def c)
  then have i: "l \<noteq> Ready_queue \<Longrightarrow> items q l = items (queues s) l" for l
    by (auto simp: lists_delete_def c)
  obtain pa where s': "s' = set_status p TASK_RUNNING (s\<lparr>queues := q\<rparr>)\<lparr>satp := pa,
      currents := (currents s)(hart s := p)\<rparr>"
    using d q unfolding dispatch_def by (auto simp: Let_def elim!: bind_SomeE)
  show "l \<noteq> Ready_queue \<Longrightarrow> items (queues s') l = items (queues s) l"
    and "sched_state.more s' = sched_state.more s" and "children s' = children s" and "process_id s' = process_id s"
    and "p_pid (pcbs s' x) = p_pid (pcbs s x)" and "p_parent (pcbs s' x) = p_parent (pcbs s x)"
    and "p_status (pcbs s' x) = (if x = p then TASK_RUNNING else p_status (pcbs s x))"
    using i by (simp_all add: s')
qed

lemma do_scheduler_frame:
  assumes d: "do_scheduler s = Some s'" and ok: "lists_ok (queues s)" and t: "time_base s \<noteq> 0"
  shows "l \<noteq> Ready_queue \<Longrightarrow> l \<noteq> Sleep_queue \<Longrightarrow> items (queues s') l = items (queues s) l"
    and "sched_state.more s' = sched_state.more s" and "children s' = children s" and "process_id s' = process_id s"
    and "p_pid (pcbs s' x) = p_pid (pcbs s x)" and "p_parent (pcbs s' x) = p_parent (pcbs s x)"
proof -
  let ?ps = "filter (due (ticks s div time_base s) s) (items (queues s) Sleep_queue)"
  let ?q = "lists_move Sleep_queue Ready_queue ?ps (queues s)"
  define s2 where "s2 = (if p_status (pcbs s (current_running s)) = TASK_RUNNING
    then upd_queues (lists_append Ready_queue (current_running s))
      (set_status (current_running s) TASK_READY (s\<lparr>queues := ?q\<rparr>)) else s\<lparr>queues := ?q\<rparr>)"
  have okq: "lists_ok ?q" using ok by (intro lists_ok_move) auto
  then have ok2: "lists_ok (queues s2)" by (simp add: s2_def lists_ok_append)
  obtain nx s3 where nx: "pick_process s2 = Some (nx, s3)" "dispatch nx s3 = Some s'"
    using d unfolding do_scheduler_dispatch check_sleeping_eq [OF ok t]
    by (auto simp: s2_def Let_def elim!: bind_SomeE split: if_splits)
  obtain m where m: "s3 = record_slice nx (with_min s2 m)" "nx \<in> set (items (queues s2) Ready_queue)"
    by (rule pick_process_SomeD [OF nx(1)])
  note f = dispatch_frame [OF nx(2)]
  have i2: "items (queues s2) l = items (queues s) l" if "l \<noteq> Ready_queue" "l \<noteq> Sleep_queue" for l
    using that by (simp add: s2_def lists_move_def lists_append_def)
  show "l \<noteq> Ready_queue \<Longrightarrow> l \<noteq> Sleep_queue \<Longrightarrow> items (queues s') l = items (queues s) l"
    using f(1) ok2 m i2 by simp
  show "sched_state.more s' = sched_state.more s" "children s' = children s" "process_id s' = process_id s"
    "p_pid (pcbs s' x) = p_pid (pcbs s x)" "p_parent (pcbs s' x) = p_parent (pcbs s x)"
    using f ok2 m by (simp_all add: s2_def)
qed

end
