(* ===== verification/Blocking.thy ===== *)
theory Blocking
  imports Sched
begin

text \<open>
  The contract of the scheduler towards the code that blocks and wakes processes: the kernel
  invariant \<open>kinv\<close> (process table, harts, and the current process is running), and what
  blocking the current process, waking a whole wait list and waking its first process do to the
  wait lists. The synchronisation objects use these facts only.
\<close>

definition kinv :: "('a) sched_state_scheme \<Rightarrow> bool" where
  "kinv s \<longleftrightarrow> table_inv s \<and> harts_inv s \<and> p_status (pcbs s (current_running s)) = TASK_RUNNING"

abbreviation waiting :: "('a) sched_state_scheme \<Rightarrow> chan \<Rightarrow> nat list" where
  "waiting s l \<equiv> items (queues s) l"

text \<open>A list that processes wait in, other than the two queues of the scheduler itself.\<close>

definition wait_chan :: "chan \<Rightarrow> bool" where
  "wait_chan l \<longleftrightarrow> l \<noteq> Ready_queue \<and> l \<noteq> Sleep_queue"

lemma wait_chan_simps [simp]:
  "wait_chan (Mutex_list r)" "wait_chan (Cond_list c)" "wait_chan (Sema_list i)" "wait_chan (Barrier_list i)"
  "wait_chan (Pipe_list i)" "wait_chan (Wait_list i)" "wait_chan Send_queue" "wait_chan Recv_queue"
  by (simp_all add: wait_chan_def)

text \<open>
  Two states that differ only in scheduling: same extension, same wait lists except \<open>ls\<close>, same
  process identities.
\<close>

definition same_but :: "chan set \<Rightarrow> ('a) sched_state_scheme \<Rightarrow> ('a) sched_state_scheme \<Rightarrow> bool" where
  "same_but ls s s' \<longleftrightarrow> sched_state.more s' = sched_state.more s \<and> children s' = children s \<and>
     process_id s' = process_id s \<and> hart s' = hart s \<and>
     (\<forall>x. p_pid (pcbs s' x) = p_pid (pcbs s x) \<and> p_parent (pcbs s' x) = p_parent (pcbs s x)) \<and>
     (\<forall>l. wait_chan l \<longrightarrow> l \<notin> ls \<longrightarrow> waiting s' l = waiting s l)"

lemma same_butD:
  assumes "same_but ls s s'"
  shows "sched_state.more s' = sched_state.more s" "children s' = children s" "process_id s' = process_id s"
    "hart s' = hart s" "p_pid (pcbs s' x) = p_pid (pcbs s x)" "p_parent (pcbs s' x) = p_parent (pcbs s x)"
    "wait_chan l \<Longrightarrow> l \<notin> ls \<Longrightarrow> waiting s' l = waiting s l"
  using assms by (auto simp: same_but_def)

lemma same_but_trans: "same_but ls s s' \<Longrightarrow> same_but ls s' s'' \<Longrightarrow> same_but ls s s''"
  by (auto simp: same_but_def)

lemma same_but_refl [simp]: "same_but ls s s"
  by (simp add: same_but_def)

section \<open>Blocking the current process\<close>

lemma kinv_current:
  assumes "kinv s"
  shows "current_running s < NUM_MAX_PCB" "cont (queues s) (current_running s) = None"
    "lists_ok (queues s)" "time_base s \<noteq> 0" "hart s < NR_CPUS"
proof -
  show c: "current_running s < NUM_MAX_PCB" "hart s < NR_CPUS" "lists_ok (queues s)" "time_base s \<noteq> 0"
    using assms table_invD(1,2,3) unfolding kinv_def harts_inv_def by blast+
  show "cont (queues s) (current_running s) = None"
    using assms table_invD(5) [of s, OF _ c(1)] by (simp add: kinv_def active_def)
qed

text \<open>A kernel process never blocks: only a user process may wait.\<close>

definition block_on :: "chan \<Rightarrow> ('a) sched_state_scheme \<Rightarrow> (('a) sched_state_scheme) option" where
  "block_on l s = do { s1 \<leftarrow> do_block (current_running s) l s; do_scheduler s1 }"

lemma blocked_inv:
  assumes k: "kinv s" and u: "current_running s \<ge> NR_CPUS"
    and q: "q = lists_append l (current_running s) (queues s)"
  shows "table_inv (upd_queues (\<lambda>_. q) (set_status (current_running s) TASK_BLOCKED s))" (is "table_inv ?s")
    "harts_inv (upd_queues (\<lambda>_. q) (set_status (current_running s) TASK_BLOCKED s))"
proof -
  let ?p = "current_running s"
  note c = kinv_current [OF k]
  have i: "table_inv s" and h: "harts_inv s" using k by (simp_all add: kinv_def)
  have q': "cont q = (cont (queues s))(?p := Some l)" using c(2) by (simp add: q lists_append_def)
  have "lists_ok q" using c(3) by (simp add: q lists_ok_append)
  moreover have "kva2pa (p_pgdir (pcbs s ?p)) \<noteq> None" using table_invD(6) [OF i c(1)] k by (simp add: kinv_def)
  moreover have "pids_ok ?s = pids_ok s" using k by (intro pids_ok_cong) (auto simp: kinv_def)
  ultimately show "table_inv ?s"
    using i c(1) u unfolding table_inv_def by (auto simp: q' active_def)
  have "harts_inv s \<Longrightarrow> h < NR_CPUS \<Longrightarrow> currents s h = ?p \<Longrightarrow> h = hart s" for h
    using harts_inv_inj [OF _ _ c(5)] by blast
  then show "harts_inv ?s"
    using h unfolding harts_inv_def by (auto simp: active_def)
qed

lemma do_block_spec:
  assumes k: "kinv s" and u: "current_running s \<ge> NR_CPUS"
  obtains s' where "do_block (current_running s) l s = Some s'" "table_inv s'" "harts_inv s'"
    "same_but {l} s s'" "waiting s' l = waiting s l @ [current_running s]" "currents s' = currents s"
    "p_status (pcbs s' (current_running s)) = TASK_BLOCKED"
proof -
  let ?p = "current_running s"
  let ?s = "upd_queues (\<lambda>_. lists_append l ?p (queues s)) (set_status ?p TASK_BLOCKED s)"
  note c = kinv_current [OF k]
  show thesis
  proof (rule that [of ?s])
    show "do_block ?p l s = Some ?s" using k c(2) by (simp add: do_block_def kinv_def upd_queues_def)
    show "same_but {l} s ?s" by (auto simp: same_but_def lists_append_def)
  qed (use blocked_inv [OF k u refl] c(2) in \<open>simp_all add: lists_append_def\<close>)
qed

lemma do_scheduler_spec:
  assumes i: "table_inv s" "harts_inv s" and k: "p_status (pcbs s (current_running s)) \<noteq> TASK_KILLED"
  obtains s' where "do_scheduler s = Some s'" "kinv s'" "same_but {} s s'"
proof -
  obtain s' where s': "do_scheduler s = Some s'" "table_inv s'" "harts_inv s'" "hart s' = hart s"
      "p_status (pcbs s' (current_running s')) = TASK_RUNNING"
    using do_scheduler_inv [OF i k] by blast
  note f = do_scheduler_frame [OF s'(1) table_invD(1,2) [OF i(1)]]
  have "same_but {} s s'" using f s'(4) by (auto simp: same_but_def wait_chan_def)
  with s' that show thesis by (auto simp: kinv_def)
qed

text \<open>Blocking on \<open>l\<close> never panics and adds the process at the end of \<open>l\<close>.\<close>

lemma block_on_spec:
  assumes k: "kinv s" and u: "current_running s \<ge> NR_CPUS" and l: "wait_chan l"
  obtains s' where "block_on l s = Some s'" "kinv s'" "same_but {l} s s'"
    "waiting s' l = waiting s l @ [current_running s]"
proof (rule do_block_spec [OF k u, of l])
  fix s1 assume s1: "do_block (current_running s) l s = Some s1" "table_inv s1" "harts_inv s1"
    "same_but {l} s s1" "waiting s1 l = waiting s l @ [current_running s]" "currents s1 = currents s"
    "p_status (pcbs s1 (current_running s)) = TASK_BLOCKED"
  then have "p_status (pcbs s1 (current_running s1)) \<noteq> TASK_KILLED" by (simp add: same_butD(4))
  then show thesis
  proof (rule do_scheduler_spec [OF s1(2,3)])
    fix s' assume s': "do_scheduler s1 = Some s'" "kinv s'" "same_but {} s1 s'"
    have "same_but {l} s s'" using s1(4) s'(3) by (auto simp: same_but_def)
    moreover have "waiting s' l = waiting s l @ [current_running s]" using s1(5) same_butD(7) [OF s'(3) l] by simp
    ultimately show thesis using that s1(1) s' by (simp add: block_on_def)
  qed
qed

section \<open>Waking processes\<close>

lemma woken_inv:
  assumes i: "table_inv s" and h: "harts_inv s" and l: "wait_chan l" and ps: "set ps \<subseteq> set (waiting s l)"
    and q: "lists_ok q" "cont q = (\<lambda>p. if p \<in> set ps then Some Ready_queue else cont (queues s) p)"
  shows "table_inv (s\<lparr>pcbs := make_ready (set ps) (pcbs s), queues := q\<rparr>)" (is "table_inv ?s")
    "harts_inv (s\<lparr>pcbs := make_ready (set ps) (pcbs s), queues := q\<rparr>)"
proof -
  have w: "cont (queues s) p = Some l" if "p \<in> set ps" for p
    using ps that lists_ok_cont [OF table_invD(1) [OF i]] by blast
  then have w': "p < NUM_MAX_PCB" "\<not> active (p_status (pcbs s p))" "p_status (pcbs s p) \<noteq> TASK_EXITED"
    if "p \<in> set ps" for p using table_invD(4,5) [OF i, of p] that by auto
  have k': "h \<notin> set ps" if "h < NR_CPUS" for h
    using w table_invD(5,8) [OF i, of h] that l by (auto simp: wait_chan_def active_def NR_CPUS_def NUM_MAX_PCB_def NUM_MAX_TASK_def)
  have st: "p_status (make_ready (set ps) (pcbs s) p) = (if p \<in> set ps then TASK_READY else p_status (pcbs s p))"
    "p_pid (make_ready (set ps) (pcbs s) p) = p_pid (pcbs s p)"
    "p_affinity (make_ready (set ps) (pcbs s) p) = p_affinity (pcbs s p)"
    "p_pgdir (make_ready (set ps) (pcbs s) p) = p_pgdir (pcbs s p)" for p
    by (simp_all add: make_ready_def)
  have "pids_ok ?s = pids_ok s" using w'(3) by (intro pids_ok_cong) (auto simp: st)
  then show "table_inv ?s"
    using i w' k' q(1) unfolding table_inv_def by (auto simp: st q(2) active_def)
  show "harts_inv ?s"
    using h w' unfolding harts_inv_def by (auto simp: st active_def)
qed

lemma unblock_list_spec0:
  assumes k: "table_inv s" "harts_inv s" and l: "wait_chan l"
  obtains s' where "unblock_list l s = Some s'" "table_inv s'" "harts_inv s'" "same_but {l} s s'"
    "currents s' = currents s" "waiting s' l = []"
    "waiting s' Ready_queue = waiting s Ready_queue @ waiting s l"
    "\<And>p. p_status (pcbs s' p) = (if p \<in> set (waiting s l) then TASK_READY else p_status (pcbs s p))"
proof -
  note ok = table_invD(1) [OF k(1)]
  let ?q = "lists_move l Ready_queue (waiting s l) (queues s)"
  let ?s = "s\<lparr>pcbs := make_ready (set (waiting s l)) (pcbs s), queues := ?q\<rparr>"
  have l': "l \<noteq> Ready_queue" using l by (simp add: wait_chan_def)
  have okq: "lists_ok ?q" using ok l' by (intro lists_ok_move) auto
  have i: "table_inv ?s" "harts_inv ?s"
    by (rule woken_inv [OF k l order_refl okq], simp add: lists_move_def)+
  show thesis
  proof (rule that [of ?s])
    show "unblock_list l s = Some ?s" by (rule unblock_list_eq [OF ok l'])
    show "same_but {l} s ?s" by (auto simp: same_but_def lists_move_def make_ready_def wait_chan_def)
  qed (use l' i in \<open>simp_all add: lists_move_def make_ready_def\<close>)
qed

lemma unblock_list_spec:
  assumes k: "kinv s" and l: "wait_chan l"
  obtains s' where "unblock_list l s = Some s'" "kinv s'" "same_but {l} s s'" "currents s' = currents s"
    "waiting s' l = []" "waiting s' Ready_queue = waiting s Ready_queue @ waiting s l"
proof -
  have i: "table_inv s" "harts_inv s" using k by (simp_all add: kinv_def)
  have cur: "current_running s \<notin> set (waiting s l)"
    using kinv_current(2) [OF k] lists_ok_cont [OF table_invD(1) [OF i(1)]] by simp
  show thesis
  proof (rule unblock_list_spec0 [OF i l])
    fix s' assume s': "unblock_list l s = Some s'" "table_inv s'" "harts_inv s'" "same_but {l} s s'"
      "currents s' = currents s" "waiting s' l = []"
      "waiting s' Ready_queue = waiting s Ready_queue @ waiting s l"
      "\<And>p. p_status (pcbs s' p) = (if p \<in> set (waiting s l) then TASK_READY else p_status (pcbs s p))"
    have "kinv s'" using k s' cur same_butD(4) [OF s'(4)] by (simp add: kinv_def)
    with s' that show thesis by blast
  qed
qed

text \<open>\<open>list_shift\<close> followed by \<open>do_unblock\<close>: the process that waited longest becomes ready.\<close>

definition wake_one :: "chan \<Rightarrow> ('a) sched_state_scheme \<Rightarrow> ('a) sched_state_scheme" where
  "wake_one l s =
     (case lists_shift l (queues s) of
        (None, q) \<Rightarrow> s\<lparr>queues := q\<rparr>
      | (Some p, q) \<Rightarrow> do_unblock p (s\<lparr>queues := q\<rparr>))"

lemma wake_one_spec:
  assumes k: "kinv s" and l: "wait_chan l"
  shows "kinv (wake_one l s)" "same_but {l} s (wake_one l s)" "waiting (wake_one l s) l = tl (waiting s l)"
    "currents (wake_one l s) = currents s"
    "waiting (wake_one l s) Ready_queue = waiting s Ready_queue @ take 1 (waiting s l)"
proof -
  note c = kinv_current [OF k]
  let ?r = "take 1 (waiting s l)"
  have l': "l \<noteq> Ready_queue" using l by (simp add: wait_chan_def)
  have e: "wake_one l s = s\<lparr>pcbs := make_ready (set ?r) (pcbs s), queues := lists_move l Ready_queue ?r (queues s)\<rparr>"
  proof (cases "waiting s l")
    case Nil
    then show ?thesis by (simp add: wake_one_def lists_shift_def make_ready_def)
  next
    case (Cons p ps)
    have "distinct (p # ps)" using lists_ok_distinct [OF c(3), of l] Cons by simp
    then have "filter (\<lambda>n. n \<noteq> p) (waiting s l) = ps" using Cons by (auto intro: filter_True)
    with Cons l' show ?thesis
      by (auto simp: wake_one_def lists_shift_def do_unblock_def upd_queues_def set_status_def upd_pcb_def
          make_ready_single lists_append_def lists_move_def fun_eq_iff)
  qed
  have s: "set ?r \<subseteq> set (waiting s l)" by (rule set_take_subset)
  have ok: "lists_ok (lists_move l Ready_queue ?r (queues s))" using c(3) l' s by (intro lists_ok_move) auto
  show "kinv (wake_one l s)"
  proof -
    have cur: "current_running s \<notin> set ?r" using c(2) s lists_ok_cont [OF c(3)] by auto
    have i: "table_inv s" "harts_inv s" using k by (simp_all add: kinv_def)
    have "table_inv (wake_one l s)" "harts_inv (wake_one l s)"
      unfolding e by (rule woken_inv [OF i l s ok], simp add: lists_move_def)+
    then show ?thesis using k cur unfolding kinv_def by (simp add: e make_ready_def)
  qed
  show "same_but {l} s (wake_one l s)" "currents (wake_one l s) = currents s"
    "waiting (wake_one l s) Ready_queue = waiting s Ready_queue @ ?r"
    using l' unfolding e by (auto simp: same_but_def lists_move_def make_ready_def wait_chan_def)
  show "waiting (wake_one l s) l = tl (waiting s l)"
  proof (cases "waiting s l")
    case (Cons p ps)
    have "distinct (p # ps)" using lists_ok_distinct [OF c(3), of l] Cons by simp
    then show ?thesis using Cons l' unfolding e by (auto simp: lists_move_def intro: filter_True)
  qed (use l' in \<open>simp add: e lists_move_def\<close>)
qed

section \<open>Looking processes up\<close>

text \<open>A live process is found by its pid, at its own index.\<close>

lemma find_pcb_live:
  assumes i: "table_inv s" and p: "p < NUM_MAX_PCB" "p_status (pcbs s p) \<noteq> TASK_EXITED"
  shows "find_pcb (p_pid (pcbs s p)) s = Some (Some p)"
proof (cases "p < NR_CPUS")
  case True
  then have "p_pid (pcbs s p) = int p" using i by (simp add: table_inv_def)
  with True show ?thesis by (simp add: find_pcb_def)
next
  case False
  let ?P = "\<lambda>q. p_pid (pcbs s q) = p_pid (pcbs s p) \<and> p_status (pcbs s q) \<noteq> TASK_EXITED"
  have ok: "pids_ok s" using i by (simp add: table_inv_def)
  then have pid: "int NR_CPUS \<le> p_pid (pcbs s p)" using False p by (simp add: pids_ok_def)
  have uniq: "q = p" if "q < NUM_MAX_PCB" "NR_CPUS \<le> q" "?P q" for q
    using ok that False p by (auto simp: pids_ok_def inj_on_def)
  have "find ?P [NR_CPUS..<NUM_MAX_PCB] \<noteq> None"
    using False p by (auto simp: find_None_iff)
  then obtain q where q: "find ?P [NR_CPUS..<NUM_MAX_PCB] = Some q" by blast
  then have "q = p" using uniq find_SomeD [OF q] by auto
  with q pid show ?thesis by (simp add: find_pcb_def)
qed

lemma get_pcb_index_live:
  assumes "table_inv s" "p < NUM_MAX_PCB" "p_status (pcbs s p) \<noteq> TASK_EXITED"
  shows "get_pcb_index (p_pid (pcbs s p)) s = Some p"
proof -
  have "find (\<lambda>i. Some i = Some p) [0..<NUM_MAX_PCB] = Some p"
  proof -
    have "find (\<lambda>i. Some i = Some p) [0..<NUM_MAX_PCB] \<noteq> None" using assms(2) by (auto simp: find_None_iff)
    then obtain q where "find (\<lambda>i. Some i = Some p) [0..<NUM_MAX_PCB] = Some q" by blast
    then show ?thesis by (auto simp: find_Some_iff)
  qed
  then show ?thesis by (simp add: get_pcb_index_def find_pcb_live [OF assms])
qed

lemma get_pcb_index_current:
  assumes "kinv s"
  shows "get_pcb_index (p_pid (pcbs s (current_running s))) s = Some (current_running s)"
  using assms by (intro get_pcb_index_live kinv_current(1)) (auto simp: kinv_def)

end
