(* ===== verification/Sync.thy ===== *)
theory Sync
  imports Blocking
begin

unbundle bit_operations_syntax

text \<open>
  The synchronisation objects of \<open>kernel/locking\<close>: mutexes (\<open>mutex.cpp\<close>), condition variables
  (\<open>condition.cpp\<close>), semaphores (\<open>semaphore.cpp\<close>) and barriers (\<open>barrier.cpp\<close>).

  \<^item> The arrays \<open>mlocks\<close>, \<open>conditions\<close>, \<open>semaphores\<close>, \<open>barriers\<close> are functions of the index; the
    lists of blocked processes are the channels of \<open>Sched\<close>. Mailboxes contain a mutex and two
    condition variables of their own, so mutexes and conditions are named by \<open>mutex_ref\<close> and
    \<open>cond_ref\<close>.
  \<^item> The spin locks inside the objects are taken and released while the kernel lock is held, so
    they never wait and have no state here.
  \<^item> An operation that blocks is modelled up to and including the switch to another process. What
    it does when its process runs again is part of the model where there is something left to do:
    the loop of \<open>mutex_acquire\<close> makes another pass, \<open>condition_wait\<close> takes the mutex again.
  \<^item> \<open>list_init\<close> of a list that still links processes would leave them on a list that nobody can
    reach. It is outside the list specification and counts as a failure here (\<open>init_list\<close>).
\<close>

section \<open>State\<close>

record mutex_lock =
  m_acquired :: bool
  m_pid :: int
  m_key :: int

record semaphore =
  s_key :: int
  s_count :: int

record barrier =
  b_key :: int
  b_goal :: int
  b_current :: int

type_synonym pid_bitmap = u64

record sync_state = sched_state +
  mutexes :: "mutex_ref \<Rightarrow> mutex_lock"
  mlock_ref :: "nat \<Rightarrow> pid_bitmap"
  cond_key :: "cond_ref \<Rightarrow> int"
  cond_refs :: "nat \<Rightarrow> pid_bitmap"
  semaphores :: "nat \<Rightarrow> semaphore"
  sema_ref :: "nat \<Rightarrow> pid_bitmap"
  barriers :: "nat \<Rightarrow> barrier"
  barrier_ref :: "nat \<Rightarrow> pid_bitmap"

definition LOCK_NUM :: nat where "LOCK_NUM = 16"
definition CONDITION_NUM :: nat where "CONDITION_NUM = 16"
definition SEMAPHORE_NUM :: nat where "SEMAPHORE_NUM = 16"
definition BARRIER_NUM :: nat where "BARRIER_NUM = 16"

definition upd_mutex ::
  "mutex_ref \<Rightarrow> (mutex_lock \<Rightarrow> mutex_lock) \<Rightarrow> ('a) sync_state_scheme \<Rightarrow> ('a) sync_state_scheme" where
  "upd_mutex r f s = s\<lparr>mutexes := (mutexes s)(r := f (mutexes s r))\<rparr>"

definition upd_sema ::
  "nat \<Rightarrow> (semaphore \<Rightarrow> semaphore) \<Rightarrow> ('a) sync_state_scheme \<Rightarrow> ('a) sync_state_scheme" where
  "upd_sema i f s = s\<lparr>semaphores := (semaphores s)(i := f (semaphores s i))\<rparr>"

definition upd_barrier ::
  "nat \<Rightarrow> (barrier \<Rightarrow> barrier) \<Rightarrow> ('a) sync_state_scheme \<Rightarrow> ('a) sync_state_scheme" where
  "upd_barrier i f s = s\<lparr>barriers := (barriers s)(i := f (barriers s i))\<rparr>"

definition init_list :: "chan \<Rightarrow> ('a) sched_state_scheme \<Rightarrow> (('a) sched_state_scheme) option" where
  "init_list l s = do { asserts (waiting s l = []); Some s }"

text \<open>
  The search all \<open>do_..._init\<close> calls share: the first object in use with this key, else the first
  object not in use; the flag says that the object is new. \<open>None\<close> is the failing assertion.
\<close>

definition find_slot :: "(nat \<Rightarrow> pid_bitmap) \<Rightarrow> (nat \<Rightarrow> bool) \<Rightarrow> nat \<Rightarrow> (bool \<times> nat) option" where
  "find_slot ref has_key n =
     (case find (\<lambda>i. ref i \<noteq> 0 \<and> has_key i) [0..<n] of
        Some i \<Rightarrow> Some (False, i)
      | None \<Rightarrow> map_option (Pair True) (find (\<lambda>i. ref i = 0) [0..<n]))"

definition add_ref :: "nat \<Rightarrow> nat \<Rightarrow> (nat \<Rightarrow> pid_bitmap) \<Rightarrow> nat \<Rightarrow> pid_bitmap" where
  "add_ref i pcb_index ref = ref(i := ref i OR push_bit pcb_index 1)"

definition del_ref :: "nat \<Rightarrow> nat \<Rightarrow> (nat \<Rightarrow> pid_bitmap) \<Rightarrow> nat \<Rightarrow> pid_bitmap" where
  "del_ref i pcb_index ref = ref(i := ref i AND NOT (push_bit pcb_index 1))"

definition my_index :: "('a) sched_state_scheme \<Rightarrow> nat option" where
  "my_index s = get_pcb_index (p_pid (pcbs s (current_running s))) s"

text \<open>A \<open>for\<close> loop over the objects.\<close>

primrec for_each :: "(nat \<Rightarrow> 's \<Rightarrow> 's option) \<Rightarrow> nat list \<Rightarrow> 's \<Rightarrow> 's option" where
  "for_each f [] s = Some s"
| "for_each f (i # is) s = do { s' \<leftarrow> f i s; for_each f is s' }"

section \<open>Mutexes\<close>

definition init_locks :: "('a) sync_state_scheme \<Rightarrow> ('a) sync_state_scheme" where
  "init_locks s = s\<lparr>mlock_ref := (\<lambda>i. if i < LOCK_NUM then 0 else mlock_ref s i)\<rparr>"

definition mutex_init :: "mutex_ref \<Rightarrow> ('a) sync_state_scheme \<Rightarrow> (('a) sync_state_scheme) option" where
  "mutex_init r s =
     init_list (Mutex_list r) (upd_mutex r (\<lambda>_. \<lparr>m_acquired = False, m_pid = -1, m_key = -1\<rparr>) s)"

definition mutex_release :: "mutex_ref \<Rightarrow> ('a) sync_state_scheme \<Rightarrow> (('a) sync_state_scheme) option" where
  "mutex_release r s = unblock_list (Mutex_list r) (upd_mutex r (m_acquired_update (\<lambda>_. False)) s)"

definition mutex_destruct :: "mutex_ref \<Rightarrow> ('a) sync_state_scheme \<Rightarrow> (('a) sync_state_scheme) option" where
  "mutex_destruct r s = do {
     s1 \<leftarrow> unblock_list (Mutex_list r) (upd_mutex r (m_acquired_update (\<lambda>_. False)) s);
     Some (case r of
        Mlock i \<Rightarrow> if i < LOCK_NUM then s1\<lparr>mlock_ref := (mlock_ref s1)(i := 0)\<rparr> else s1
      | Mbox_lock i \<Rightarrow> s1)
   }"

definition cleanup_mutexes :: "int \<Rightarrow> ('a) sync_state_scheme \<Rightarrow> (('a) sync_state_scheme) option" where
  "cleanup_mutexes pid s = do {
     s1 \<leftarrow> for_each (\<lambda>i s. let m = mutexes s (Mlock i) in
             if mlock_ref s i \<noteq> 0 \<and> m_acquired m \<and> m_pid m = pid
             then mutex_release (Mlock i) s else Some s) [0..<LOCK_NUM] s;
     for_each (\<lambda>i s. do {
         pcb_index \<leftarrow> get_pcb_index pid s;
         if mlock_ref s i AND push_bit pcb_index 1 \<noteq> 0
         then let s' = s\<lparr>mlock_ref := del_ref i pcb_index (mlock_ref s)\<rparr>
              in if mlock_ref s' i = 0 then mutex_destruct (Mlock i) s' else Some s'
         else Some s
       }) [0..<LOCK_NUM] s1
   }"

definition do_mutex_lock_init :: "int \<Rightarrow> ('a) sync_state_scheme \<Rightarrow> (int \<times> ('a) sync_state_scheme) option" where
  "do_mutex_lock_init key s = do {
     pcb_index \<leftarrow> my_index s;
     (new, i) \<leftarrow> find_slot (mlock_ref s) (\<lambda>i. m_key (mutexes s (Mlock i)) = key) LOCK_NUM;
     s1 \<leftarrow> (if new then do {
              s' \<leftarrow> mutex_init (Mlock i) s;
              Some (upd_mutex (Mlock i) (m_key_update (\<lambda>_. key)) s')
            } else Some s);
     Some (int i, s1\<lparr>mlock_ref := add_ref i pcb_index (mlock_ref s1)\<rparr>)
   }"

text \<open>
  One pass of the loop of \<open>mutex_acquire\<close>: the mutex is taken and the call returns (\<open>True\<close>), or
  the process blocks; when it runs again it makes the next pass.
\<close>

definition mutex_acquire ::
  "mutex_ref \<Rightarrow> ('a) sync_state_scheme \<Rightarrow> (bool \<times> ('a) sync_state_scheme) option" where
  "mutex_acquire r s =
     (if \<not> m_acquired (mutexes s r)
      then Some (True, upd_mutex r (\<lambda>m. m\<lparr>m_acquired := True, m_pid := p_pid (pcbs s (current_running s))\<rparr>) s)
      else do {
        s1 \<leftarrow> do_block (current_running s) (Mutex_list r) s;
        s2 \<leftarrow> do_scheduler s1;
        Some (False, s2)
      })"

definition do_mutex_lock_acquire ::
  "int \<Rightarrow> ('a) sync_state_scheme \<Rightarrow> (bool \<times> ('a) sync_state_scheme) option" where
  "do_mutex_lock_acquire mlock_idx s =
     (if mlock_idx < 0 \<or> mlock_idx \<ge> int LOCK_NUM then Some (True, s)
      else mutex_acquire (Mlock (nat mlock_idx)) s)"

definition do_mutex_lock_release :: "int \<Rightarrow> ('a) sync_state_scheme \<Rightarrow> (('a) sync_state_scheme) option" where
  "do_mutex_lock_release mlock_idx s =
     (if mlock_idx < 0 \<or> mlock_idx \<ge> int LOCK_NUM then Some s
      else let i = nat mlock_idx in
        if mlock_ref s i = 0 then Some s
        else if m_pid (mutexes s (Mlock i)) \<noteq> p_pid (pcbs s (current_running s)) then Some s
        else mutex_release (Mlock i) s)"

section \<open>Condition variables\<close>

definition condition_init :: "cond_ref \<Rightarrow> ('a) sync_state_scheme \<Rightarrow> (('a) sync_state_scheme) option" where
  "condition_init c s = init_list (Cond_list c) s"

definition condition_destruct :: "cond_ref \<Rightarrow> ('a) sync_state_scheme \<Rightarrow> (('a) sync_state_scheme) option" where
  "condition_destruct c s = unblock_list (Cond_list c) s"

definition init_conditions :: "('a) sync_state_scheme \<Rightarrow> ('a) sync_state_scheme" where
  "init_conditions s = s\<lparr>cond_refs := (\<lambda>i. if i < CONDITION_NUM then 0 else cond_refs s i)\<rparr>"

definition cleanup_conditions :: "int \<Rightarrow> ('a) sync_state_scheme \<Rightarrow> (('a) sync_state_scheme) option" where
  "cleanup_conditions pid s =
     for_each (\<lambda>i s. do {
         pcb_index \<leftarrow> get_pcb_index pid s;
         if cond_refs s i AND push_bit pcb_index 1 \<noteq> 0
         then let s' = s\<lparr>cond_refs := del_ref i pcb_index (cond_refs s)\<rparr>
              in if cond_refs s' i = 0 then condition_destruct (Cond i) s' else Some s'
         else Some s
       }) [0..<CONDITION_NUM] s"

definition do_condition_init :: "int \<Rightarrow> ('a) sync_state_scheme \<Rightarrow> (int \<times> ('a) sync_state_scheme) option" where
  "do_condition_init key s = do {
     (new, i) \<leftarrow> find_slot (cond_refs s) (\<lambda>i. cond_key s (Cond i) = key) CONDITION_NUM;
     s1 \<leftarrow> (if new then do {
              s' \<leftarrow> condition_init (Cond i) s;
              Some (s'\<lparr>cond_key := (cond_key s')(Cond i := key)\<rparr>)
            } else Some s);
     pcb_index \<leftarrow> my_index s1;
     Some (int i, s1\<lparr>cond_refs := add_ref i pcb_index (cond_refs s1)\<rparr>)
   }"

text \<open>
  \<open>condition_wait\<close> up to the switch; running again, the process takes the mutex with
  \<open>mutex_acquire\<close> (the destructor of \<open>without_mutex\<close> in \<open>guard.hpp\<close>).
\<close>

definition condition_wait ::
  "cond_ref \<Rightarrow> mutex_ref \<Rightarrow> ('a) sync_state_scheme \<Rightarrow> (('a) sync_state_scheme) option" where
  "condition_wait c r s = do {
     s1 \<leftarrow> do_block (current_running s) (Cond_list c) s;
     s2 \<leftarrow> mutex_release r s1;
     do_scheduler s2
   }"

definition condition_broadcast :: "cond_ref \<Rightarrow> ('a) sync_state_scheme \<Rightarrow> (('a) sync_state_scheme) option" where
  "condition_broadcast c s = unblock_list (Cond_list c) s"

definition condition_signal :: "cond_ref \<Rightarrow> ('a) sync_state_scheme \<Rightarrow> ('a) sync_state_scheme" where
  "condition_signal c s = wake_one (Cond_list c) s"

definition do_condition_wait ::
  "int \<Rightarrow> int \<Rightarrow> ('a) sync_state_scheme \<Rightarrow> (('a) sync_state_scheme) option" where
  "do_condition_wait cond_idx mutex_idx s =
     (if cond_idx < 0 \<or> cond_idx \<ge> int CONDITION_NUM then Some s
      else if mutex_idx < 0 \<or> mutex_idx \<ge> int LOCK_NUM then Some s
      else if cond_refs s (nat cond_idx) = 0 then Some s
      else condition_wait (Cond (nat cond_idx)) (Mlock (nat mutex_idx)) s)"

definition do_condition_broadcast :: "int \<Rightarrow> ('a) sync_state_scheme \<Rightarrow> (('a) sync_state_scheme) option" where
  "do_condition_broadcast cond_idx s =
     (if cond_idx < 0 \<or> cond_idx \<ge> int CONDITION_NUM then Some s
      else if cond_refs s (nat cond_idx) = 0 then Some s
      else condition_broadcast (Cond (nat cond_idx)) s)"

definition do_condition_signal :: "int \<Rightarrow> ('a) sync_state_scheme \<Rightarrow> (('a) sync_state_scheme) option" where
  "do_condition_signal cond_idx s =
     (if cond_idx < 0 \<or> cond_idx \<ge> int CONDITION_NUM then Some s
      else if cond_refs s (nat cond_idx) = 0 then Some s
      else Some (condition_signal (Cond (nat cond_idx)) s))"

definition do_condition_destroy :: "int \<Rightarrow> ('a) sync_state_scheme \<Rightarrow> (('a) sync_state_scheme) option" where
  "do_condition_destroy cond_idx s =
     (if cond_idx < 0 \<or> cond_idx \<ge> int CONDITION_NUM then Some s
      else let i = nat cond_idx in
        if cond_refs s i = 0 then Some s
        else condition_destruct (Cond i) (s\<lparr>cond_refs := (cond_refs s)(i := 0)\<rparr>))"

section \<open>Semaphores\<close>

definition semaphore_init :: "nat \<Rightarrow> ('a) sync_state_scheme \<Rightarrow> (('a) sync_state_scheme) option" where
  "semaphore_init i s = init_list (Sema_list i) (upd_sema i (\<lambda>_. \<lparr>s_key = -1, s_count = 0\<rparr>) s)"

definition semaphore_destruct :: "nat \<Rightarrow> ('a) sync_state_scheme \<Rightarrow> (('a) sync_state_scheme) option" where
  "semaphore_destruct i s = unblock_list (Sema_list i) (upd_sema i (\<lambda>_. \<lparr>s_key = -1, s_count = 0\<rparr>) s)"

definition init_semaphores :: "('a) sync_state_scheme \<Rightarrow> ('a) sync_state_scheme" where
  "init_semaphores s = s\<lparr>sema_ref := (\<lambda>i. if i < SEMAPHORE_NUM then 0 else sema_ref s i)\<rparr>"

definition cleanup_semaphores :: "int \<Rightarrow> ('a) sync_state_scheme \<Rightarrow> (('a) sync_state_scheme) option" where
  "cleanup_semaphores pid s =
     for_each (\<lambda>i s. do {
         pcb_index \<leftarrow> get_pcb_index pid s;
         if sema_ref s i AND push_bit pcb_index 1 \<noteq> 0
         then let s' = s\<lparr>sema_ref := del_ref i pcb_index (sema_ref s)\<rparr>
              in if sema_ref s' i = 0 then semaphore_destruct i s' else Some s'
         else Some s
       }) [0..<SEMAPHORE_NUM] s"

definition do_semaphore_init ::
  "int \<Rightarrow> int \<Rightarrow> ('a) sync_state_scheme \<Rightarrow> (int \<times> ('a) sync_state_scheme) option" where
  "do_semaphore_init key init s = do {
     (new, i) \<leftarrow> find_slot (sema_ref s) (\<lambda>i. s_key (semaphores s i) = key) SEMAPHORE_NUM;
     s1 \<leftarrow> (if new then do {
              s' \<leftarrow> semaphore_init i (s\<lparr>sema_ref := (sema_ref s)(i := 1)\<rparr>);
              Some (upd_sema i (\<lambda>_. \<lparr>s_key = key, s_count = init\<rparr>) s')
            } else Some s);
     pcb_index \<leftarrow> my_index s1;
     Some (int i, s1\<lparr>sema_ref := add_ref i pcb_index (sema_ref s1)\<rparr>)
   }"

definition do_semaphore_down :: "int \<Rightarrow> ('a) sync_state_scheme \<Rightarrow> (('a) sync_state_scheme) option" where
  "do_semaphore_down sema_idx s =
     (if sema_idx < 0 \<or> sema_idx \<ge> int SEMAPHORE_NUM then Some s
      else let i = nat sema_idx in
        if sema_ref s i = 0 then Some s
        else let s1 = upd_sema i (s_count_update (\<lambda>c. c - 1)) s in
          if s_count (semaphores s1 i) < 0
          then do { s2 \<leftarrow> do_block (current_running s1) (Sema_list i) s1; do_scheduler s2 }
          else Some s1)"

definition do_semaphore_up :: "int \<Rightarrow> ('a) sync_state_scheme \<Rightarrow> (('a) sync_state_scheme) option" where
  "do_semaphore_up sema_idx s =
     (if sema_idx < 0 \<or> sema_idx \<ge> int SEMAPHORE_NUM then Some s
      else let i = nat sema_idx in
        if sema_ref s i = 0 then Some s
        else let s1 = upd_sema i (s_count_update (\<lambda>c. c + 1)) s in
          if s_count (semaphores s1 i) \<le> 0
          then do { asserts (waiting s1 (Sema_list i) \<noteq> []); Some (wake_one (Sema_list i) s1) }
          else Some s1)"

text \<open>The range check of \<open>do_semaphore_destroy\<close> only logs; the access out of range is \<open>None\<close>.\<close>

definition do_semaphore_destroy :: "int \<Rightarrow> ('a) sync_state_scheme \<Rightarrow> (('a) sync_state_scheme) option" where
  "do_semaphore_destroy sema_idx s =
     (if sema_idx < 0 \<or> sema_idx \<ge> int SEMAPHORE_NUM then None
      else let i = nat sema_idx in
        if sema_ref s i = 0 then Some s
        else semaphore_destruct i (s\<lparr>sema_ref := (sema_ref s)(i := 0)\<rparr>))"

section \<open>Barriers\<close>

definition barrier_init :: "nat \<Rightarrow> ('a) sync_state_scheme \<Rightarrow> (('a) sync_state_scheme) option" where
  "barrier_init i s =
     init_list (Barrier_list i) (upd_barrier i (\<lambda>b. b\<lparr>b_goal := 0, b_current := 0\<rparr>) s)"

definition barrier_destruct :: "nat \<Rightarrow> ('a) sync_state_scheme \<Rightarrow> (('a) sync_state_scheme) option" where
  "barrier_destruct i s = unblock_list (Barrier_list i) s"

definition init_barriers :: "('a) sync_state_scheme \<Rightarrow> ('a) sync_state_scheme" where
  "init_barriers s = s\<lparr>barrier_ref := (\<lambda>i. if i < BARRIER_NUM then 0 else barrier_ref s i)\<rparr>"

definition cleanup_barriers :: "int \<Rightarrow> ('a) sync_state_scheme \<Rightarrow> (('a) sync_state_scheme) option" where
  "cleanup_barriers pid s =
     for_each (\<lambda>i s. do {
         pcb_index \<leftarrow> get_pcb_index pid s;
         if barrier_ref s i AND push_bit pcb_index 1 \<noteq> 0
         then let s' = s\<lparr>barrier_ref := del_ref i pcb_index (barrier_ref s)\<rparr>
              in if barrier_ref s' i = 0 then barrier_destruct i s' else Some s'
         else Some s
       }) [0..<BARRIER_NUM] s"

text \<open>The key is compared but never stored.\<close>

definition do_barrier_init ::
  "int \<Rightarrow> int \<Rightarrow> ('a) sync_state_scheme \<Rightarrow> (int \<times> ('a) sync_state_scheme) option" where
  "do_barrier_init key goal s = do {
     pcb_index \<leftarrow> my_index s;
     (new, i) \<leftarrow> find_slot (barrier_ref s) (\<lambda>i. b_key (barriers s i) = key) BARRIER_NUM;
     s1 \<leftarrow> (if new then do {
              s' \<leftarrow> barrier_init i s;
              Some (upd_barrier i (b_goal_update (\<lambda>_. goal)) s')
            } else Some s);
     Some (int i, s1\<lparr>barrier_ref := add_ref i pcb_index (barrier_ref s1)\<rparr>)
   }"

definition do_barrier_wait :: "int \<Rightarrow> ('a) sync_state_scheme \<Rightarrow> (('a) sync_state_scheme) option" where
  "do_barrier_wait bar_idx s =
     (if bar_idx < 0 \<or> bar_idx \<ge> int BARRIER_NUM then Some s
      else let i = nat bar_idx in
        if barrier_ref s i = 0 then Some s
        else do {
          asserts (b_current (barriers s i) < b_goal (barriers s i));
          let s1 = upd_barrier i (b_current_update (\<lambda>c. c + 1)) s;
          if b_current (barriers s1 i) < b_goal (barriers s1 i)
          then do { s2 \<leftarrow> do_block (current_running s1) (Barrier_list i) s1; do_scheduler s2 }
          else unblock_list (Barrier_list i) (upd_barrier i (b_current_update (\<lambda>_. 0)) s1)
        })"

definition do_barrier_destroy :: "int \<Rightarrow> ('a) sync_state_scheme \<Rightarrow> (('a) sync_state_scheme) option" where
  "do_barrier_destroy bar_idx s =
     (if bar_idx < 0 \<or> bar_idx \<ge> int BARRIER_NUM then Some s
      else let i = nat bar_idx in
        if barrier_ref s i = 0 then Some s
        else barrier_destruct i (s\<lparr>barrier_ref := (barrier_ref s)(i := 0)\<rparr>))"

section \<open>Invariant\<close>

text \<open>
  A free mutex has no waiters: nobody is left blocked on a lock that could be taken. Processes wait
  on conditions in use only. The negative part of a semaphore counts its waiters. A barrier in use
  has as many waiters as \<open>current\<close> says, and fewer than its goal.
\<close>

definition mutex_ok :: "('a) sync_state_scheme \<Rightarrow> mutex_ref \<Rightarrow> bool" where
  "mutex_ok s r \<longleftrightarrow> (\<not> m_acquired (mutexes s r) \<longrightarrow> waiting s (Mutex_list r) = [])"

definition cond_ok :: "('a) sync_state_scheme \<Rightarrow> nat \<Rightarrow> bool" where
  "cond_ok s i \<longleftrightarrow> (cond_refs s i = 0 \<longrightarrow> waiting s (Cond_list (Cond i)) = [])"

definition sema_ok :: "('a) sync_state_scheme \<Rightarrow> nat \<Rightarrow> bool" where
  "sema_ok s i \<longleftrightarrow> int (length (waiting s (Sema_list i))) = max 0 (- s_count (semaphores s i)) \<and>
     (sema_ref s i = 0 \<longrightarrow> s_count (semaphores s i) = 0)"

definition barrier_ok :: "('a) sync_state_scheme \<Rightarrow> nat \<Rightarrow> bool" where
  "barrier_ok s i \<longleftrightarrow>
     (if barrier_ref s i = 0 then waiting s (Barrier_list i) = []
      else int (length (waiting s (Barrier_list i))) = b_current (barriers s i) \<and>
           (b_current (barriers s i) = 0 \<or> b_current (barriers s i) < b_goal (barriers s i)))"

definition sync_inv :: "('a) sync_state_scheme \<Rightarrow> bool" where
  "sync_inv s \<longleftrightarrow> (\<forall>r. mutex_ok s r) \<and> (\<forall>i. cond_ok s i) \<and> (\<forall>i. sema_ok s i) \<and> (\<forall>i. barrier_ok s i)"

lemmas sync_inv_defs = sync_inv_def mutex_ok_def cond_ok_def sema_ok_def barrier_ok_def

subsection \<open>Frame\<close>

lemma more_sync:
  assumes "sched_state.more s' = sched_state.more (s :: ('a) sync_state_scheme)"
  shows "mutexes s' = mutexes s" "mlock_ref s' = mlock_ref s" "cond_key s' = cond_key s" "cond_refs s' = cond_refs s"
    "semaphores s' = semaphores s" "sema_ref s' = sema_ref s" "barriers s' = barriers s" "barrier_ref s' = barrier_ref s"
    "sync_state.more s' = sync_state.more s"
  using assms by (cases s; cases s'; simp)+

lemma same_but_sync:
  assumes "same_but ls s (s' :: ('a) sync_state_scheme)"
  shows "mutexes s' = mutexes s" "mlock_ref s' = mlock_ref s" "cond_key s' = cond_key s" "cond_refs s' = cond_refs s"
    "semaphores s' = semaphores s" "sema_ref s' = sema_ref s" "barriers s' = barriers s" "barrier_ref s' = barrier_ref s"
    "sync_state.more s' = sync_state.more s"
  using more_sync [OF same_butD(1) [OF assms]] by blast+

lemma kinv_ext [simp]:
  fixes s :: "('a) sync_state_scheme"
  shows "kinv (s\<lparr>mutexes := f\<rparr>) = kinv s" "kinv (s\<lparr>mlock_ref := g\<rparr>) = kinv s" "kinv (s\<lparr>cond_key := h\<rparr>) = kinv s"
    "kinv (s\<lparr>cond_refs := g\<rparr>) = kinv s" "kinv (s\<lparr>semaphores := j\<rparr>) = kinv s" "kinv (s\<lparr>sema_ref := g\<rparr>) = kinv s"
    "kinv (s\<lparr>barriers := k\<rparr>) = kinv s" "kinv (s\<lparr>barrier_ref := g\<rparr>) = kinv s"
  by (simp_all add: kinv_def table_inv_def pids_ok_def harts_inv_def)

lemma inv_mutexes [simp]:
  fixes s :: "('a) sync_state_scheme"
  shows "table_inv (s\<lparr>mutexes := f\<rparr>) = table_inv s" "harts_inv (s\<lparr>mutexes := f\<rparr>) = harts_inv s"
  by (simp_all add: table_inv_def pids_ok_def harts_inv_def)

lemmas upd_defs = upd_mutex_def upd_sema_def upd_barrier_def

text \<open>An operation that changes one object and its list keeps the invariant of all the others.\<close>

lemma sync_inv_mutex:
  assumes "sync_inv s" and "same_but {Mutex_list r} s1 s'" "s1 = s\<lparr>mutexes := (mutexes s)(r := m), mlock_ref := g\<rparr>"
    and "\<not> m_acquired m \<longrightarrow> waiting s' (Mutex_list r) = []"
  shows "sync_inv s'"
  using assms(1,4) same_but_sync [OF assms(2)] same_butD(7) [OF assms(2)] unfolding sync_inv_defs
  by (simp add: assms(3) fun_upd_def)

lemma sync_inv_cond:
  assumes "sync_inv s" and "same_but {Cond_list (Cond i)} s1 s'"
    "s1 = s\<lparr>cond_key := k, cond_refs := (cond_refs s)(i := g)\<rparr>"
    and "g = 0 \<Longrightarrow> waiting s' (Cond_list (Cond i)) = []"
  shows "sync_inv s'"
  using assms(1,4) same_but_sync [OF assms(2)] same_butD(7) [OF assms(2)] unfolding sync_inv_defs
  by (simp add: assms(3) fun_upd_def)

lemma sync_inv_sema:
  assumes "sync_inv s" and "same_but {Sema_list i} s1 s'"
    "s1 = s\<lparr>semaphores := (semaphores s)(i := x), sema_ref := (sema_ref s)(i := g)\<rparr>"
    and "int (length (waiting s' (Sema_list i))) = max 0 (- s_count x)" "g = 0 \<Longrightarrow> s_count x = 0"
  shows "sync_inv s'"
  using assms(1,4,5) same_but_sync [OF assms(2)] same_butD(7) [OF assms(2)] unfolding sync_inv_defs
  by (simp add: assms(3) fun_upd_def)

lemma sync_inv_barrier:
  assumes "sync_inv s" and "same_but {Barrier_list i} s1 s'"
    "s1 = s\<lparr>barriers := (barriers s)(i := x), barrier_ref := (barrier_ref s)(i := g)\<rparr>"
    and "g = 0 \<Longrightarrow> waiting s' (Barrier_list i) = []"
    and "g \<noteq> 0 \<Longrightarrow> int (length (waiting s' (Barrier_list i))) = b_current x \<and> (b_current x = 0 \<or> b_current x < b_goal x)"
  shows "sync_inv s'"
  using assms(1,4,5) same_but_sync [OF assms(2)] same_butD(7) [OF assms(2)] unfolding sync_inv_defs
  by (simp add: assms(3) fun_upd_def)

subsection \<open>The operations keep the invariant\<close>

definition safe :: "('a) sync_state_scheme \<Rightarrow> bool" where
  "safe s \<longleftrightarrow> kinv s \<and> sync_inv s"

lemma safeI: "kinv s \<Longrightarrow> sync_inv s \<Longrightarrow> safe s"
  by (simp add: safe_def)

lemma safeD: "safe s \<Longrightarrow> kinv s" "safe s \<Longrightarrow> sync_inv s"
  by (simp_all add: safe_def)

text \<open>The two ways an operation ends: the first list of waiters is woken, or the caller blocks.\<close>

lemma mutex_wake:
  assumes s: "safe s"
  obtains s' where "unblock_list (Mutex_list r) (s\<lparr>mutexes := (mutexes s)(r := m), mlock_ref := g\<rparr>) = Some s'"
    "safe s'" "same_but {Mutex_list r} (s\<lparr>mutexes := (mutexes s)(r := m), mlock_ref := g\<rparr>) s'"
    "waiting s' (Mutex_list r) = []" "currents s' = currents s"
proof -
  let ?s = "s\<lparr>mutexes := (mutexes s)(r := m), mlock_ref := g\<rparr>"
  obtain s' where s': "unblock_list (Mutex_list r) ?s = Some s'" "kinv s'" "same_but {Mutex_list r} ?s s'"
      "waiting s' (Mutex_list r) = []" "currents s' = currents ?s"
    using unblock_list_spec [of ?s "Mutex_list r"] safeD(1) [OF s] by auto
  then have "sync_inv s'" using sync_inv_mutex [OF safeD(2) [OF s] s'(3) refl] by simp
  with s' that show thesis by (simp add: safe_def)
qed

lemma mutex_release_safe:
  assumes "safe s"
  obtains s' where "mutex_release r s = Some s'" "safe s'" "waiting s' (Mutex_list r) = []" "currents s' = currents s"
    "mutexes s' = (mutexes s)(r := (mutexes s r)\<lparr>m_acquired := False\<rparr>)" "mlock_ref s' = mlock_ref s"
proof (rule mutex_wake [OF assms, where r = r and m = "(mutexes s r)\<lparr>m_acquired := False\<rparr>" and g = "mlock_ref s"])
  fix s' assume a: "unblock_list (Mutex_list r) (s\<lparr>mutexes := (mutexes s)(r := (mutexes s r)\<lparr>m_acquired := False\<rparr>),
      mlock_ref := mlock_ref s\<rparr>) = Some s'" "safe s'" "waiting s' (Mutex_list r) = []" "currents s' = currents s"
    "same_but {Mutex_list r} (s\<lparr>mutexes := (mutexes s)(r := (mutexes s r)\<lparr>m_acquired := False\<rparr>),
      mlock_ref := mlock_ref s\<rparr>) s'"
  show thesis using a same_but_sync(1,2) [OF a(5)] by (intro that [of s']) (simp_all add: mutex_release_def upd_mutex_def)
qed

lemma mutex_acquire_safe:
  assumes s: "safe s" and u: "NR_CPUS \<le> current_running s"
  obtains b s' where "mutex_acquire r s = Some (b, s')" "safe s'" "b \<longleftrightarrow> \<not> m_acquired (mutexes s r)"
    "mutexes s' = (if b then (mutexes s)(r := (mutexes s r)\<lparr>m_acquired := True, m_pid := p_pid (pcbs s (current_running s))\<rparr>)
                   else mutexes s)" "mlock_ref s' = mlock_ref s"
proof (cases "m_acquired (mutexes s r)")
  case True
  obtain s' where s': "block_on (Mutex_list r) s = Some s'" "kinv s'" "same_but {Mutex_list r} s s'"
    by (rule block_on_spec [OF safeD(1) [OF s] u, of "Mutex_list r"]) auto
  have "sync_inv s'"
    by (rule sync_inv_mutex [OF safeD(2) [OF s] s'(3), where m = "mutexes s r" and g = "mlock_ref s"])
       (simp_all add: True)
  with s' True that [of False s'] same_but_sync [OF s'(3)] show thesis
    by (auto simp: mutex_acquire_def block_on_def safe_def elim!: bind_SomeE)
next
  case False
  let ?m = "(mutexes s r)\<lparr>m_acquired := True, m_pid := p_pid (pcbs s (current_running s))\<rparr>"
  have "safe (s\<lparr>mutexes := (mutexes s)(r := ?m)\<rparr>)"
    using s unfolding safe_def sync_inv_defs by (simp add: fun_upd_def)
  with False that [of True] show thesis by (simp add: mutex_acquire_def upd_mutex_def)
qed

lemma add_ref_nz: "k < 64 \<Longrightarrow> add_ref i k ref i \<noteq> 0"
  by (auto simp: add_ref_def bit_eq_iff bit_simps)

lemma find_slot_new: "find_slot ref P n = Some (True, i) \<Longrightarrow> ref i = 0 \<and> i < n"
  by (auto simp: find_slot_def dest!: find_SomeD split: option.splits)

lemma my_index_ext [simp]:
  fixes s :: "('a) sync_state_scheme"
  shows "my_index (s\<lparr>mutexes := f\<rparr>) = my_index s" "my_index (s\<lparr>cond_key := h\<rparr>) = my_index s"
    "my_index (s\<lparr>semaphores := j\<rparr>) = my_index s" "my_index (s\<lparr>sema_ref := g\<rparr>) = my_index s"
    "my_index (s\<lparr>barriers := k\<rparr>) = my_index s"
  by (simp_all add: my_index_def get_pcb_index_def find_pcb_def)

lemma my_index_safe: "kinv s \<Longrightarrow> my_index s = Some (current_running s) \<and> current_running s < 64"
  using get_pcb_index_current [of s] kinv_current(1) [of s]
  by (simp add: my_index_def NUM_MAX_PCB_def NUM_MAX_TASK_def NR_CPUS_def)

text \<open>
  \<open>do_mutex_lock_init\<close> panics when all mutexes are in use, and loses processes when one blocks on
  the unused mutex it takes; \<open>do_mutex_lock_acquire\<close> does not check that the mutex is in use.
\<close>

lemma do_mutex_lock_init_safe:
  assumes s: "safe s" and r: "do_mutex_lock_init key s = Some (n, s')"
  shows "safe s'"
    "mutexes s' (Mlock i) = mutexes s (Mlock i) \<or> n = int i \<and> mlock_ref s i = 0"
proof -
  obtain new j where j: "find_slot (mlock_ref s) (\<lambda>i. m_key (mutexes s (Mlock i)) = key) LOCK_NUM = Some (new, j)"
    using r by (auto simp: do_mutex_lock_init_def elim!: bind_SomeE)
  note k = my_index_safe [OF safeD(1) [OF s]]
  let ?m = "\<lparr>m_acquired = False, m_pid = -1, m_key = key\<rparr>"
  have n: "n = int j" and s': "s' = (if new then s\<lparr>mutexes := (mutexes s)(Mlock j := ?m),
        mlock_ref := add_ref j (current_running s) (mlock_ref s)\<rparr>
      else s\<lparr>mlock_ref := add_ref j (current_running s) (mlock_ref s)\<rparr>)"
    and w: "new \<longrightarrow> waiting s (Mutex_list (Mlock j)) = []"
    using r j k by (auto simp: do_mutex_lock_init_def mutex_init_def init_list_def upd_mutex_def split: if_splits)
  show "safe s'"
    using s w unfolding safe_def sync_inv_defs s' by (auto simp: fun_upd_def)
  show "mutexes s' (Mlock i) = mutexes s (Mlock i) \<or> n = int i \<and> mlock_ref s i = 0"
    using find_slot_new [of _ _ _ j] j n unfolding s' by (cases new) auto
qed

lemma condition_wait_safe:
  assumes s: "safe s" and u: "NR_CPUS \<le> current_running s" and c: "\<And>i. c = Cond i \<Longrightarrow> cond_refs s i \<noteq> 0"
  obtains s' where "condition_wait c r s = Some s'" "safe s'"
    "mutexes s' = (mutexes s)(r := (mutexes s r)\<lparr>m_acquired := False\<rparr>)"
    "\<And>l. wait_chan l \<Longrightarrow> waiting s' l = (if l = Mutex_list r then [] else if l = Cond_list c
       then waiting s l @ [current_running s] else waiting s l)"
    "sync_state.more s' = sync_state.more s" "\<And>x. p_pid (pcbs s' x) = p_pid (pcbs s x)" "mlock_ref s' = mlock_ref s"
proof (rule do_block_spec [OF safeD(1) [OF s] u, of "Cond_list c"])
  let ?f = "m_acquired_update (\<lambda>_. False)"
  fix s1 assume s1: "do_block (current_running s) (Cond_list c) s = Some s1" "table_inv s1" "harts_inv s1"
    "same_but {Cond_list c} s s1" "waiting s1 (Cond_list c) = waiting s (Cond_list c) @ [current_running s]"
    "currents s1 = currents s" "p_status (pcbs s1 (current_running s)) = TASK_BLOCKED"
  have i: "table_inv (upd_mutex r ?f s1)" "harts_inv (upd_mutex r ?f s1)" using s1(2,3) by (simp_all add: upd_mutex_def)
  show thesis
  proof (rule unblock_list_spec0 [OF i, of "Mutex_list r"])
    fix s2 assume s2: "unblock_list (Mutex_list r) (upd_mutex r ?f s1) = Some s2" "table_inv s2" "harts_inv s2"
      "same_but {Mutex_list r} (upd_mutex r ?f s1) s2" "currents s2 = currents (upd_mutex r ?f s1)"
      "waiting s2 (Mutex_list r) = []"
      "\<And>p. p_status (pcbs s2 p) = (if p \<in> set (waiting (upd_mutex r ?f s1) (Mutex_list r)) then TASK_READY
          else p_status (pcbs (upd_mutex r ?f s1) p))"
    have "current_running s2 = current_running s"
      using s1(4,6) s2(4,5) by (simp add: same_but_def upd_mutex_def)
    then have "p_status (pcbs s2 (current_running s2)) \<noteq> TASK_KILLED"
      using s2(7) s1(7) by (simp add: upd_mutex_def)
    then show thesis
    proof (rule do_scheduler_spec [OF s2(2,3)])
      fix s' assume s': "do_scheduler s2 = Some s'" "kinv s'" "same_but {} s2 s'"
      have e: "mutexes s' = (mutexes s)(r := (mutexes s r)\<lparr>m_acquired := False\<rparr>)" "cond_refs s' = cond_refs s"
        "semaphores s' = semaphores s" "sema_ref s' = sema_ref s" "barriers s' = barriers s" "barrier_ref s' = barrier_ref s"
        using same_but_sync [OF s1(4)] same_but_sync [OF s2(4)] same_but_sync [OF s'(3)] by (simp_all add: upd_mutex_def)
      have w: "waiting s' l = (if l = Mutex_list r then [] else if l = Cond_list c
          then waiting s l @ [current_running s] else waiting s l)" if "wait_chan l" for l
        using same_butD(7) [OF s1(4) that] same_butD(7) [OF s2(4) that] same_butD(7) [OF s'(3) that] s1(5) s2(6)
        by (auto simp: upd_mutex_def split: if_splits)
      have "sync_inv s'" using safeD(2) [OF s] c unfolding sync_inv_defs by (auto simp: w e)
      moreover have "sync_state.more s' = sync_state.more s" "mlock_ref s' = mlock_ref s"
        "\<And>x. p_pid (pcbs s' x) = p_pid (pcbs s x)"
        using same_but_sync [OF s1(4)] same_but_sync [OF s2(4)] same_but_sync [OF s'(3)]
          same_butD(5) [OF s1(4)] same_butD(5) [OF s2(4)] same_butD(5) [OF s'(3)] by (simp_all add: upd_mutex_def)
      ultimately show thesis
        using that [of s'] s1(1) s2(1) s' e(1) w by (simp add: condition_wait_def mutex_release_def safe_def)
    qed
  qed simp
qed

lemma do_condition_init_safe:
  assumes s: "safe s" and r: "do_condition_init key s = Some (n, s')"
  shows "safe s'" "mutexes s' = mutexes s"
proof -
  obtain new j where j: "find_slot (cond_refs s) (\<lambda>i. cond_key s (Cond i) = key) CONDITION_NUM = Some (new, j)"
    using r by (auto simp: do_condition_init_def elim!: bind_SomeE)
  let ?s = "if new then s\<lparr>cond_key := (cond_key s)(Cond j := key)\<rparr> else s"
  have k: "my_index ?s = Some (current_running s) \<and> current_running s < 64"
    using my_index_safe [of ?s] safeD(1) [OF s] by (cases new) simp_all
  then have s': "s' = ?s\<lparr>cond_refs := add_ref j (current_running s) (cond_refs s)\<rparr>"
    using r j by (auto simp: do_condition_init_def condition_init_def init_list_def split: if_splits)
  have "cond_refs s i = 0" if "add_ref j (current_running s) (cond_refs s) i = 0" for i
    using that by (auto simp: add_ref_def or_eq_0_iff split: if_splits)
  then show "safe s'" "mutexes s' = mutexes s"
    using s unfolding safe_def sync_inv_defs s' by auto
qed

lemma cond_wake:
  assumes s: "safe s" and g: "g = 0 \<or> g = cond_refs s i"
  obtains s' where "unblock_list (Cond_list (Cond i)) (s\<lparr>cond_refs := (cond_refs s)(i := g)\<rparr>) = Some s'" "safe s'"
    "mutexes s' = mutexes s" "waiting s' (Cond_list (Cond i)) = []"
proof -
  let ?s = "s\<lparr>cond_refs := (cond_refs s)(i := g)\<rparr>"
  obtain s' where s': "unblock_list (Cond_list (Cond i)) ?s = Some s'" "kinv s'" "same_but {Cond_list (Cond i)} ?s s'"
      "waiting s' (Cond_list (Cond i)) = []"
    using unblock_list_spec [of ?s "Cond_list (Cond i)"] safeD(1) [OF s] by auto
  have "sync_inv s'"
    by (rule sync_inv_cond [OF safeD(2) [OF s] s'(3), where k = "cond_key s" and g = g]) (simp_all add: s'(4))
  with s' that same_but_sync(1) [OF s'(3)] show thesis by (simp add: safe_def)
qed

lemma condition_signal_safe:
  assumes s: "safe s"
  shows "safe (condition_signal c s)" "mutexes (condition_signal c s) = mutexes s"
    "waiting (condition_signal c s) (Cond_list c) = tl (waiting s (Cond_list c))"
proof -
  note w = wake_one_spec [OF safeD(1) [OF s], of "Cond_list c", simplified]
  show "mutexes (condition_signal c s) = mutexes s" "waiting (condition_signal c s) (Cond_list c) = tl (waiting s (Cond_list c))"
    using w(3) same_but_sync(1) [OF w(2)] by (simp_all add: condition_signal_def)
  have "sync_inv (wake_one (Cond_list c) s)"
  proof -
    have "waiting (wake_one (Cond_list c) s) l = (if l = Cond_list c then tl (waiting s l) else waiting s l)"
      if "wait_chan l" for l using same_butD(7) [OF w(2) that] w(3) by simp
    then show ?thesis
      using safeD(2) [OF s] same_but_sync [OF w(2)] unfolding sync_inv_defs by auto
  qed
  then show "safe (condition_signal c s)" using w(1) by (simp add: safe_def condition_signal_def)
qed

lemma do_semaphore_init_safe:
  assumes s: "safe s" and r: "do_semaphore_init key n s = Some (m, s')" and n: "0 \<le> n"
  shows "safe s'" "mutexes s' = mutexes s"
proof -
  obtain new j where j: "find_slot (sema_ref s) (\<lambda>i. s_key (semaphores s i) = key) SEMAPHORE_NUM = Some (new, j)"
    using r by (auto simp: do_semaphore_init_def elim!: bind_SomeE)
  let ?s = "if new then s\<lparr>semaphores := (semaphores s)(j := \<lparr>s_key = key, s_count = n\<rparr>), sema_ref := (sema_ref s)(j := 1)\<rparr> else s"
  have k: "my_index ?s = Some (current_running s) \<and> current_running s < 64"
    using my_index_safe [of ?s] safeD(1) [OF s] by (cases new) simp_all
  have s': "s' = ?s\<lparr>sema_ref := add_ref j (current_running s) (sema_ref ?s)\<rparr>"
    and w: "new \<longrightarrow> waiting s (Sema_list j) = []"
    using r j k by (auto simp: do_semaphore_init_def semaphore_init_def init_list_def upd_sema_def split: if_splits)
  have nz: "add_ref j (current_running s) (sema_ref ?s) j \<noteq> 0" using k by (simp add: add_ref_nz)
  have o: "add_ref j (current_running s) (sema_ref ?s) i = sema_ref s i" if "i \<noteq> j" for i
    using that by (auto simp: add_ref_def)
  have "sema_ok s' i" for i
    using safeD(2) [OF s] w n o [of i] nz unfolding sync_inv_def sema_ok_def s' by (cases "i = j") auto
  moreover have "kinv s'" using safeD(1) [OF s] by (simp add: s')
  ultimately show "safe s'" using safeD(2) [OF s] unfolding safe_def sync_inv_defs by (simp add: s')
  show "mutexes s' = mutexes s" by (simp add: s')
qed

lemma do_semaphore_up_safe:
  assumes s: "safe s"
  obtains s' where "do_semaphore_up i s = Some s'" "safe s'" "mutexes s' = mutexes s"
    "0 \<le> i \<Longrightarrow> i < int SEMAPHORE_NUM \<Longrightarrow> sema_ref s (nat i) \<noteq> 0 \<Longrightarrow>
       semaphores s' = (semaphores s)(nat i := s_count_update (\<lambda>c. c + 1) (semaphores s (nat i))) \<and>
       waiting s' (Sema_list (nat i)) = tl (waiting s (Sema_list (nat i))) \<and>
       waiting s' Ready_queue = waiting s Ready_queue @ take 1 (waiting s (Sema_list (nat i)))"
proof (cases "i < 0 \<or> i \<ge> int SEMAPHORE_NUM \<or> sema_ref s (nat i) = 0")
  case True
  then show thesis using that [of s] s by (auto simp: do_semaphore_up_def Let_def)
next
  case False
  let ?i = "nat i" and ?x = "s_count_update (\<lambda>c. c + 1) (semaphores s (nat i))"
  let ?s = "s\<lparr>semaphores := (semaphores s)(?i := ?x)\<rparr>"
  have ok: "int (length (waiting s (Sema_list ?i))) = max 0 (- s_count (semaphores s ?i))"
    using safeD(2) [OF s] by (simp add: sync_inv_def sema_ok_def)
  have k: "kinv ?s" using safeD(1) [OF s] by simp
  note w = wake_one_spec [OF k, of "Sema_list ?i", simplified]
  show thesis
  proof (cases "s_count ?x \<le> 0")
    case True
    then have ne: "waiting s (Sema_list ?i) \<noteq> []" using ok by auto
    have "sync_inv (wake_one (Sema_list ?i) ?s)"
      by (rule sync_inv_sema [OF safeD(2) [OF s] w(2), where x = ?x and g = "sema_ref s ?i"])
         (use w(3) ok ne True False in auto)
    moreover have "do_semaphore_up i s = Some (wake_one (Sema_list ?i) ?s)"
      using False True ne by (simp add: do_semaphore_up_def upd_sema_def Let_def)
    ultimately show thesis using that w same_but_sync(1,5) [OF w(2)] by (simp add: safe_def)
  next
    case ge: False
    then have "sync_inv ?s"
      by (intro sync_inv_sema [OF safeD(2) [OF s] same_but_refl, where i = ?i and x = ?x and g = "sema_ref s ?i"])
         (use ok False in auto)
    moreover have "do_semaphore_up i s = Some ?s"
      using False ge by (simp add: do_semaphore_up_def upd_sema_def Let_def)
    moreover have "waiting s (Sema_list ?i) = []" using ok ge by auto
    ultimately show thesis using that [of ?s] k by (simp add: safe_def)
  qed
qed

lemma do_semaphore_down_safe:
  assumes s: "safe s" and u: "NR_CPUS \<le> current_running s"
  obtains s' where "do_semaphore_down i s = Some s'" "safe s'" "mutexes s' = mutexes s"
    "0 \<le> i \<Longrightarrow> i < int SEMAPHORE_NUM \<Longrightarrow> sema_ref s (nat i) \<noteq> 0 \<Longrightarrow>
       semaphores s' = (semaphores s)(nat i := s_count_update (\<lambda>c. c - 1) (semaphores s (nat i))) \<and>
       (if s_count (semaphores s (nat i)) > 0 then current_running s' = current_running s \<and> queues s' = queues s
        else waiting s' (Sema_list (nat i)) = waiting s (Sema_list (nat i)) @ [current_running s])"
proof (cases "i < 0 \<or> i \<ge> int SEMAPHORE_NUM \<or> sema_ref s (nat i) = 0")
  case True
  then show thesis using that [of s] s by (auto simp: do_semaphore_down_def Let_def)
next
  case False
  let ?i = "nat i" and ?x = "s_count_update (\<lambda>c. c - 1) (semaphores s (nat i))"
  let ?s = "s\<lparr>semaphores := (semaphores s)(?i := ?x)\<rparr>"
  have ok: "int (length (waiting s (Sema_list ?i))) = max 0 (- s_count (semaphores s ?i))"
    using safeD(2) [OF s] by (simp add: sync_inv_def sema_ok_def)
  have k: "kinv ?s" "NR_CPUS \<le> current_running ?s" using safeD(1) [OF s] u by simp_all
  show thesis
  proof (cases "s_count ?x < 0")
    case True
    obtain s' where s': "block_on (Sema_list ?i) ?s = Some s'" "kinv s'" "same_but {Sema_list ?i} ?s s'"
        "waiting s' (Sema_list ?i) = waiting ?s (Sema_list ?i) @ [current_running ?s]"
      by (rule block_on_spec [OF k, of "Sema_list ?i"]) auto
    have "sync_inv s'"
      by (rule sync_inv_sema [OF safeD(2) [OF s] s'(3), where x = ?x and g = "sema_ref s ?i"])
         (use s'(4) ok True False in auto)
    moreover have "do_semaphore_down i s = Some s'"
      using False True s'(1) by (simp add: do_semaphore_down_def upd_sema_def block_on_def Let_def)
    ultimately show thesis using that [of s'] s' same_but_sync(1,5) [OF s'(3)] True by (simp add: safe_def)
  next
    case ge: False
    then have "sync_inv ?s"
      by (intro sync_inv_sema [OF safeD(2) [OF s] same_but_refl, where i = ?i and x = ?x and g = "sema_ref s ?i"])
         (use ok False in auto)
    moreover have "do_semaphore_down i s = Some ?s"
      using False ge by (simp add: do_semaphore_down_def upd_sema_def Let_def)
    ultimately show thesis using that [of ?s] k ge by (simp add: safe_def)
  qed
qed

lemma do_semaphore_destroy_safe:
  assumes s: "safe s" and i: "0 \<le> i" "i < int SEMAPHORE_NUM"
  obtains s' where "do_semaphore_destroy i s = Some s'" "safe s'" "mutexes s' = mutexes s"
proof (cases "sema_ref s (nat i) = 0")
  case True
  then show thesis using that [of s] s i by (auto simp: do_semaphore_destroy_def Let_def)
next
  case False
  let ?i = "nat i" and ?x = "\<lparr>s_key = -1, s_count = 0\<rparr>"
  let ?s = "s\<lparr>sema_ref := (sema_ref s)(?i := 0), semaphores := (semaphores s)(?i := ?x)\<rparr>"
  obtain s' where s': "unblock_list (Sema_list ?i) ?s = Some s'" "kinv s'" "same_but {Sema_list ?i} ?s s'"
      "waiting s' (Sema_list ?i) = []"
    by (rule unblock_list_spec [of ?s "Sema_list ?i"]) (use safeD(1) [OF s] in auto)
  have "sync_inv s'"
    by (rule sync_inv_sema [OF safeD(2) [OF s] s'(3), where x = ?x and g = 0]) (use s'(4) in auto)
  moreover have "do_semaphore_destroy i s = Some s'"
    using False i s'(1) by (simp add: do_semaphore_destroy_def semaphore_destruct_def upd_sema_def Let_def)
  ultimately show thesis using that s'(2) same_but_sync(1) [OF s'(3)] by (simp add: safe_def)
qed

lemma do_barrier_init_safe:
  assumes s: "safe s" and r: "do_barrier_init key goal s = Some (m, s')"
  shows "safe s'" "mutexes s' = mutexes s"
proof -
  obtain new j where j: "find_slot (barrier_ref s) (\<lambda>i. b_key (barriers s i) = key) BARRIER_NUM = Some (new, j)"
    using r by (auto simp: do_barrier_init_def elim!: bind_SomeE)
  note k = my_index_safe [OF safeD(1) [OF s]]
  let ?s = "if new then s\<lparr>barriers := (barriers s)(j := (barriers s j)\<lparr>b_current := 0, b_goal := goal\<rparr>)\<rparr> else s"
  have s': "s' = ?s\<lparr>barrier_ref := add_ref j (current_running s) (barrier_ref s)\<rparr>"
    and w: "new \<longrightarrow> waiting s (Barrier_list j) = []"
    using r j k by (auto simp: do_barrier_init_def barrier_init_def init_list_def upd_barrier_def split: if_splits)
  have nz: "add_ref j (current_running s) (barrier_ref s) j \<noteq> 0" using k by (simp add: add_ref_nz)
  have o: "add_ref j (current_running s) (barrier_ref s) i = barrier_ref s i" if "i \<noteq> j" for i
    using that by (simp add: add_ref_def)
  have old: "barrier_ref s j \<noteq> 0" if "\<not> new"
    using j that by (auto simp: find_slot_def dest!: find_SomeD split: option.splits)
  have "barrier_ok s' i" for i
  proof -
    have "barrier_ok s i" using safeD(2) [OF s] by (simp add: sync_inv_def)
    then show ?thesis
      using w o [of i] nz old unfolding barrier_ok_def s' by (cases "i = j"; cases new) auto
  qed
  moreover have "mutex_ok s' r" "cond_ok s' k" "sema_ok s' k" for r k
    using safeD(2) [OF s] by (simp_all add: sync_inv_def mutex_ok_def cond_ok_def sema_ok_def s')
  moreover have "kinv s'" using safeD(1) [OF s] by (simp add: s')
  ultimately show "safe s'" by (simp add: safe_def sync_inv_def)
  show "mutexes s' = mutexes s" by (simp add: s')
qed

lemma do_barrier_wait_safe:
  assumes s: "safe s" and u: "NR_CPUS \<le> current_running s" and r: "do_barrier_wait i s = Some s'"
  shows "safe s'" "mutexes s' = mutexes s"
proof -
  let ?i = "nat i" and ?x = "b_current_update (\<lambda>c. c + 1) (barriers s (nat i))"
  have "safe s' \<and> mutexes s' = mutexes s"
  proof (cases "i < 0 \<or> i \<ge> int BARRIER_NUM \<or> barrier_ref s ?i = 0")
    case True
    then show ?thesis using r s by (auto simp: do_barrier_wait_def Let_def split: if_splits)
  next
    case False
    have ok: "int (length (waiting s (Barrier_list ?i))) = b_current (barriers s ?i)"
      using safeD(2) [OF s] False by (simp add: sync_inv_def barrier_ok_def)
    show ?thesis
    proof (cases "b_current ?x < b_goal ?x")
      case True
      let ?s = "s\<lparr>barriers := (barriers s)(?i := ?x)\<rparr>"
      have k: "kinv ?s" "NR_CPUS \<le> current_running ?s" using safeD(1) [OF s] u by simp_all
      obtain s'' where s'': "block_on (Barrier_list ?i) ?s = Some s''" "kinv s''" "same_but {Barrier_list ?i} ?s s''"
          "waiting s'' (Barrier_list ?i) = waiting ?s (Barrier_list ?i) @ [current_running ?s]"
        by (rule block_on_spec [OF k, of "Barrier_list ?i"]) auto
      have "s' = s''"
        using r False True s''(1) by (auto simp: do_barrier_wait_def upd_barrier_def block_on_def Let_def split: if_splits)
      moreover have "sync_inv s''"
        by (rule sync_inv_barrier [OF safeD(2) [OF s] s''(3), where x = ?x and g = "barrier_ref s ?i"])
           (use s''(4) ok True False in auto)
      ultimately show ?thesis using s''(2) same_but_sync(1) [OF s''(3)] by (simp add: safe_def)
    next
      case ge: False
      let ?y = "b_current_update (\<lambda>_. 0) ?x"
      let ?s = "s\<lparr>barriers := (barriers s)(?i := ?y)\<rparr>"
      obtain s'' where s'': "unblock_list (Barrier_list ?i) ?s = Some s''" "kinv s''" "same_but {Barrier_list ?i} ?s s''"
          "waiting s'' (Barrier_list ?i) = []"
        by (rule unblock_list_spec [of ?s "Barrier_list ?i"]) (use safeD(1) [OF s] in auto)
      have "s' = s''"
        using r False ge s''(1) by (auto simp: do_barrier_wait_def upd_barrier_def Let_def split: if_splits)
      moreover have "sync_inv s''"
        by (rule sync_inv_barrier [OF safeD(2) [OF s] s''(3), where x = ?y and g = "barrier_ref s ?i"])
           (use s''(4) False in auto)
      ultimately show ?thesis using s''(2) same_but_sync(1) [OF s''(3)] by (simp add: safe_def)
    qed
  qed
  then show "safe s'" "mutexes s' = mutexes s" by blast+
qed

lemma do_barrier_destroy_safe:
  assumes s: "safe s"
  obtains s' where "do_barrier_destroy i s = Some s'" "safe s'" "mutexes s' = mutexes s"
proof (cases "i < 0 \<or> i \<ge> int BARRIER_NUM \<or> barrier_ref s (nat i) = 0")
  case True
  then show thesis using that [of s] s by (auto simp: do_barrier_destroy_def Let_def)
next
  case False
  let ?i = "nat i"
  let ?s = "s\<lparr>barrier_ref := (barrier_ref s)(?i := 0)\<rparr>"
  obtain s' where s': "unblock_list (Barrier_list ?i) ?s = Some s'" "kinv s'" "same_but {Barrier_list ?i} ?s s'"
      "waiting s' (Barrier_list ?i) = []"
    by (rule unblock_list_spec [of ?s "Barrier_list ?i"]) (use safeD(1) [OF s] in auto)
  have "sync_inv s'"
    by (rule sync_inv_barrier [OF safeD(2) [OF s] s'(3), where x = "barriers s ?i" and g = 0]) (use s'(4) in auto)
  moreover have "do_barrier_destroy i s = Some s'"
    using False s'(1) by (simp add: do_barrier_destroy_def barrier_destruct_def Let_def)
  ultimately show thesis using that s'(2) same_but_sync(1) [OF s'(3)] by (simp add: safe_def)
qed

section \<open>Runs\<close>

text \<open>
  The system calls on these objects, made by the current process, and what else moves the system:
  a timer interrupt or a yield (\<open>Yield\<close>), another hart taking the kernel lock (\<open>Enter\<close>) and time.
\<close>

datatype sync_call =
    Mutex_init int | Mutex_acquire int | Mutex_release int
  | Cond_init int | Cond_wait int int | Cond_signal int | Cond_broadcast int | Cond_destroy int
  | Sema_init int int | Sema_down int | Sema_up int | Sema_destroy int
  | Bar_init int int | Bar_wait int | Bar_destroy int

definition no_value :: "'s option \<Rightarrow> (int \<times> 's) option" where
  "no_value m = map_option (Pair 0) m"

primrec sync_exec :: "sync_call \<Rightarrow> ('a) sync_state_scheme \<Rightarrow> (int \<times> ('a) sync_state_scheme) option" where
  "sync_exec (Mutex_init key) s = do_mutex_lock_init key s"
| "sync_exec (Mutex_acquire i) s = map_option (map_prod of_bool id) (do_mutex_lock_acquire i s)"
| "sync_exec (Mutex_release i) s = no_value (do_mutex_lock_release i s)"
| "sync_exec (Cond_init key) s = do_condition_init key s"
| "sync_exec (Cond_wait i j) s = no_value (do_condition_wait i j s)"
| "sync_exec (Cond_signal i) s = no_value (do_condition_signal i s)"
| "sync_exec (Cond_broadcast i) s = no_value (do_condition_broadcast i s)"
| "sync_exec (Cond_destroy i) s = no_value (do_condition_destroy i s)"
| "sync_exec (Sema_init key n) s = do_semaphore_init key n s"
| "sync_exec (Sema_down i) s = no_value (do_semaphore_down i s)"
| "sync_exec (Sema_up i) s = no_value (do_semaphore_up i s)"
| "sync_exec (Sema_destroy i) s = no_value (do_semaphore_destroy i s)"
| "sync_exec (Bar_init key goal) s = do_barrier_init key goal s"
| "sync_exec (Bar_wait i) s = no_value (do_barrier_wait i s)"
| "sync_exec (Bar_destroy i) s = no_value (do_barrier_destroy i s)"

text \<open>A semaphore has to start with a count that is not negative.\<close>

fun call_ok :: "sync_call \<Rightarrow> bool" where
  "call_ok (Sema_init key n) = (0 \<le> n)"
| "call_ok _ = True"

datatype sync_event = Call sync_call | Yield | Enter nat | Tick u64

inductive sync_step :: "('a) sync_state_scheme \<Rightarrow> sync_event \<Rightarrow> ('a) sync_state_scheme \<Rightarrow> bool" where
  Call: "NR_CPUS \<le> current_running s \<Longrightarrow> call_ok c \<Longrightarrow> sync_exec c s = Some (r, s') \<Longrightarrow> sync_step s (Call c) s'"
| Yield: "do_scheduler s = Some s' \<Longrightarrow> sync_step s Yield s'"
| Enter: "h < NR_CPUS \<Longrightarrow> p_status (pcbs s (currents s h)) = TASK_RUNNING \<Longrightarrow>
    sync_step s (Enter h) (s\<lparr>hart := h\<rparr>)"
| Tick: "sync_step s (Tick t) (s\<lparr>ticks := t\<rparr>)"

inductive sync_trace :: "('a) sync_state_scheme \<Rightarrow> sync_event list \<Rightarrow> ('a) sync_state_scheme \<Rightarrow> bool" where
  Nil: "sync_trace s [] s"
| Snoc: "sync_trace s es s' \<Longrightarrow> sync_step s' e s'' \<Longrightarrow> sync_trace s (es @ [e]) s''"

inductive_cases sync_stepE: "sync_step s e s'"

text \<open>What a call does to the mutexes of the array.\<close>

definition mutex_effect :: "sync_call \<Rightarrow> ('a) sync_state_scheme \<Rightarrow> ('a) sync_state_scheme \<Rightarrow> nat \<Rightarrow> bool" where
  "mutex_effect c s s' i \<longleftrightarrow>
     mutexes s' (Mlock i) = mutexes s (Mlock i) \<or>
     c = Mutex_acquire (int i) \<and> \<not> m_acquired (mutexes s (Mlock i)) \<or>
     c = Mutex_release (int i) \<and> m_pid (mutexes s (Mlock i)) = p_pid (pcbs s (current_running s)) \<or>
     (\<exists>k. c = Cond_wait k (int i)) \<or>
     (\<exists>k. c = Mutex_init k) \<and> mlock_ref s i = 0"

lemma no_value_Some [simp]: "no_value m = Some (r, s) \<longleftrightarrow> r = 0 \<and> m = Some s"
  by (auto simp: no_value_def)

lemma mutex_effect_same: "mutexes s' = mutexes s \<Longrightarrow> mutex_effect c s s' i"
  by (simp add: mutex_effect_def)

lemma mutex_calls_safe:
  assumes s: "safe s" and u: "NR_CPUS \<le> current_running s"
  shows "do_mutex_lock_acquire j s = Some (b, s') \<Longrightarrow> safe s' \<and> mutex_effect (Mutex_acquire j) s s' i"
    and "do_mutex_lock_release j s = Some s' \<Longrightarrow> safe s' \<and> mutex_effect (Mutex_release j) s s' i"
proof -
  assume r: "do_mutex_lock_acquire j s = Some (b, s')"
  show "safe s' \<and> mutex_effect (Mutex_acquire j) s s' i"
  proof (cases "j < 0 \<or> j \<ge> int LOCK_NUM")
    case True
    then show ?thesis using r s by (auto simp: do_mutex_lock_acquire_def mutex_effect_def)
  next
    case False
    then have a: "mutex_acquire (Mlock (nat j)) s = Some (b, s')" using r by (simp add: do_mutex_lock_acquire_def)
    show ?thesis
      by (rule mutex_acquire_safe [OF s u, of "Mlock (nat j)"]) (use a False in \<open>auto simp: mutex_effect_def split: if_splits\<close>)
  qed
next
  assume r: "do_mutex_lock_release j s = Some s'"
  show "safe s' \<and> mutex_effect (Mutex_release j) s s' i"
  proof (cases "j < 0 \<or> j \<ge> int LOCK_NUM \<or> mlock_ref s (nat j) = 0 \<or>
      m_pid (mutexes s (Mlock (nat j))) \<noteq> p_pid (pcbs s (current_running s))")
    case True
    then show ?thesis using r s by (auto simp: do_mutex_lock_release_def mutex_effect_def Let_def split: if_splits)
  next
    case False
    then have a: "mutex_release (Mlock (nat j)) s = Some s'" using r by (simp add: do_mutex_lock_release_def Let_def)
    show ?thesis
      by (rule mutex_release_safe [OF s, of "Mlock (nat j)"]) (use a False in \<open>auto simp: mutex_effect_def\<close>)
  qed
qed

lemma cond_calls_safe:
  assumes s: "safe s" and u: "NR_CPUS \<le> current_running s"
  shows "do_condition_wait k j s = Some s' \<Longrightarrow> safe s' \<and> mutex_effect (Cond_wait k j) s s' i"
    and "do_condition_signal k s = Some s' \<Longrightarrow> safe s' \<and> mutexes s' = mutexes s"
    and "do_condition_broadcast k s = Some s' \<Longrightarrow> safe s' \<and> mutexes s' = mutexes s"
    and "do_condition_destroy k s = Some s' \<Longrightarrow> safe s' \<and> mutexes s' = mutexes s"
proof -
  assume r: "do_condition_wait k j s = Some s'"
  show "safe s' \<and> mutex_effect (Cond_wait k j) s s' i"
  proof (cases "k < 0 \<or> k \<ge> int CONDITION_NUM \<or> j < 0 \<or> j \<ge> int LOCK_NUM \<or> cond_refs s (nat k) = 0")
    case True
    then show ?thesis using r s by (auto simp: do_condition_wait_def mutex_effect_def split: if_splits)
  next
    case False
    then have a: "condition_wait (Cond (nat k)) (Mlock (nat j)) s = Some s'" using r by (simp add: do_condition_wait_def)
    show ?thesis
      by (rule condition_wait_safe [OF s u, where c = "Cond (nat k)" and r = "Mlock (nat j)"]) (use a False in \<open>auto simp: mutex_effect_def\<close>)
  qed
next
  assume "do_condition_signal k s = Some s'"
  then show "safe s' \<and> mutexes s' = mutexes s"
    using condition_signal_safe(1,2) [OF s] s by (auto simp: do_condition_signal_def split: if_splits)
next
  assume r: "do_condition_broadcast k s = Some s'"
  show "safe s' \<and> mutexes s' = mutexes s"
    by (rule cond_wake [OF s, of "cond_refs s (nat k)" "nat k"])
       (use r s in \<open>auto simp: do_condition_broadcast_def condition_broadcast_def split: if_splits\<close>)
next
  assume r: "do_condition_destroy k s = Some s'"
  show "safe s' \<and> mutexes s' = mutexes s"
    by (rule cond_wake [OF s, of 0 "nat k"])
       (use r s in \<open>auto simp: do_condition_destroy_def condition_destruct_def Let_def split: if_splits\<close>)
qed

lemma sync_exec_safe:
  assumes s: "safe s" and u: "NR_CPUS \<le> current_running s" and c: "call_ok c" and r: "sync_exec c s = Some (n, s')"
  shows "safe s' \<and> mutex_effect c s s' i"
proof (cases c)
  case (Mutex_init key)
  then show ?thesis using do_mutex_lock_init_safe [OF s, of key n s'] r by (auto simp: mutex_effect_def)
next
  case (Mutex_acquire j)
  then show ?thesis using mutex_calls_safe(1) [OF s u, of j _ s' i] r by auto
next
  case (Mutex_release j)
  then show ?thesis using mutex_calls_safe(2) [OF s u, of j s' i] r by simp
next
  case (Cond_wait k j)
  then show ?thesis using cond_calls_safe(1) [OF s u, of k j s' i] r by simp
next
  case (Cond_init key)
  then show ?thesis using do_condition_init_safe [OF s] r by (simp add: mutex_effect_same)
next
  case (Sema_init key m)
  then show ?thesis using do_semaphore_init_safe [OF s] r c by (simp add: mutex_effect_same)
next
  case (Sema_down j)
  show ?thesis
    by (rule do_semaphore_down_safe [OF s u, of j]) (use Sema_down r in \<open>simp add: mutex_effect_same\<close>)
next
  case (Sema_up j)
  show ?thesis
    by (rule do_semaphore_up_safe [OF s, of j]) (use Sema_up r in \<open>simp add: mutex_effect_same\<close>)
next
  case (Sema_destroy j)
  then have "0 \<le> j" "j < int SEMAPHORE_NUM" using r by (auto simp: do_semaphore_destroy_def split: if_splits)
  note d = do_semaphore_destroy_safe [OF s this]
  show ?thesis
    by (rule d) (use r Sema_destroy in \<open>auto simp: mutex_effect_same\<close>)
next
  case (Bar_init key goal)
  then show ?thesis using do_barrier_init_safe [OF s] r by (simp add: mutex_effect_same)
next
  case (Bar_wait j)
  then show ?thesis using do_barrier_wait_safe [OF s u, of j s'] r by (simp add: mutex_effect_same)
next
  case (Bar_destroy j)
  show ?thesis
    by (rule do_barrier_destroy_safe [OF s, of j]) (use Bar_destroy r in \<open>auto simp: mutex_effect_same\<close>)
qed (use cond_calls_safe(2-) [OF s u] r in \<open>auto simp: mutex_effect_same\<close>)

lemma kinv_enter:
  assumes "kinv s" "h < NR_CPUS" "p_status (pcbs s (currents s h)) = TASK_RUNNING"
  shows "kinv (s\<lparr>hart := h\<rparr>)"
proof -
  have "table_inv (s\<lparr>hart := h\<rparr>)" using assms unfolding kinv_def table_inv_def pids_ok_def by simp
  moreover have "harts_inv (s\<lparr>hart := h\<rparr>)" using assms unfolding kinv_def harts_inv_def by (auto simp: active_def)
  ultimately show ?thesis using assms(3) by (simp add: kinv_def)
qed

lemma sync_step_safe:
  assumes s: "safe s" and st: "sync_step s e s'"
  shows "safe s'" "m_acquired (mutexes s (Mlock i)) \<Longrightarrow> mutexes s' (Mlock i) = mutexes s (Mlock i) \<or>
      e = Call (Mutex_release (int i)) \<and> m_pid (mutexes s (Mlock i)) = p_pid (pcbs s (current_running s)) \<or>
      (\<exists>k. e = Call (Cond_wait k (int i))) \<or> (\<exists>k. e = Call (Mutex_init k)) \<and> mlock_ref s i = 0"
proof -
  have "safe s' \<and> (m_acquired (mutexes s (Mlock i)) \<longrightarrow> mutexes s' (Mlock i) = mutexes s (Mlock i) \<or>
      e = Call (Mutex_release (int i)) \<and> m_pid (mutexes s (Mlock i)) = p_pid (pcbs s (current_running s)) \<or>
      (\<exists>k. e = Call (Cond_wait k (int i))) \<or> (\<exists>k. e = Call (Mutex_init k)) \<and> mlock_ref s i = 0)"
    using st
  proof cases
    case (Call c r)
    then show ?thesis using sync_exec_safe [OF s, of c r s' i] by (auto simp: mutex_effect_def)
  next
    case Yield
    have k: "table_inv s" "harts_inv s" "p_status (pcbs s (current_running s)) \<noteq> TASK_KILLED"
      using safeD(1) [OF s] by (simp_all add: kinv_def)
    obtain s'' where s'': "do_scheduler s = Some s''" "kinv s''" "same_but {} s s''"
      by (rule do_scheduler_spec [OF k])
    then have "sync_inv s''"
      using safeD(2) [OF s] same_but_sync [OF s''(3)] same_butD(7) [OF s''(3)] unfolding sync_inv_defs by simp
    with s'' Yield same_but_sync(1) [OF s''(3)] show ?thesis by (simp add: safe_def)
  next
    case (Enter h)
    then show ?thesis using s kinv_enter [of s h] by (simp add: safe_def sync_inv_defs)
  next
    case (Tick t)
    have "kinv (s\<lparr>ticks := t\<rparr>) = kinv s" by (simp add: kinv_def table_inv_def pids_ok_def harts_inv_def)
    then show ?thesis using Tick s by (simp add: safe_def sync_inv_defs)
  qed
  then show "safe s'" "m_acquired (mutexes s (Mlock i)) \<Longrightarrow> mutexes s' (Mlock i) = mutexes s (Mlock i) \<or>
      e = Call (Mutex_release (int i)) \<and> m_pid (mutexes s (Mlock i)) = p_pid (pcbs s (current_running s)) \<or>
      (\<exists>k. e = Call (Cond_wait k (int i))) \<or> (\<exists>k. e = Call (Mutex_init k)) \<and> mlock_ref s i = 0"
    by blast+
qed

lemma sync_trace_inv: "sync_trace s es s' \<Longrightarrow> safe s \<Longrightarrow> safe s'"
  by (induction rule: sync_trace.induct) (auto intro: sync_step_safe(1))




text \<open>
  C17. Barriers: a process that arrives at a barrier whose goal is not yet reached waits behind the
  others; the one that reaches the goal goes on, all those waiting become ready in the order they
  arrived, and the count starts again at zero. Only a barrier with a goal of zero or less panics.
\<close>

theorem barrier_round:
  assumes k: "kinv s" and i: "sync_inv s" and u: "NR_CPUS \<le> current_running s"
    and b: "0 \<le> j" "j < int BARRIER_NUM" "barrier_ref s (nat j) \<noteq> 0" and g: "0 < b_goal (barriers s (nat j))"
  shows "\<exists>s'. do_barrier_wait j s = Some s' \<and>
    (if int (length (waiting s (Barrier_list (nat j)))) + 1 < b_goal (barriers s (nat j))
     then waiting s' (Barrier_list (nat j)) = waiting s (Barrier_list (nat j)) @ [current_running s]
     else waiting s' (Barrier_list (nat j)) = [] \<and> b_current (barriers s' (nat j)) = 0 \<and>
       current_running s' = current_running s \<and>
       waiting s' Ready_queue = waiting s Ready_queue @ waiting s (Barrier_list (nat j)))"
proof -
  let ?i = "nat j" and ?x = "b_current_update (\<lambda>c. c + 1) (barriers s (nat j))"
  have ok: "int (length (waiting s (Barrier_list ?i))) = b_current (barriers s ?i)"
    "b_current (barriers s ?i) < b_goal (barriers s ?i)"
    using i b(3) g by (auto simp: sync_inv_def barrier_ok_def split: if_splits)
  show ?thesis
  proof (cases "b_current ?x < b_goal ?x")
    case True
    let ?s = "s\<lparr>barriers := (barriers s)(?i := ?x)\<rparr>"
    have k': "kinv ?s" "NR_CPUS \<le> current_running ?s" using k u by simp_all
    obtain s' where s': "block_on (Barrier_list ?i) ?s = Some s'"
        "waiting s' (Barrier_list ?i) = waiting ?s (Barrier_list ?i) @ [current_running ?s]"
      by (rule block_on_spec [OF k', of "Barrier_list ?i"]) auto
    then show ?thesis
      using b ok True by (auto simp: do_barrier_wait_def upd_barrier_def block_on_def Let_def)
  next
    case False
    let ?s = "s\<lparr>barriers := (barriers s)(?i := b_current_update (\<lambda>_. 0) ?x)\<rparr>"
    obtain s' where s': "unblock_list (Barrier_list ?i) ?s = Some s'" "same_but {Barrier_list ?i} ?s s'"
        "waiting s' (Barrier_list ?i) = []" "currents s' = currents ?s"
        "waiting s' Ready_queue = waiting ?s Ready_queue @ waiting ?s (Barrier_list ?i)"
      by (rule unblock_list_spec [of ?s "Barrier_list ?i"]) (use k in auto)
    then show ?thesis
      using b ok False same_but_sync(7) [OF s'(2)] same_butD(4) [OF s'(2)]
      by (auto simp: do_barrier_wait_def upd_barrier_def Let_def)
  qed
qed

subsection \<open>A state with two user processes\<close>

text \<open>Process 2 runs on hart 0; process 3 and the idle process of hart 0 are ready.\<close>

definition user_pcb :: "nat \<Rightarrow> task_status \<Rightarrow> pcb" where
  "user_pcb i st = (kernel_pcb 0)\<lparr>p_pid := int i, p_status := st, p_affinity := 3\<rparr>"

definition user_sync :: sync_state where
  "user_sync =
     \<lparr>pcbs = (pcbs boot_sched)(0 := kernel_pcb 0, 2 := user_pcb 2 TASK_RUNNING, 3 := user_pcb 3 TASK_READY),
      queues = lists_append Ready_queue 3 (lists_append Ready_queue 0 lists_empty),
      children = lists_empty, currents = (\<lambda>h. if h = 0 then 2 else 1), hart = 0, process_id = 4,
      time_slice_history = replicate TIME_SLICE_HISTORY_SIZE None, time_slice_history_index = 0,
      min_task_id = 0, min_slice_cnt = 0, ticks = 0, time_base = 1, satp = 0,
      mutexes = (\<lambda>r. \<lparr>m_acquired = r = Mlock 0, m_pid = 3, m_key = 0\<rparr>), mlock_ref = (\<lambda>i. if i = 0 then 8 else 0),
      cond_key = (\<lambda>_. 0), cond_refs = (\<lambda>i. if i = 0 then 8 else 0),
      semaphores = (\<lambda>_. \<lparr>s_key = 0, s_count = 0\<rparr>), sema_ref = (\<lambda>i. if i = 0 then 12 else 0),
      barriers = (\<lambda>_. \<lparr>b_key = 0, b_goal = 2, b_current = 0\<rparr>), barrier_ref = (\<lambda>i. if i = 0 then 12 else 0)\<rparr>"

lemma user_sync_waiting:
  "waiting user_sync l = (if l = Ready_queue then [0, 3] else [])"
  "cont (queues user_sync) p = (if p = 0 \<or> p = 3 then Some Ready_queue else None)"
  by (auto simp: user_sync_def lists_append_def lists_empty_def)

lemma user_sync_pcbs:
  "p_status (pcbs user_sync p) = (if p = 1 \<or> p = 2 then TASK_RUNNING else if p = 0 \<or> p = 3 then TASK_READY
     else p_status (pcbs boot_sched p))"
  "p_pid (pcbs user_sync p) = (if p < 4 then int p else p_pid (pcbs boot_sched p))"
  "kva2pa (p_pgdir (pcbs user_sync p)) = (if p < 4 then kva2pa PGDIR_VA else kva2pa (p_pgdir (pcbs boot_sched p)))"
  "p < 2 \<Longrightarrow> p_affinity (pcbs user_sync p) = push_bit p 1"
  by (auto simp: user_sync_def user_pcb_def boot_defs NR_CPUS_def less_2_cases_iff numeral_nat less_Suc_eq)

lemma user_sync_exited:
  "NR_CPUS \<le> p \<Longrightarrow> p < NUM_MAX_PCB \<Longrightarrow> p_status (pcbs user_sync p) = (if p = 2 then TASK_RUNNING
     else if p = 3 then TASK_READY else TASK_EXITED)"
  by (auto simp: user_sync_pcbs boot_defs NR_CPUS_def NUM_MAX_PCB_def NUM_MAX_TASK_def)

lemma safe_user_sync: "safe user_sync"
proof -
  have pa: "kva2pa PGDIR_VA \<noteq> None"
    by (simp add: kva2pa_def PGDIR_VA_def PGDIR_PA_def KERNEL_ADDR_TAG_def VA_EFFECTIVE_MASK_def)
  have sel: "hart user_sync = 0" "currents user_sync = (\<lambda>h. if h = 0 then 2 else 1)" "time_base user_sync = 1"
    "process_id user_sync = 4" by (simp_all add: user_sync_def)
  have small: "p < 4 \<longleftrightarrow> p = 0 \<or> p = 1 \<or> p = 2 \<or> p = (3 :: nat)" for p by auto
  have st: "p_status (pcbs user_sync p) = (if p = 1 \<or> p = 2 then TASK_RUNNING else if p = 0 \<or> p = 3 then TASK_READY
     else TASK_EXITED)" if "p < NUM_MAX_PCB" for p
    using user_sync_exited [OF _ that] user_sync_pcbs(1) [of p] by (cases "p < NR_CPUS") (auto simp: NR_CPUS_def)
  have "pids_ok user_sync"
    using st by (auto simp: pids_ok_def inj_on_def user_sync_pcbs(2) sel NR_CPUS_def split: if_splits)
  moreover have "lists_ok (queues user_sync)"
    by (simp add: user_sync_def) (intro lists_ok_append lists_ok_empty)
  ultimately have "table_inv user_sync"
    using st pa unfolding table_inv_def
    by (auto simp: user_sync_waiting user_sync_pcbs(2-) sel active_def NR_CPUS_def NUM_MAX_PCB_def NUM_MAX_TASK_def
        less_2_cases_iff split: if_splits)
  moreover have "harts_inv user_sync"
    using st unfolding harts_inv_def
    by (auto simp: sel active_def NR_CPUS_def NUM_MAX_PCB_def NUM_MAX_TASK_def less_2_cases_iff inj_on_def split: if_splits)
  moreover have "sync_inv user_sync"
    unfolding sync_inv_defs user_sync_waiting by (auto simp: user_sync_def)
  ultimately show ?thesis using user_sync_pcbs(1) [of 2] by (simp add: safe_def kinv_def sel)
qed

lemma user_sync_sel:
  "current_running user_sync = 2" "NR_CPUS \<le> current_running user_sync" "sema_ref user_sync 0 \<noteq> 0"
  "barrier_ref user_sync 0 \<noteq> 0" "b_goal (barriers user_sync 0) = 2" "s_count (semaphores user_sync 0) = 0"
  "m_acquired (mutexes user_sync (Mlock 0))" "m_pid (mutexes user_sync (Mlock 0)) = 3" "p_pid (pcbs user_sync 2) = 2"
  by (simp_all add: user_sync_def user_pcb_def NR_CPUS_def)




theorem barrier_round_witness:
  "\<exists>s'. do_barrier_wait 0 user_sync = Some s' \<and> waiting s' (Barrier_list 0) = [2]"
  using barrier_round [OF safeD [OF safe_user_sync] user_sync_sel(2), of 0] user_sync_sel
  by (auto simp: BARRIER_NUM_def user_sync_waiting)



end
