(* ===== verification/C_String.thy ===== *)
theory C_String
  imports Kernel_Prelude
begin

text \<open>
  The string and memory functions of \<open>libs/string.c\<close>; the user library has the same ones in
  \<open>tiny_libc/string.c\<close>, and \<open>strrev\<close>, \<open>atol\<close>, \<open>itoa\<close>, \<open>rand\<close> besides.

  \<^item> Memory is a function from 64-bit addresses to bytes; pointer arithmetic wraps.
  \<^item> \<open>char\<close> is an unsigned byte on this target, so \<open>*str1 - *str2\<close> is the difference of two
    numbers below 256.
  \<^item> The loops that run up to a terminating zero need not end on arbitrary memory; they are
    partial functions and \<open>None\<close> means that the loop does not end. Loops with a counter are
    total recursions over the counter.
  \<^item> An \<open>int\<close> counter of such a loop is a natural number (it overflows only on strings of
    two gigabytes).
\<close>

type_synonym mem = "u64 \<Rightarrow> u8"

section \<open>The functions\<close>

primrec memcpy_loop :: "nat \<Rightarrow> u64 \<Rightarrow> u64 \<Rightarrow> mem \<Rightarrow> mem" where
  "memcpy_loop 0 dest src m = m"
| "memcpy_loop (Suc n) dest src m = memcpy_loop n (dest + 1) (src + 1) (m(dest := m src))"

definition memcpy :: "u64 \<Rightarrow> u64 \<Rightarrow> u32 \<Rightarrow> mem \<Rightarrow> mem" where
  "memcpy dest src len m = memcpy_loop (unat len) dest src m"

primrec memset_loop :: "nat \<Rightarrow> u64 \<Rightarrow> u8 \<Rightarrow> mem \<Rightarrow> mem" where
  "memset_loop 0 dst val m = m"
| "memset_loop (Suc n) dst val m = memset_loop n (dst + 1) val (m(dst := val))"

definition memset :: "u64 \<Rightarrow> u8 \<Rightarrow> u32 \<Rightarrow> mem \<Rightarrow> mem" where
  "memset dest val len m = memset_loop (unat len) dest val m"

definition bzero :: "u64 \<Rightarrow> u32 \<Rightarrow> mem \<Rightarrow> mem" where
  "bzero dest len m = memset dest 0 len m"

partial_function (option) strlen_loop :: "mem \<Rightarrow> u64 \<Rightarrow> nat \<Rightarrow> nat option" where
  "strlen_loop m src i = (if m (src + of_nat i) \<noteq> 0 then strlen_loop m src (i + 1) else Some i)"

definition strlen :: "mem \<Rightarrow> u64 \<Rightarrow> nat option" where
  "strlen m src = strlen_loop m src 0"

definition char_diff :: "u8 \<Rightarrow> u8 \<Rightarrow> int" where
  "char_diff a b = uint a - uint b"

partial_function (option) strcmp :: "mem \<Rightarrow> u64 \<Rightarrow> u64 \<Rightarrow> int option" where
  "strcmp m str1 str2 =
     (if m str1 \<noteq> 0 \<and> m str2 \<noteq> 0
      then if m str1 \<noteq> m str2 then Some (char_diff (m str1) (m str2))
           else strcmp m (str1 + 1) (str2 + 1)
      else Some (char_diff (m str1) (m str2)))"

fun strncmp_loop :: "mem \<Rightarrow> u64 \<Rightarrow> u64 \<Rightarrow> nat \<Rightarrow> nat \<Rightarrow> int" where
  "strncmp_loop m str1 str2 i 0 = 0"
| "strncmp_loop m str1 str2 i (Suc n) =
     (let a = m (str1 + of_nat i); b = m (str2 + of_nat i)
      in if a = 0 \<or> a \<noteq> b then char_diff a b else strncmp_loop m str1 str2 (i + 1) n)"

definition strncmp :: "mem \<Rightarrow> u64 \<Rightarrow> u64 \<Rightarrow> u32 \<Rightarrow> int" where
  "strncmp m str1 str2 n = strncmp_loop m str1 str2 0 (unat n)"

partial_function (option) strcpy :: "u64 \<Rightarrow> u64 \<Rightarrow> mem \<Rightarrow> mem option" where
  "strcpy dest src m =
     (if m src \<noteq> 0 then strcpy (dest + 1) (src + 1) (m(dest := m src)) else Some (m(dest := 0)))"

text \<open>The first loop of \<open>strncpy\<close> returns how much of \<open>n\<close> is left for the second one.\<close>

primrec strncpy_loop :: "nat \<Rightarrow> u64 \<Rightarrow> u64 \<Rightarrow> mem \<Rightarrow> nat \<times> u64 \<times> mem" where
  "strncpy_loop 0 dest src m = (0, dest, m)"
| "strncpy_loop (Suc n) dest src m =
     (if m src \<noteq> 0 then strncpy_loop n (dest + 1) (src + 1) (m(dest := m src)) else (Suc n, dest, m))"

definition strncpy :: "u64 \<Rightarrow> u64 \<Rightarrow> int \<Rightarrow> mem \<Rightarrow> mem" where
  "strncpy dest src n m =
     (case strncpy_loop (nat n) dest src m of (left, d, m') \<Rightarrow> memset_loop left d 0 m')"

partial_function (option) skip_string :: "u64 \<Rightarrow> mem \<Rightarrow> u64 option" where
  "skip_string dest m = (if m dest \<noteq> 0 then skip_string (dest + 1) m else Some dest)"

definition strcat :: "u64 \<Rightarrow> u64 \<Rightarrow> mem \<Rightarrow> mem option" where
  "strcat dest src m = do { d \<leftarrow> skip_string dest m; strcpy d src m }"

function strrev_loop :: "u64 \<Rightarrow> int \<Rightarrow> int \<Rightarrow> mem \<Rightarrow> mem" where
  "strrev_loop str i j m =
     (if i < j
      then let a = str + of_int i; b = str + of_int j; tmp = m a; m1 = m(a := m b)
           in strrev_loop str (i + 1) (j - 1) (m1(b := tmp))
      else m)"
  by pat_completeness auto
termination by (relation "measure (\<lambda>(_, i, j, _). nat (j - i))") auto

definition strrev :: "u64 \<Rightarrow> mem \<Rightarrow> mem option" where
  "strrev str m = do { len \<leftarrow> strlen m str; Some (strrev_loop str 0 (int len - 1) m) }"

section \<open>Blocks of memory\<close>

definition bytes :: "mem \<Rightarrow> u64 \<Rightarrow> nat \<Rightarrow> u8 list" where
  "bytes m p n = map (\<lambda>i. m (p + of_nat i)) [0..<n]"

definition store :: "u64 \<Rightarrow> u8 list \<Rightarrow> mem \<Rightarrow> mem" where
  "store p bs m = (\<lambda>a. if unat (a - p) < length bs then bs ! unat (a - p) else m a)"

text \<open>A block of \<open>n\<close> bytes at \<open>p\<close> and one of \<open>k\<close> bytes at \<open>q\<close> have no byte in common.\<close>

definition disjoint :: "u64 \<Rightarrow> nat \<Rightarrow> u64 \<Rightarrow> nat \<Rightarrow> bool" where
  "disjoint p n q k \<longleftrightarrow> (\<forall>i<n. \<forall>j<k. p + of_nat i \<noteq> q + of_nat j)"

text \<open>The zero-terminated string \<open>s\<close> is at \<open>p\<close>.\<close>

definition cstr :: "mem \<Rightarrow> u64 \<Rightarrow> u8 list \<Rightarrow> bool" where
  "cstr m p s \<longleftrightarrow> 0 \<notin> set s \<and> length s < 2 ^ 31 \<and> bytes m p (length s + 1) = s @ [0]"

lemma bytes_0 [simp]: "bytes m p 0 = []"
  by (simp add: bytes_def)

lemma bytes_Suc: "bytes m p (Suc n) = m p # bytes m (p + 1) n"
  by (simp add: bytes_def upt_conv_Cons map_Suc_upt [symmetric] comp_def add.assoc del: upt_Suc)

lemma length_bytes [simp]: "length (bytes m p n) = n"
  by (simp add: bytes_def)

lemma bytes_cong: "(\<And>i. i < n \<Longrightarrow> m (p + of_nat i) = m' (p + of_nat i)) \<Longrightarrow> bytes m p n = bytes m' p n"
  by (simp add: bytes_def)

lemma store_Nil [simp]: "store p [] m = m"
  by (simp add: store_def)

lemma unat_step:
  fixes a p :: u64
  assumes "a \<noteq> p"
  shows "unat (a - p) = Suc (unat (a - (p + 1)))"
proof -
  have nz: "a - p \<noteq> 0" using assms by simp
  have "unat (a - p - 1) = unat (a - p) - 1" using unat_minus_one [OF nz] .
  moreover have "unat (a - p) > 0" using nz by (simp add: unat_gt_0)
  ultimately have "unat (a - p) = Suc (unat (a - p - 1))" by linarith
  then show ?thesis by (simp only: diff_diff_eq)
qed

lemma store_Cons:
  assumes "length bs < 2 ^ 64"
  shows "store (p + 1) bs (m(p := b)) = store p (b # bs) m"
proof
  fix a
  show "store (p + 1) bs (m(p := b)) a = store p (b # bs) m a"
  proof (cases "a = p")
    case True
    have "p - (p + 1) = (-1 :: u64)" by simp
    then have "unat (p - (p + 1)) = 2 ^ 64 - 1"
      by (simp only: unsigned_minus_1_eq_mask mask_eq_exp_minus_1) simp
    with True assms show ?thesis by (simp add: store_def)
  next
    case False
    then show ?thesis by (simp add: store_def unat_step)
  qed
qed

lemma store_at: "length bs < 2 ^ 64 \<Longrightarrow> i < length bs \<Longrightarrow> store p bs m (p + of_nat i) = bs ! i"
  by (simp add: store_def unat_of_nat_lt)

lemma bytes_store: "length bs < 2 ^ 64 \<Longrightarrow> bytes (store p bs m) p (length bs) = bs"
  by (rule nth_equalityI) (simp_all add: bytes_def store_at)

lemma disjoint_step:
  "disjoint p (Suc n) q (Suc k) \<Longrightarrow> disjoint (p + 1) n (q + 1) k"
  unfolding disjoint_def
proof (intro allI impI)
  fix i j assume d: "\<forall>i<Suc n. \<forall>j<Suc k. p + of_nat i \<noteq> q + of_nat j" and "i < n" "j < k"
  then have "p + of_nat (Suc i) \<noteq> q + of_nat (Suc j)" by blast
  then show "p + 1 + of_nat i \<noteq> q + 1 + of_nat j" by (simp add: add.assoc)
qed

lemma memcpy_loop_store:
  assumes "n < 2 ^ 64" "disjoint dest n src n"
  shows "memcpy_loop n dest src m = store dest (bytes m src n) m"
  using assms
proof (induction n arbitrary: dest src m)
  case (Suc n)
  have d: "disjoint dest (Suc n) src (Suc n)" using Suc.prems by simp
  have "bytes (m(dest := m src)) (src + 1) n = bytes m (src + 1) n"
  proof (rule bytes_cong)
    fix i assume "i < n"
    then have "dest + of_nat 0 \<noteq> src + of_nat (Suc i)" using d unfolding disjoint_def by blast
    then show "(m(dest := m src)) (src + 1 + of_nat i) = m (src + 1 + of_nat i)" by (simp add: add.assoc)
  qed
  moreover have "memcpy_loop n (dest + 1) (src + 1) (m(dest := m src)) =
      store (dest + 1) (bytes (m(dest := m src)) (src + 1) n) (m(dest := m src))"
    by (rule Suc.IH) (use Suc.prems(1) disjoint_step [OF d] in simp_all)
  moreover have "store (dest + 1) (bytes m (src + 1) n) (m(dest := m src)) = store dest (bytes m src (Suc n)) m"
    unfolding bytes_Suc by (rule store_Cons) (use Suc.prems(1) in simp)
  ultimately show ?case by simp
qed simp

lemma memset_loop_store:
  assumes "n < 2 ^ 64"
  shows "memset_loop n dst v m = store dst (replicate n v) m"
  using assms
proof (induction n arbitrary: dst m)
  case (Suc n)
  then show ?case using store_Cons [of "replicate n v" dst m v] by simp
qed simp

text \<open>A string as the loops walk along it.\<close>

lemma cstr_Nil: "cstr m p [] \<longleftrightarrow> m p = 0"
  by (simp add: cstr_def bytes_Suc)

lemma cstr_Cons: "cstr m p (c # s) \<longleftrightarrow> c \<noteq> 0 \<and> m p = c \<and> length s < 2 ^ 31 - 1 \<and> cstr m (p + 1) s"
  by (auto simp: cstr_def bytes_Suc)

lemma cstr_cong: "(\<And>i. i \<le> length s \<Longrightarrow> m' (p + of_nat i) = m (p + of_nat i)) \<Longrightarrow> cstr m' p s = cstr m p s"
proof -
  assume "\<And>i. i \<le> length s \<Longrightarrow> m' (p + of_nat i) = m (p + of_nat i)"
  then have "bytes m' p (length s + 1) = bytes m p (length s + 1)" by (intro bytes_cong) simp
  then show ?thesis by (simp add: cstr_def)
qed

lemma cstr_store:
  assumes "0 \<notin> set s" "length s < 2 ^ 31"
  shows "cstr (store p (s @ [0]) m) p s"
  using assms bytes_store [of "s @ [0]" p m] by (simp add: cstr_def)

lemma strlen_loop_cstr: "cstr m (p + of_nat i) s \<Longrightarrow> strlen_loop m p i = Some (i + length s)"
proof (induction s arbitrary: i)
  case Nil
  then show ?case by (subst strlen_loop.simps) (simp add: cstr_Nil)
next
  case (Cons c s)
  then have "cstr m (p + of_nat (i + 1)) s" "m (p + of_nat i) \<noteq> 0"
    by (simp_all add: cstr_Cons add.commute add.left_commute)
  with Cons.IH [of "i + 1"] show ?case by (subst strlen_loop.simps) simp
qed

lemma strlen_cstr: "cstr m p s \<Longrightarrow> strlen m p = Some (length s)"
  using strlen_loop_cstr [of m p 0 s] by (simp add: strlen_def)

lemma skip_string_cstr: "cstr m p s \<Longrightarrow> skip_string p m = Some (p + of_nat (length s))"
proof (induction s arbitrary: p)
  case Nil
  then show ?case by (subst skip_string.simps) (simp add: cstr_Nil)
next
  case (Cons c s)
  then show ?case by (subst skip_string.simps) (simp add: cstr_Cons add.assoc)
qed

lemma strcpy_store:
  assumes "cstr m src s" "disjoint dest (length s + 1) src (length s + 1)"
  shows "strcpy dest src m = Some (store dest (s @ [0]) m)"
  using assms
proof (induction s arbitrary: dest src m)
  case Nil
  then show ?case using store_Cons [of "[]" dest m 0] by (subst strcpy.simps) (simp add: cstr_Nil)
next
  case (Cons c s)
  have d: "disjoint dest (Suc (length s + 1)) src (Suc (length s + 1))" using Cons.prems by simp
  have c: "m src = c" "c \<noteq> 0" "cstr m (src + 1) s" "length s < 2 ^ 31" using Cons.prems(1) by (auto simp: cstr_Cons)
  have "cstr (m(dest := c)) (src + 1) s = cstr m (src + 1) s"
  proof (rule cstr_cong)
    fix i assume "i \<le> length s"
    then have "dest + of_nat 0 \<noteq> src + of_nat (Suc i)" using d unfolding disjoint_def by (metis less_Suc_eq_le add.commute plus_1_eq_Suc Suc_le_mono zero_less_Suc)
    then show "(m(dest := c)) (src + 1 + of_nat i) = m (src + 1 + of_nat i)" by (simp add: add.assoc)
  qed
  then have "strcpy (dest + 1) (src + 1) (m(dest := c)) = Some (store (dest + 1) (s @ [0]) (m(dest := c)))"
    using Cons.IH disjoint_step [OF d] c(3) by simp
  moreover have "store (dest + 1) (s @ [0]) (m(dest := c)) = store dest (c # s @ [0]) m"
    using c(4) by (intro store_Cons) simp
  ultimately show ?case using c(1,2) by (subst strcpy.simps) simp
qed

lemma store_append:
  "length (xs @ ys) < 2 ^ 64 \<Longrightarrow> store (p + of_nat (length xs)) ys (store p xs m) = store p (xs @ ys) m"
proof (induction xs arbitrary: p m)
  case (Cons x xs)
  have "store p (x # xs) m = store (p + 1) xs (m(p := x))" "store p (x # xs @ ys) m = store (p + 1) (xs @ ys) (m(p := x))"
    using Cons.prems by (simp_all add: store_Cons del: fun_upd_apply)
  moreover have "store (p + 1 + of_nat (length xs)) ys (store (p + 1) xs (m(p := x))) = store (p + 1) (xs @ ys) (m(p := x))"
    by (rule Cons.IH) (use Cons.prems in simp)
  ultimately show ?case by (simp add: add.assoc del: fun_upd_apply)
qed simp

lemma strncpy_loop_store:
  assumes "cstr m src s" "disjoint dest n src (length s + 1)" "n < 2 ^ 64"
  shows "strncpy_loop n dest src m = (n - length s, dest + of_nat (min n (length s)), store dest (take n s) m)"
  using assms
proof (induction n arbitrary: s dest src m)
  case (Suc n)
  show ?case
  proof (cases s)
    case Nil
    then show ?thesis using Suc.prems(1) by (simp add: cstr_Nil)
  next
    case (Cons c t)
    have d: "disjoint dest (Suc n) src (Suc (length t + 1))" using Suc.prems Cons by simp
    have c: "m src = c" "c \<noteq> 0" "cstr m (src + 1) t" using Suc.prems(1) Cons by (auto simp: cstr_Cons)
    have "cstr (m(dest := c)) (src + 1) t = cstr m (src + 1) t"
    proof (rule cstr_cong)
      fix i assume "i \<le> length t"
      then have "Suc i < Suc (length t + 1)" by simp
      then have "dest + of_nat 0 \<noteq> src + of_nat (Suc i)" using d unfolding disjoint_def by blast
      then show "(m(dest := c)) (src + 1 + of_nat i) = m (src + 1 + of_nat i)" by (simp add: add.assoc)
    qed
    then have "strncpy_loop n (dest + 1) (src + 1) (m(dest := c)) = (n - length t,
        dest + 1 + of_nat (min n (length t)), store (dest + 1) (take n t) (m(dest := c)))"
      using c(3) disjoint_step [OF d] Suc.prems(3) by (intro Suc.IH) (simp_all del: fun_upd_apply)
    moreover have "store (dest + 1) (take n t) (m(dest := c)) = store dest (take (Suc n) s) m"
      using Suc.prems(3) Cons by (simp add: store_Cons del: fun_upd_apply)
    ultimately show ?thesis using Cons c(1,2) by (simp add: add.assoc del: fun_upd_apply)
  qed
qed simp

lemma strncpy_store:
  assumes "cstr m src s" "disjoint dest (nat n) src (length s + 1)" "n < 2 ^ 31"
  shows "strncpy dest src n m = store dest (take (nat n) (s @ replicate (nat n) 0)) m"
proof -
  let ?n = "nat n"
  have n: "?n < 2 ^ 64" using assms(3) by simp
  have "store (dest + of_nat (length (take ?n s))) (replicate (?n - length s) 0) (store dest (take ?n s) m)
      = store dest (take ?n s @ replicate (?n - length s) 0) m"
    by (rule store_append) (use n in simp)
  moreover have "take ?n (s @ replicate ?n 0) = take ?n s @ replicate (?n - length s) (0 :: u8)" by simp
  ultimately show ?thesis
    using strncpy_loop_store [OF assms(1,2) n] n by (simp add: strncpy_def memset_loop_store min.commute)
qed

lemma strcat_store:
  assumes "cstr m dest s" "cstr m src t" "disjoint (dest + of_nat (length s)) (length t + 1) src (length t + 1)"
  shows "strcat dest src m = Some (store (dest + of_nat (length s)) (t @ [0]) m)"
  by (simp add: strcat_def skip_string_cstr [OF assms(1)] strcpy_store [OF assms(2,3)])

fun str_cmp :: "u8 list \<Rightarrow> u8 list \<Rightarrow> int" where
  "str_cmp [] [] = 0"
| "str_cmp [] (b # t) = - uint b"
| "str_cmp (a # s) [] = uint a"
| "str_cmp (a # s) (b # t) = (if a = b then str_cmp s t else uint a - uint b)"

lemma strcmp_cstr: "cstr m p s \<Longrightarrow> cstr m q t \<Longrightarrow> strcmp m p q = Some (str_cmp s t)"
proof (induction s t arbitrary: p q rule: str_cmp.induct)
  case 1
  then show ?case by (subst strcmp.simps) (simp add: cstr_Nil char_diff_def)
next
  case 2
  then show ?case by (subst strcmp.simps) (simp add: cstr_Nil cstr_Cons char_diff_def)
next
  case 3
  then show ?case by (subst strcmp.simps) (simp add: cstr_Nil cstr_Cons char_diff_def)
next
  case 4
  then show ?case by (subst strcmp.simps) (simp add: cstr_Cons char_diff_def)
qed

lemma str_cmp_sign:
  assumes "0 \<notin> set s" "0 \<notin> set t"
  shows "str_cmp s t = 0 \<longleftrightarrow> s = t" "str_cmp s t < 0 \<longleftrightarrow> (s, t) \<in> lexord {(a, b). a < b}"
  using assms
proof (induction s t rule: str_cmp.induct)
  case (2 b t)
  { case 1 then show ?case by (metis list.distinct(1) list.set_intros(1) neg_equal_0_iff_equal str_cmp.simps(2) unsigned_eq_0_iff) }
  {
    case 2
    then have "uint b > 0" by (simp add: uint_0_iff order.not_eq_order_implies_strict)
    then show ?case by simp
  }
next
  case (3 a s)
  { case 1 then show ?case by (metis list.distinct(1) list.set_intros(1) str_cmp.simps(3) unsigned_eq_0_iff) }
  { case 2 then show ?case by (simp add: not_less) }
next
  case (4 a s b t)
  { case 1 then show ?case using 4(1) by (auto simp: unsigned_word_eqI) }
  { case 2 then show ?case using 4(2) by (auto simp: word_less_def) }
qed simp_all

declare strrev_loop.simps [simp del]

lemma of_int_inj:
  fixes str :: u64
  assumes "0 \<le> i" "i < 2 ^ 31" "0 \<le> j" "j < 2 ^ 31"
  shows "str + of_int i = str + of_int j \<longleftrightarrow> i = j"
proof -
  have "uint (of_int i :: u64) = i" "uint (of_int j :: u64) = j"
    using assms by (simp_all add: uint_word_of_int)
  then show ?thesis by (metis add_left_cancel)
qed

lemma strrev_loop_at:
  assumes "0 \<le> i" "j < 2 ^ 31" "0 \<le> k" "k < 2 ^ 31"
  shows "strrev_loop str i j m (str + of_int k) =
    (if i \<le> k \<and> k \<le> j then m (str + of_int (i + j - k)) else m (str + of_int k))"
  using assms
proof (induction str i j m rule: strrev_loop.induct)
  case (1 str i j m)
  show ?case
  proof (cases "i < j")
    case True
    let ?m = "(m(str + of_int i := m (str + of_int j)))(str + of_int j := m (str + of_int i))"
    have m: "?m (str + of_int l) = (if l = i then m (str + of_int j) else if l = j then m (str + of_int i)
        else m (str + of_int l))" if "0 \<le> l" "l < 2 ^ 31" for l
      using True 1(2,3) that of_int_inj [of l j str] of_int_inj [of l i str] by auto
    have "strrev_loop str i j m = strrev_loop str (i + 1) (j - 1) ?m"
      using True by (subst strrev_loop.simps) (simp add: Let_def fun_upd_def)
    moreover have "strrev_loop str (i + 1) (j - 1) ?m (str + of_int k) =
        (if i + 1 \<le> k \<and> k \<le> j - 1 then ?m (str + of_int (i + 1 + (j - 1) - k)) else ?m (str + of_int k))"
      by (rule 1(1) [OF True refl refl refl refl]) (use 1(2-) True in simp_all)
    ultimately have e: "strrev_loop str i j m (str + of_int k) =
        (if i < k \<and> k < j then ?m (str + of_int (i + j - k)) else ?m (str + of_int k))"
      by (simp del: fun_upd_apply of_int_add of_int_diff)
    define l where "l = i + j - k"
    consider "k = i" | "k = j" | "i < k" "k < j" | "k < i \<or> j < k" by linarith
    then show ?thesis
    proof cases
      case 3
      then have "0 \<le> l" "l < 2 ^ 31" "l \<noteq> i" "l \<noteq> j" using 1(2,3) by (auto simp: l_def)
      then show ?thesis using 3 m [of l] e unfolding l_def by simp
    next
      case 4
      then have "strrev_loop str i j m (str + of_int k) = ?m (str + of_int k)" using e by auto
      also have "\<dots> = m (str + of_int k)" using 4 m [of k] 1(4,5) True by auto
      finally show ?thesis using 4 True by auto
    qed (use True 1(2-) m [of k] e in simp_all)
  next
    case False
    then have n: "strrev_loop str i j m = m" by (subst strrev_loop.simps) simp
    show ?thesis
    proof (cases "i \<le> k \<and> k \<le> j")
      case True
      then have "i + j - k = k" using False by linarith
      then show ?thesis using n by (simp only: if_cancel)
    qed (auto simp: n)
  qed
qed

lemma strrev_loop_other:
  assumes "0 \<le> i" "\<And>k. 0 \<le> k \<Longrightarrow> k \<le> j \<Longrightarrow> a \<noteq> str + of_int k"
  shows "strrev_loop str i j m a = m a"
  using assms
proof (induction str i j m rule: strrev_loop.induct)
  case (1 str i j m)
  show ?case
  proof (cases "i < j")
    case True
    have "a \<noteq> str + of_int i" "a \<noteq> str + of_int j" using 1(2) 1(3) [of i] 1(3) [of j] True by auto
    moreover have "strrev_loop str (i + 1) (j - 1) ((m(str + of_int i := m (str + of_int j)))
        (str + of_int j := m (str + of_int i))) a = ((m(str + of_int i := m (str + of_int j)))
        (str + of_int j := m (str + of_int i))) a"
      by (rule 1(1) [OF True refl refl refl refl]) (use 1(2-) in auto)
    ultimately show ?thesis
      using True by (subst strrev_loop.simps) (simp add: Let_def)
  qed (subst strrev_loop.simps, simp)
qed

lemma strrev_cstr:
  assumes "cstr m p s"
  shows "strrev p m = Some (store p (rev s) m)"
proof -
  let ?n = "length s"
  have n: "?n < 2 ^ 31" and b: "bytes m p (?n + 1) = s @ [0]" using assms by (auto simp: cstr_def)
  have at: "m (p + of_nat k) = s ! k" if "k < ?n" for k
    using arg_cong [OF b, of "\<lambda>l. l ! k"] that by (simp add: bytes_def nth_append del: upt_Suc)
  have "strrev_loop p 0 (int ?n - 1) m a = store p (rev s) m a" for a
  proof (cases "unat (a - p) < ?n")
    case True
    let ?k = "unat (a - p)"
    have a: "a = p + of_int (int ?k)" by simp
    have l: "0 + (int ?n - 1) - int ?k = int (?n - Suc ?k)" using True by simp
    have "0 \<le> int ?k" "int ?k < 2 ^ 31" "int ?k \<le> int ?n - 1" "int ?n - 1 < 2 ^ 31"
      using True n by (simp_all del: of_nat_unat)
    then have "strrev_loop p 0 (int ?n - 1) m (p + of_int (int ?k)) = m (p + of_int (int (?n - Suc ?k)))"
      unfolding l [symmetric] by (subst strrev_loop_at) simp_all
    then have "strrev_loop p 0 (int ?n - 1) m a = s ! (?n - Suc ?k)"
      unfolding a [symmetric] using at [of "?n - Suc ?k"] True by simp
    then show ?thesis using True by (simp add: store_def rev_nth)
  next
    case False
    have "a \<noteq> p + of_int k" if "0 \<le> k" "k \<le> int ?n - 1" for k
    proof
      assume "a = p + of_int k"
      then have "unat (a - p) = nat k" using that n by (simp add: unat_word_ariths unsigned_of_int take_bit_int_eq_self)
      with False that show False by simp
    qed
    then show ?thesis using False by (simp add: strrev_loop_other store_def)
  qed
  then show ?thesis by (simp add: strrev_def strlen_cstr [OF assms] fun_eq_iff)
qed

section \<open>What the functions do\<close>

lemma store_other: "length bs \<le> unat (a - p) \<Longrightarrow> store p bs m a = m a"
  by (simp add: store_def)

lemma disjoint_sub:
  assumes "disjoint p n q k" "i + n' \<le> n" "k' \<le> k"
  shows "disjoint (p + of_nat i) n' q k'"
  unfolding disjoint_def
proof (intro allI impI)
  fix x y assume "x < n'" "y < k'"
  then have "p + of_nat (i + x) \<noteq> q + of_nat y"
    using assms unfolding disjoint_def by (metis add_less_cancel_left order_less_le_trans)
  then show "p + of_nat i + of_nat x \<noteq> q + of_nat y" by (simp add: add.assoc)
qed

lemma disjoint_below:
  assumes "unat p + n \<le> unat q" "unat q + k \<le> 2 ^ 64"
  shows "disjoint p n q k"
  unfolding disjoint_def
proof (intro allI impI)
  fix i j assume ij: "i < n" "j < k"
  have "unat (p + of_nat i) = unat p + i" "unat (q + of_nat j) = unat q + j"
    using assms ij by (simp_all add: unat_add_lt unat_of_nat_lt)
  then show "p + of_nat i \<noteq> q + of_nat j" using assms ij by auto
qed

lemma store_tail:
  assumes "length (xs @ ys) < 2 ^ 64" "bytes m p (length xs) = xs"
  shows "store (p + of_nat (length xs)) ys m = store p (xs @ ys) m"
proof -
  have "store p xs m = m"
  proof
    fix a
    show "store p xs m a = m a"
      using arg_cong [OF assms(2), of "\<lambda>l. l ! unat (a - p)"]
      by (cases "unat (a - p) < length xs") (simp_all add: store_def bytes_def)
  qed
  then show ?thesis using store_append [OF assms(1), of p m] by simp
qed

text \<open>
  C23. Strings are measured, copied and joined: with a string \<open>t\<close> at \<open>dest\<close> and a string \<open>s\<close> at
  \<open>src\<close> that do not overlap, \<open>strlen\<close> gives the length of \<open>s\<close>, \<open>strcpy\<close> leaves \<open>s\<close> and \<open>strcat\<close>
  leaves \<open>t\<close> followed by \<open>s\<close> at \<open>dest\<close>, both with a terminating zero; all three end, and not one
  byte outside the result changes.
\<close>

theorem string_copy:
  assumes t: "cstr m dest t" and s: "cstr m src s" and l: "length t + length s < 2 ^ 31"
    and d: "disjoint dest (length t + length s + 1) src (length s + 1)"
  shows "strlen m src = Some (length s) \<and>
    (\<exists>m'. strcpy dest src m = Some m' \<and> cstr m' dest s \<and> (\<forall>a. unat (a - dest) > length s \<longrightarrow> m' a = m a)) \<and>
    (\<exists>m'. strcat dest src m = Some m' \<and> cstr m' dest (t @ s) \<and>
       (\<forall>a. unat (a - dest) > length (t @ s) \<longrightarrow> m' a = m a))"
proof -
  have z: "0 \<notin> set s" "0 \<notin> set t" and b: "bytes m dest (length t + 1) = t @ [0]" using s t by (auto simp: cstr_def)
  have "bytes m dest (length t) = t"
    using arg_cong [OF b, of "take (length t)"] by (simp add: bytes_def take_map del: upt_Suc)
  then have j: "store (dest + of_nat (length t)) (s @ [0]) m = store dest (t @ s @ [0]) m"
    using l by (intro store_tail) simp_all
  have c: "strcpy dest src m = Some (store dest (s @ [0]) m)"
    using strcpy_store [OF s] disjoint_sub [OF d, of 0 "length s + 1"] by simp
  have a: "strcat dest src m = Some (store dest ((t @ s) @ [0]) m)"
    using strcat_store [OF t s] disjoint_sub [OF d, of "length t" "length s + 1"] j by simp
  have "cstr (store dest (s @ [0]) m) dest s" "cstr (store dest ((t @ s) @ [0]) m) dest (t @ s)"
    using z l by (intro cstr_store; simp)+
  then show ?thesis using strlen_cstr [OF s] c a by (auto intro!: store_other simp del: append_assoc)
qed

theorem string_copy_witness:
  "\<exists>m'. strcat 0x100 0x200 (store 0x200 [0x62, 0] (store 0x100 [0x61, 0] (\<lambda>_. 7))) = Some m' \<and>
     cstr m' 0x100 [0x61, 0x62]"
proof -
  let ?m = "store 0x200 [0x62, 0] (store 0x100 [0x61, 0] (\<lambda>_. 7))"
  have c: "cstr ?m 0x100 [0x61]" "cstr ?m 0x200 [0x62]" by (simp_all add: cstr_def bytes_Suc store_def)
  have "length [0x61 :: u8] + length [0x62 :: u8] < 2 ^ 31"
    "disjoint 0x100 (length [0x61 :: u8] + length [0x62 :: u8] + 1) 0x200 (length [0x62 :: u8] + 1)"
    by (simp, rule disjoint_below) simp_all
  from string_copy [OF c this] show ?thesis by auto
qed

text \<open>
  C24. \<open>strcmp\<close> orders strings lexicographically by their bytes, a prefix first: the result is zero
  for equal strings only and negative exactly if the first is smaller.
\<close>

theorem strcmp_order:
  assumes s: "cstr m p s" and t: "cstr m q t"
  shows "\<exists>r. strcmp m p q = Some r \<and> (r = 0 \<longleftrightarrow> s = t) \<and> (r < 0 \<longleftrightarrow> (s, t) \<in> lexord {(a, b). a < b})"
  using strcmp_cstr [OF s t] str_cmp_sign [of s t] s t by (auto simp: cstr_def)

theorem strcmp_order_witness:
  "\<exists>r. strcmp (store 0x200 [0x62, 0] (store 0x100 [0x61, 0x7a, 0] (\<lambda>_. 7))) 0x100 0x200 = Some r \<and> r < 0"
proof -
  let ?m = "store 0x200 [0x62, 0] (store 0x100 [0x61, 0x7a, 0] (\<lambda>_. 7))"
  have c: "cstr ?m 0x100 [0x61, 0x7a]" "cstr ?m 0x200 [0x62]" by (simp_all add: cstr_def bytes_Suc store_def)
  show ?thesis using strcmp_order [OF c] by auto
qed

text \<open>
  C25. Blocks of memory: \<open>memcpy\<close> between blocks that do not overlap, \<open>memset\<close>, \<open>bzero\<close>, and
  \<open>strncpy\<close> (which cuts the string at \<open>n\<close> bytes or fills up with zeros) write exactly the given
  number of bytes at \<open>dest\<close>; \<open>strrev\<close> reverses a string in place.
\<close>

theorem memory_blocks:
  assumes s: "cstr m src s" and d: "disjoint dest (unat len) src (unat len)"
    and n: "disjoint dest (nat n) src (length s + 1)" "n < 2 ^ 31"
  shows "memcpy dest src len m = store dest (bytes m src (unat len)) m \<and>
    memset dest v len m = store dest (replicate (unat len) v) m \<and>
    bzero dest len m = store dest (replicate (unat len) 0) m \<and>
    strncpy dest src n m = store dest (take (nat n) (s @ replicate (nat n) 0)) m \<and>
    strrev src m = Some (store src (rev s) m)"
proof -
  have "unat len < 2 ^ 64" using unsigned_less [of len, where 'a = nat] by simp
  then show ?thesis
    using memcpy_loop_store [OF _ d] strncpy_store [OF s n] strrev_cstr [OF s]
    by (simp add: memcpy_def memset_def bzero_def memset_loop_store)
qed

theorem memory_blocks_witness:
  "strncpy 0x100 0x200 3 (store 0x200 [0x62, 0x61, 0] (\<lambda>_. 7)) =
     store 0x100 [0x62, 0x61, 0] (store 0x200 [0x62, 0x61, 0] (\<lambda>_. 7))"
proof -
  let ?m = "store 0x200 [0x62, 0x61, 0] (\<lambda>_. 7)"
  have c: "cstr ?m 0x200 [0x62, 0x61]" by (simp add: cstr_def bytes_Suc store_def)
  have d: "disjoint 0x100 (unat (3 :: u32)) 0x200 (unat (3 :: u32))" "disjoint 0x100 (nat 3) 0x200 (length [0x62, 0x61 :: u8] + 1)"
    by (rule disjoint_below; simp)+
  show ?thesis using memory_blocks [OF c d(1) d(2)] by (simp add: numeral_2_eq_2 numeral_3_eq_3)
qed

end
