(* ===== verification/Tiny_Libc.thy ===== *)
theory Tiny_Libc
  imports C_String
begin

unbundle bit_operations_syntax

text \<open>
  The user library: \<open>ctype.h\<close>, \<open>atoi.c\<close>, \<open>itoa.c\<close> and \<open>rand.c\<close> of \<open>tiny_libc\<close>.

  Characters are bytes; a \<open>long\<close> is a 64-bit word. \<open>itoa\<close> computes with \<open>int\<close>s, whose division
  and remainder round towards zero.
\<close>

section \<open>Character classes\<close>

definition isupper :: "u8 \<Rightarrow> bool" where "isupper ch \<longleftrightarrow> 0x41 \<le> ch \<and> ch \<le> 0x5a"
definition islower :: "u8 \<Rightarrow> bool" where "islower ch \<longleftrightarrow> 0x61 \<le> ch \<and> ch \<le> 0x7a"
definition isalpha :: "u8 \<Rightarrow> bool" where "isalpha ch \<longleftrightarrow> isupper ch \<or> islower ch"
definition isdigit :: "u8 \<Rightarrow> bool" where "isdigit ch \<longleftrightarrow> 0x30 \<le> ch \<and> ch \<le> 0x39"

definition isxdigit :: "u8 \<Rightarrow> bool" where
  "isxdigit ch \<longleftrightarrow> isdigit ch \<or> 0x61 \<le> ch \<and> ch \<le> 0x66 \<or> 0x41 \<le> ch \<and> ch \<le> 0x46"

definition isalnum :: "u8 \<Rightarrow> bool" where "isalnum ch \<longleftrightarrow> isalpha ch \<or> isdigit ch"

definition isspace :: "u8 \<Rightarrow> bool" where
  "isspace ch \<longleftrightarrow> ch = 0x20 \<or> ch = 0x09 \<or> ch = 0x0a \<or> ch = 0x0b \<or> ch = 0x0c \<or> ch = 0x0d"

section \<open>Reading numbers\<close>

text \<open>The loop that should skip blanks does not advance the pointer.\<close>

partial_function (option) skip_blanks :: "mem \<Rightarrow> u64 \<Rightarrow> unit option" where
  "skip_blanks m str = (if isspace (m str) then skip_blanks m str else Some ())"

partial_function (option) atol_loop :: "mem \<Rightarrow> u64 \<Rightarrow> u64 \<Rightarrow> u64 \<Rightarrow> bool \<Rightarrow> u64 option" where
  "atol_loop m base str ret negative =
     (let c = m str in
      if c \<noteq> 0 then
        if isdigit c then atol_loop m base (str + 1) (ret * base + (ucast c - 0x30)) negative
        else if base = 16 then
          if 0x61 \<le> c \<and> c \<le> 0x66 then atol_loop m base (str + 1) (ret * base + (ucast c - 0x61 + 10)) negative
          else if 0x41 \<le> c \<and> c \<le> 0x46 then atol_loop m base (str + 1) (ret * base + (ucast c - 0x41 + 10)) negative
          else Some 0
        else Some 0
      else Some (if negative then - ret else ret))"

definition atol :: "mem \<Rightarrow> u64 \<Rightarrow> u64 option" where
  "atol m str0 =
     (if str0 = 0 then Some 0
      else do {
        skip_blanks m str0;
        let c = m str0;
        if c \<noteq> 0x2b \<and> c \<noteq> 0x2d \<and> \<not> isdigit c then Some 0
        else do {
          let negative = (c = 0x2d);
          let str = (if c = 0x2b \<or> c = 0x2d then str0 + 1 else str0);
          if m str = 0x30 \<and> (m (str + 1) = 0x78 \<or> m (str + 1) = 0x58)
          then atol_loop m 16 (str + 1 + 1) 0 negative
          else atol_loop m 10 str 0 negative
        }
      })"

definition atoi :: "mem \<Rightarrow> u64 \<Rightarrow> u32 option" where
  "atoi m str = map_option ucast (atol m str)"

section \<open>Writing numbers\<close>

function itoa_loop :: "int \<Rightarrow> int \<Rightarrow> u64 \<Rightarrow> int \<Rightarrow> int \<Rightarrow> mem \<Rightarrow> int \<times> int \<times> mem" where
  "itoa_loop base len str acc i m =
     (let digit = c_rem acc base;
          ch = of_int (if digit < 0xA then 0x30 + digit else 0x41 + digit - 0xA);
          m' = m(str + of_int i := ch);
          acc' = c_div acc base
      in if acc' \<noteq> 0 \<and> i + 1 < len - 1 then itoa_loop base len str acc' (i + 1) m' else (acc', i + 1, m'))"
  by pat_completeness auto
termination by (relation "measure (\<lambda>(_, len, _, _, i, _). nat (len - i))") auto

declare itoa_loop.simps [simp del]

definition itoa :: "int \<Rightarrow> u64 \<Rightarrow> int \<Rightarrow> int \<Rightarrow> mem \<Rightarrow> (int \<times> mem) option" where
  "itoa num str len base m =
     (if len = 0 then Some (-1, m)
      else case itoa_loop base len str num 0 m of
        (acc, i, m1) \<Rightarrow>
          if i = len - 1 \<and> acc \<noteq> 0 then Some (-1, m1)
          else do {
            m2 \<leftarrow> strrev str (m1(str + of_int i := 0));
            Some (0, m2)
          })"

section \<open>Random numbers\<close>

definition srand :: "u32 \<Rightarrow> u32" where "srand seed = seed"

text \<open>The state \<open>x\<close> is an \<open>int\<close> that is extended to 64 bits with its sign.\<close>

definition rand :: "u32 \<Rightarrow> u32 \<times> u32" where
  "rand x =
     (let tmp = 0x5deece66d * (scast x :: u64) + 0xb;
          x' = ucast (tmp AND 0x7fffffff)
      in (x', x'))"

section \<open>Writing and reading back\<close>

lemma skip_blanks_ends:
  assumes "skip_blanks m str = Some u"
  shows "\<not> isspace (m str)"
  by (rule skip_blanks.raw_induct [OF _ assms]) (simp split: if_splits)

lemma skip_blanks_None: "isspace (m str) \<Longrightarrow> skip_blanks m str = None"
  using skip_blanks_ends [of m str "()"] by (cases "skip_blanks m str") simp_all

lemma skip_blanks_Some: "\<not> isspace (m str) \<Longrightarrow> skip_blanks m str = Some ()"
  by (rule trans [OF skip_blanks.simps if_not_P])

text \<open>The decimal digits of a number, the last one first, and the value of a digit string.\<close>

fun digs :: "nat \<Rightarrow> u8 list" where
  "digs n = (if n < 10 then [of_nat (0x30 + n)] else of_nat (0x30 + n mod 10) # digs (n div 10))"

declare digs.simps [simp del]

definition dec_value :: "u64 \<Rightarrow> u8 list \<Rightarrow> u64" where
  "dec_value = foldl (\<lambda>r d. r * 10 + (ucast d - 0x30))"

lemma digit_char:
  assumes "k < 10"
  shows "isdigit (of_nat (0x30 + k))" "(ucast (of_nat (0x30 + k) :: u8) :: u64) - 0x30 = of_nat k"
    "(of_nat (0x30 + k) :: u8) \<noteq> 0"
proof -
  have "k \<in> {0, 1, 2, 3, 4, 5, 6, 7, 8, 9}" using assms by auto
  then show "isdigit (of_nat (0x30 + k))" "(ucast (of_nat (0x30 + k) :: u8) :: u64) - 0x30 = of_nat k"
    "(of_nat (0x30 + k) :: u8) \<noteq> 0"
    by (auto simp: isdigit_def)
qed

lemma digs_digits: "c \<in> set (digs n) \<Longrightarrow> isdigit c"
  by (induction n rule: digs.induct, subst (asm) (2) digs.simps) (auto simp: digit_char(1) [simplified] split: if_splits)

lemma isdigit_facts: "isdigit c \<Longrightarrow> c \<noteq> 0 \<and> \<not> isspace c \<and> c \<noteq> 0x78 \<and> c \<noteq> 0x58"
  unfolding isdigit_def isspace_def by auto

lemma dec_value_digs: "dec_value 0 (rev (digs n)) = of_nat n"
proof (induction n rule: digs.induct)
  case (1 n)
  show ?case
  proof (cases "n < 10")
    case True
    then show ?thesis using digit_char(2) [OF True] by (subst digs.simps) (simp add: dec_value_def)
  next
    case False
    have "of_nat (n div 10) * 10 + of_nat (n mod 10) = (of_nat n :: u64)"
      by (metis div_mult_mod_eq of_nat_add of_nat_mult of_nat_numeral)
    moreover have "(ucast (of_nat (0x30 + n mod 10) :: u8) :: u64) - 0x30 = of_nat (n mod 10)"
      by (rule digit_char(2)) simp
    ultimately show ?thesis using False 1 by (subst digs.simps) (simp add: dec_value_def)
  qed
qed

lemma digs_length: "n < 10 ^ k \<Longrightarrow> 0 < k \<Longrightarrow> length (digs n) \<le> k"
proof (induction k arbitrary: n)
  case (Suc k)
  show ?case
  proof (cases "n < 10")
    case False
    then have "n div 10 < 10 ^ k" "0 < k" using Suc.prems by (auto intro!: gr0I)
    then show ?thesis using False Suc.IH [of "n div 10"] by (subst digs.simps) simp
  qed (subst digs.simps, simp)
qed simp

lemma digs_not_Nil [simp]: "digs n \<noteq> []"
  by (subst digs.simps) simp

lemma itoa_loop_digs:
  assumes "0 \<le> i" "i + int (length (digs n)) \<le> len - 1" "len < 2 ^ 31"
  shows "itoa_loop 10 len str (int n) i m = (0, i + int (length (digs n)), store (str + of_int i) (digs n) m)"
  using assms
proof (induction n arbitrary: i m rule: digs.induct)
  case (1 n)
  have d: "of_int (48 + int k) = (of_nat (0x30 + k) :: u8)" for k by simp
  show ?case
  proof (cases "n < 10")
    case True
    then have dn: "digs n = [of_nat (0x30 + n)]" by (subst digs.simps) simp
    have "store (str + of_int i) [of_nat (0x30 + n)] m = m(str + of_int i := of_nat (0x30 + n))"
      using store_Cons [of "[]" "str + of_int i" m "of_nat (0x30 + n)"] by simp
    then show ?thesis using True d [of n] by (subst itoa_loop.simps) (simp add: Let_def dn)
  next
    case False
    let ?c = "of_nat (0x30 + n mod 10) :: u8"
    have dn: "digs n = ?c # digs (n div 10)" using False by (subst digs.simps) simp
    have "length (digs (n div 10)) \<ge> 1" by (simp add: Suc_le_eq)
    moreover have "length (digs n) = Suc (length (digs (n div 10)))" by (simp add: dn)
    ultimately have g: "i + 1 < len - 1" using 1(3) by linarith
    have "int n div 10 \<noteq> 0" using False by auto
    then have "itoa_loop 10 len str (int n) i m = itoa_loop 10 len str (int (n div 10)) (i + 1) (m(str + of_int i := ?c))"
      using False g d [of "n mod 10"]
      by (subst itoa_loop.simps) (simp add: Let_def zdiv_int zmod_int del: fun_upd_apply)
    also have "\<dots> = (0, i + 1 + int (length (digs (n div 10))),
        store (str + of_int (i + 1)) (digs (n div 10)) (m(str + of_int i := ?c)))"
      by (rule 1(1) [OF False]) (use 1(2-) dn in simp_all)
    also have "store (str + of_int (i + 1)) (digs (n div 10)) (m(str + of_int i := ?c)) = store (str + of_int i) (digs n) m"
      unfolding dn using store_Cons [of "digs (n div 10)" "str + of_int i" m ?c] 1(2-) dn
      by (simp add: add.assoc del: fun_upd_apply)
    finally show ?thesis by (simp add: dn)
  qed
qed

lemma atol_loop_digits:
  assumes "cstr m p ds" "\<And>c. c \<in> set ds \<Longrightarrow> isdigit c"
  shows "atol_loop m 10 p r neg = Some (if neg then - dec_value r ds else dec_value r ds)"
  using assms
proof (induction ds arbitrary: p r)
  case Nil
  then show ?case by (subst atol_loop.simps) (simp add: cstr_Nil dec_value_def)
next
  case (Cons c ds)
  then have "m p = c" "c \<noteq> 0" "isdigit c" "cstr m (p + 1) ds" by (auto simp: cstr_Cons)
  with Cons.IH [of "p + 1" "r * 10 + (ucast c - 0x30)"] Cons.prems(2) show ?case
    by (subst atol_loop.simps) (simp add: Let_def dec_value_def)
qed

lemma atol_digits:
  assumes c: "cstr m p ds" and d: "\<And>c. c \<in> set ds \<Longrightarrow> isdigit c" and ds: "ds \<noteq> []" and p: "p \<noteq> 0"
  shows "atol m p = Some (dec_value 0 ds)"
proof -
  obtain a as where as: "ds = a # as" using ds by (cases ds) auto
  have a: "m p = a" "isdigit a" "cstr m (p + 1) as" using c d as by (auto simp: cstr_Cons)
  have "m (p + 1) \<noteq> 0x78 \<and> m (p + 1) \<noteq> 0x58"
  proof (cases as)
    case Nil
    then show ?thesis using a(3) by (simp add: cstr_Nil)
  next
    case (Cons b bs)
    then show ?thesis using a(3) d [of b] isdigit_facts [of b] as by (auto simp: cstr_Cons)
  qed
  moreover have "a \<noteq> 0x2b" "a \<noteq> 0x2d" using a(2) unfolding isdigit_def by auto
  ultimately show ?thesis
    using a(1,2) p isdigit_facts [OF a(2)] atol_loop_digits [OF c d]
    by (simp add: atol_def skip_blanks_Some Let_def)
qed

lemma itoa_writes:
  assumes n: "0 \<le> num" "num < 2 ^ 31" and l: "10 < len" "len < 2 ^ 31"
  shows "itoa num str len 10 m = Some (0, store str (rev (digs (nat num))) (store str (digs (nat num) @ [0]) m))"
    "cstr (store str (rev (digs (nat num))) (store str (digs (nat num) @ [0]) m)) str (rev (digs (nat num)))"
proof -
  let ?d = "digs (nat num)"
  have "nat num < 10 ^ 10" using n by simp
  then have k: "length ?d \<le> 10" by (rule digs_length) simp
  have z: "0 \<notin> set ?d" using digs_digits isdigit_facts by blast
  have loop: "itoa_loop 10 len str num 0 m = (0, int (length ?d), store str ?d m)"
    using itoa_loop_digs [of 0 "nat num" len str m] n l k by simp
  have s0: "store str (?d @ [0]) m = (store str ?d m)(str + of_nat (length ?d) := 0)"
    using store_append [of ?d "[0]" str m] store_Cons [of "[]" "str + of_nat (length ?d)" "store str ?d m" 0] k
    by (simp del: fun_upd_apply)
  have c: "cstr (store str (?d @ [0]) m) str ?d" using z k by (intro cstr_store) simp_all
  show "itoa num str len 10 m = Some (0, store str (rev ?d) (store str (?d @ [0]) m))"
    using loop strrev_cstr [OF c] l k by (simp add: itoa_def s0 [symmetric] del: fun_upd_apply)
  have "store str (rev ?d) (store str (?d @ [0]) m) = store str (rev ?d @ [0]) m"
    by (rule ext) (auto simp: store_def nth_append)
  then show "cstr (store str (rev ?d) (store str (?d @ [0]) m)) str (rev ?d)"
    using cstr_store [of "rev ?d" str m] z k by simp
qed



text \<open>
  C35. \<open>atol\<close> does not end on a string that starts with a blank: the loop that should skip the
  blanks never moves on.
\<close>

theorem atol_blank_diverges:
  assumes "str \<noteq> 0" "isspace (m str)"
  shows "atol m str = None \<and> atoi m str = None"
  using assms by (simp add: atol_def atoi_def skip_blanks_None)

theorem atol_blank_diverges_witness: "atol (\<lambda>_. 0x20) 0x1000 = None"
  using atol_blank_diverges [of "0x1000" "\<lambda>_. 0x20"] by (simp add: isspace_def)

end
