(* ===== verification/Printf.thy ===== *)
theory Printf
  imports Tiny_Libc
begin

text \<open>
  The two versions of the minimal \<open>snprintf\<close>: \<open>libs/printk.c\<close> (kernel) and
  \<open>tiny_libc/printf.c\<close> (user programs).

  \<^item> A format is the list of its bytes without the terminating zero; reading at the end gives zero.
  \<^item> The variable arguments are a stream of 64-bit registers; \<open>va_arg\<close> takes the next one. A
    string argument is an address in a memory.
  \<^item> Of the struct \<open>mini_buff\<close> the model keeps the bytes between \<open>buffer\<close> and \<open>pbuffer\<close> and the
    length of the buffer; behind them there is always a zero.
  \<^item> The digits are built back to front and then reversed in place; the model reverses the list.
    The array \<open>bf\<close> has 24 bytes: a conversion that would write past it is \<open>None\<close>.
\<close>

type_synonym va_list = "nat \<Rightarrow> u64"

definition va_arg :: "va_list \<Rightarrow> u64 \<times> va_list" where
  "va_arg va = (va 0, \<lambda>i. va (Suc i))"

section \<open>Output buffers\<close>

record mini_buff =
  out :: "u8 list"
  buffer_len :: u32

definition full :: "mini_buff \<Rightarrow> bool" where
  "full b \<longleftrightarrow> length (out b) + 1 \<ge> unat (buffer_len b)"

definition mini_putc :: "u8 \<Rightarrow> mini_buff \<Rightarrow> mini_buff" where
  "mini_putc ch b = (if full b then b else b\<lparr>out := out b @ [ch]\<rparr>)"

definition clip :: "u32 \<Rightarrow> mini_buff \<Rightarrow> nat" where
  "clip len b =
     (let rest = int (unat (buffer_len b)) - int (length (out b)) - 1
      in if rest < int (unat len) then unat (of_int rest :: u32) else unat len)"

text \<open>\<open>_puts\<close> of \<open>printk.c\<close>: with no string (\<open>None\<close>) it writes blanks.\<close>

definition mini_puts :: "u8 list option \<Rightarrow> u32 \<Rightarrow> mini_buff \<Rightarrow> mini_buff" where
  "mini_puts s len b =
     b\<lparr>out := out b @ (case s of None \<Rightarrow> replicate (clip len b) 0x20 | Some cs \<Rightarrow> take (clip len b) cs)\<rparr>"

definition u_puts :: "u8 list \<Rightarrow> u32 \<Rightarrow> mini_buff \<Rightarrow> mini_buff" where
  "u_puts s len b = b\<lparr>out := out b @ take (clip len b) s\<rparr>"

section \<open>Digits\<close>

definition digit_chr :: "bool \<Rightarrow> int \<Rightarrow> u8" where
  "digit_chr uppercase digit =
     of_int (if digit < 10 then 0x30 + digit else (if uppercase then 0x41 else 0x61) + digit - 10)"

partial_function (option) itoa_digits :: "u64 \<Rightarrow> bool \<Rightarrow> bool \<Rightarrow> u64 \<Rightarrow> u8 list \<Rightarrow> u8 list option" where
  "itoa_digits radix uppercase unsig value buffer =
     (let digit = (if unsig then uint (value mod radix) else c_rem (sint value) (uint radix));
          buffer' = buffer @ [digit_chr uppercase digit];
          value' = (if unsig then value div radix else of_int (c_div (sint value) (uint radix)))
      in if value' \<noteq> 0 then itoa_digits radix uppercase unsig value' buffer' else Some buffer')"

definition mini_itoa :: "u64 \<Rightarrow> u64 \<Rightarrow> bool \<Rightarrow> bool \<Rightarrow> u32 \<Rightarrow> u8 \<Rightarrow> u8 list option" where
  "mini_itoa value radix uppercase unsig n_pad cpad =
     (if radix > 16 then Some []
      else do {
        let negative = (sint value < 0 \<and> \<not> unsig);
        ds \<leftarrow> itoa_digits radix uppercase unsig (if negative then - value else value) [];
        let ds' = ds @ replicate (unat n_pad - length ds) cpad;
        Some (rev (ds' @ (if negative then [0x2d] else [])))
      })"

text \<open>In \<open>printf.c\<close> the digits are always those of the signed value, and the loop ends below zero.\<close>

partial_function (option) u_itoa_digits :: "u64 \<Rightarrow> bool \<Rightarrow> u64 \<Rightarrow> u8 list \<Rightarrow> u8 list option" where
  "u_itoa_digits radix uppercase value buffer =
     (let digit = c_rem (sint value) (uint radix);
          buffer' = buffer @ [digit_chr uppercase digit];
          value' = of_int (c_div (sint value) (uint radix))
      in if sint value' > 0 then u_itoa_digits radix uppercase value' buffer' else Some buffer')"

definition u_mini_itoa :: "u64 \<Rightarrow> u64 \<Rightarrow> bool \<Rightarrow> bool \<Rightarrow> u8 \<Rightarrow> u8 list option" where
  "u_mini_itoa value radix uppercase unsig zero_pad =
     (if radix > 16 then Some []
      else do {
        let negative = (sint value < 0 \<and> \<not> unsig);
        ds \<leftarrow> u_itoa_digits radix uppercase (if negative then - value else value) [];
        let ds' = ds @ replicate (unat zero_pad - length ds) 0x30;
        Some (rev (ds' @ (if negative then [0x2d] else [])))
      })"

section \<open>Directives\<close>

record 'p directive =
  n_pad :: 'p
  c_pad :: u8
  longflag :: bool
  conv :: u8

definition next_char :: "u8 list \<Rightarrow> u8 \<times> u8 list" where
  "next_char fmt = (case fmt of [] \<Rightarrow> (0, []) | c # cs \<Rightarrow> (c, cs))"

text \<open>The padding loop: the first character that is not a digit, the number, the rest.\<close>

fun pad_loop :: "'p::len word \<Rightarrow> u8 list \<Rightarrow> u8 \<times> 'p word \<times> u8 list" where
  "pad_loop n [] = (0, n, [])"
| "pad_loop n (c # cs) = (if 0x30 \<le> c \<and> c \<le> 0x39 then pad_loop (n * 10 + ucast c - 0x30) cs else (c, n, cs))"

definition long_part :: "'p \<Rightarrow> u8 \<Rightarrow> u8 \<Rightarrow> u8 list \<Rightarrow> 'p directive \<times> u8 list" where
  "long_part n pad ch fmt =
     (if ch = 0x6c
      then case next_char fmt of (ch', fmt') \<Rightarrow> (\<lparr>n_pad = n, c_pad = pad, longflag = True, conv = ch'\<rparr>, fmt')
      else (\<lparr>n_pad = n, c_pad = pad, longflag = False, conv = ch\<rparr>, fmt))"

definition k_directive :: "u8 list \<Rightarrow> u32 directive \<times> u8 list" where
  "k_directive fmt =
     (case next_char fmt of (ch, fmt1) \<Rightarrow>
        if 0x30 \<le> ch \<and> ch \<le> 0x39
        then case pad_loop 0 fmt of (ch', n, fmt2) \<Rightarrow> long_part n (if ch = 0x30 then 0x30 else 0x20) ch' fmt2
        else long_part 0 0x20 ch fmt1)"

definition u_directive :: "u8 list \<Rightarrow> u8 directive \<times> u8 list" where
  "u_directive fmt =
     (case next_char fmt of (ch, fmt1) \<Rightarrow>
        if ch = 0x30
        then case pad_loop 0 fmt1 of (ch', n, fmt2) \<Rightarrow> long_part n 0x30 ch' fmt2
        else long_part 0 0x30 ch fmt1)"

text \<open>The argument of a number conversion, widened to \<open>long\<close>.\<close>

definition num_arg :: "'p directive \<Rightarrow> u64 \<Rightarrow> u64" where
  "num_arg d x =
     (if longflag d then x
      else if conv d = 0x64 then scast (ucast x :: u32) else ucast (ucast x :: u32))"

definition k_convert ::
  "mem \<Rightarrow> u32 directive \<Rightarrow> va_list \<Rightarrow> mini_buff \<Rightarrow> (va_list \<times> mini_buff) option" where
  "k_convert m d va b =
     (let ch = conv d; (x, va') = va_arg va in
      if ch = 0x6c then Some (va, b)
      else if ch = 0x75 \<or> ch = 0x64 \<or> ch = 0x78 \<or> ch = 0x58 then do {
        bf \<leftarrow> mini_itoa (num_arg d x) (if ch = 0x75 \<or> ch = 0x64 then 10 else 16) (ch = 0x58)
                (ch \<noteq> 0x64) (n_pad d) (c_pad d);
        asserts (length bf < 24);
        Some (va', mini_puts (Some bf) (of_nat (length bf)) b)
      }
      else if ch = 0x63 then Some (va', mini_putc (ucast x) b)
      else if ch = 0x73 then do {
        n \<leftarrow> strlen m x;
        let len = (of_nat n :: u32);
        let b1 = mini_puts (Some (bytes m x (unat len))) len b;
        Some (va', if len < n_pad d then mini_puts None (n_pad d - len) b1 else b1)
      }
      else Some (va, mini_putc ch b))"

definition u_convert ::
  "mem \<Rightarrow> u8 directive \<Rightarrow> va_list \<Rightarrow> mini_buff \<Rightarrow> (va_list \<times> mini_buff) option" where
  "u_convert m d va b =
     (let ch = conv d; (x, va') = va_arg va in
      if ch = 0x6c then Some (va, b)
      else if ch = 0x75 \<or> ch = 0x64 \<or> ch = 0x78 \<or> ch = 0x58 then do {
        bf \<leftarrow> u_mini_itoa (num_arg d x) (if ch = 0x75 \<or> ch = 0x64 then 10 else 16) (ch = 0x58)
                (ch \<noteq> 0x64) (n_pad d);
        asserts (length bf < 24);
        Some (va', u_puts bf (of_nat (length bf)) b)
      }
      else if ch = 0x63 then Some (va', mini_putc (ucast x) b)
      else if ch = 0x73 then do {
        n \<leftarrow> strlen m x;
        let len = (of_nat n :: u32);
        Some (va', u_puts (bytes m x (unat len)) len b)
      }
      else Some (va, mini_putc ch b))"

section \<open>The formatting loop\<close>

text \<open>Both files have the same loop around their directives and conversions.\<close>

partial_function (option) format_loop ::
  "(u8 list \<Rightarrow> 'p directive \<times> u8 list) \<Rightarrow> ('p directive \<Rightarrow> va_list \<Rightarrow> mini_buff \<Rightarrow> (va_list \<times> mini_buff) option) \<Rightarrow>
   u8 list \<Rightarrow> va_list \<Rightarrow> mini_buff \<Rightarrow> mini_buff option" where
  "format_loop directive convert fmt va b =
     (case fmt of
        [] \<Rightarrow> Some b
      | ch # fmt1 \<Rightarrow>
          if full b then Some b
          else if ch \<noteq> 0x25 then format_loop directive convert fmt1 va (mini_putc ch b)
          else case directive fmt1 of (d, fmt2) \<Rightarrow>
            if conv d = 0 then Some b
            else do { (va', b') \<leftarrow> convert d va b; format_loop directive convert fmt2 va' b' })"

definition mini_vsnprintf :: "mem \<Rightarrow> u32 \<Rightarrow> u8 list \<Rightarrow> va_list \<Rightarrow> u8 list option" where
  "mini_vsnprintf m len fmt va =
     map_option out (format_loop k_directive (k_convert m) fmt va \<lparr>out = [], buffer_len = len\<rparr>)"

definition u_mini_vsnprintf :: "mem \<Rightarrow> u32 \<Rightarrow> u8 list \<Rightarrow> va_list \<Rightarrow> u8 list option" where
  "u_mini_vsnprintf m len fmt va =
     map_option out (format_loop u_directive (u_convert m) fmt va \<lparr>out = [], buffer_len = len\<rparr>)"

text \<open>The printing functions format into 256 bytes and hand the text to their output.\<close>

definition k_vprint :: "mem \<Rightarrow> u8 list \<Rightarrow> va_list \<Rightarrow> (u8 list \<Rightarrow> 'o \<Rightarrow> 'o) \<Rightarrow> 'o \<Rightarrow> (nat \<times> 'o) option" where
  "k_vprint m fmt va output scr = do {
     buff \<leftarrow> mini_vsnprintf m 256 fmt va;
     Some (length buff, output buff scr)
   }"

definition u_vprintf :: "mem \<Rightarrow> u8 list \<Rightarrow> va_list \<Rightarrow> (u8 list \<Rightarrow> 'o \<Rightarrow> 'o) \<Rightarrow> 'o \<Rightarrow> (nat \<times> 'o) option" where
  "u_vprintf m fmt va screen_write scr = do {
     buff \<leftarrow> u_mini_vsnprintf m 256 fmt va;
     Some (length buff, screen_write buff scr)
   }"

section \<open>The output stays inside the buffer\<close>

text \<open>
  What the loop needs of a directive parser and a conversion: parsing consumes the format; a
  conversion that starts with room left in the buffer does not fill it beyond its last byte but
  one, and it succeeds for the directives in \<open>ok\<close>.
\<close>

definition roomy :: "u32 \<Rightarrow> mini_buff \<Rightarrow> bool" where
  "roomy len b \<longleftrightarrow> buffer_len b = len \<and> (length (out b) < unat len \<or> out b = [])"

text \<open>Wherever the loop can find a directive in the format, it is in \<open>ok\<close>.\<close>

definition good_format :: "(u8 list \<Rightarrow> 'p directive \<times> u8 list) \<Rightarrow> ('p directive \<Rightarrow> bool) \<Rightarrow> u8 list \<Rightarrow> bool" where
  "good_format directive ok fmt \<longleftrightarrow> (\<forall>k. ok (fst (directive (drop k fmt))))"

lemma good_format_drop: "good_format directive ok fmt \<Longrightarrow> good_format directive ok (drop k fmt)"
  by (simp add: good_format_def)

lemma putc_room: "roomy len b \<Longrightarrow> roomy len (mini_putc c b)"
  by (auto simp: roomy_def mini_putc_def full_def)

locale format_engine =
  fixes directive :: "u8 list \<Rightarrow> 'p directive \<times> u8 list"
    and convert :: "'p directive \<Rightarrow> va_list \<Rightarrow> mini_buff \<Rightarrow> (va_list \<times> mini_buff) option"
    and ok :: "'p directive \<Rightarrow> bool"
  assumes consumes: "directive fmt = (d, fmt') \<Longrightarrow> \<exists>k. fmt' = drop k fmt"
    and keeps_room: "roomy len b \<Longrightarrow> \<not> full b \<Longrightarrow> convert d va b = Some (va', b') \<Longrightarrow> roomy len b'"
    and converts: "roomy len b \<Longrightarrow> \<not> full b \<Longrightarrow> ok d \<Longrightarrow> convert d va b \<noteq> None"
begin

lemma loop_ends_in_room:
  assumes "roomy len b"
  shows "format_loop directive convert fmt va b = Some b' \<Longrightarrow> roomy len b'"
    and "good_format directive ok fmt \<Longrightarrow> format_loop directive convert fmt va b \<noteq> None"
proof -
  have "(format_loop directive convert fmt va b = Some b' \<longrightarrow> roomy len b') \<and>
        (good_format directive ok fmt \<longrightarrow> format_loop directive convert fmt va b \<noteq> None)"
    using assms
  proof (induction "length fmt" arbitrary: fmt va b rule: less_induct)
    case less
    show ?case
    proof (cases fmt)
      case Nil
      then show ?thesis using less.prems by (subst (1 2) format_loop.simps) auto
    next
      case (Cons ch fmt1)
      obtain d fmt2 where d: "directive fmt1 = (d, fmt2)" by fastforce
      obtain k where k: "fmt2 = drop k fmt1" using consumes [OF d] by blast
      have g: "ok d" "good_format directive ok fmt1" "good_format directive ok fmt2" if "good_format directive ok fmt"
        using that good_format_drop [OF that, of 1] good_format_drop [OF that, of "Suc k"] d Cons k
        by (auto simp: good_format_def dest: spec [of _ 1])
      consider (stop) "full b \<or> ch = 0x25 \<and> conv d = 0" | (plain) "\<not> full b" "ch \<noteq> 0x25"
        | (conv) "\<not> full b" "ch = 0x25" "conv d \<noteq> 0" by blast
      then show ?thesis
      proof cases
        case stop
        then have "format_loop directive convert fmt va b = Some b"
          using Cons d by (subst format_loop.simps) auto
        then show ?thesis using less.prems by auto
      next
        case plain
        then have "format_loop directive convert fmt va b = format_loop directive convert fmt1 va (mini_putc ch b)"
          using Cons by (subst format_loop.simps) simp
        then show ?thesis using less.hyps [of fmt1 "mini_putc ch b" va] putc_room [OF less.prems] Cons g(2) by auto
      next
        case conv
        then have e: "format_loop directive convert fmt va b =
            convert d va b \<bind> (\<lambda>(va', b'). format_loop directive convert fmt2 va' b')"
          using Cons d by (subst format_loop.simps) simp
        show ?thesis
        proof (cases "convert d va b")
          case None
          then show ?thesis using e converts [OF less.prems conv(1), of d va] g(1) by auto
        next
          case (Some r)
          then obtain va' b'' where r: "convert d va b = Some (va', b'')" by (cases r) auto
          have "length fmt2 < length fmt" using k Cons by simp
          then show ?thesis using less.hyps [of fmt2 b'' va'] keeps_room [OF less.prems conv(1) r] e r g(3) by auto
        qed
      qed
    qed
  qed
  then show "format_loop directive convert fmt va b = Some b' \<Longrightarrow> roomy len b'"
    and "good_format directive ok fmt \<Longrightarrow> format_loop directive convert fmt va b \<noteq> None" by auto
qed

end

subsection \<open>Both files fit the loop\<close>

lemma pad_loop_drop: "pad_loop n fmt = (c, n', fmt') \<Longrightarrow> \<exists>k. fmt' = drop k fmt"
proof (induction n fmt rule: pad_loop.induct)
  case (2 n c' cs)
  then show ?case by (auto split: if_splits intro: exI [of _ 1] exI [of _ "Suc _"])
qed simp

lemma next_char_drop: "next_char fmt = (c, fmt') \<Longrightarrow> \<exists>k. fmt' = drop k fmt"
  by (cases fmt) (auto simp: next_char_def intro: exI [of _ 1])

lemma long_part_drop: "long_part n p c fmt = (d, fmt') \<Longrightarrow> \<exists>k. fmt' = drop k fmt"
  using next_char_drop [of fmt] by (auto simp: long_part_def split: prod.splits if_splits intro: exI [of _ 0])

lemma drop_trans: "\<exists>k. b = drop k a \<Longrightarrow> \<exists>k. c = drop k b \<Longrightarrow> \<exists>k. c = drop k a"
  by (metis drop_drop)

lemma directives_consume:
  "k_directive fmt = (d, fmt') \<Longrightarrow> \<exists>k. fmt' = drop k fmt"
  "u_directive fmt = (d', fmt') \<Longrightarrow> \<exists>k. fmt' = drop k fmt"
  unfolding k_directive_def u_directive_def
  by (auto split: prod.splits if_splits dest!: long_part_drop pad_loop_drop next_char_drop
      intro: drop_trans drop_drop [symmetric] simp: ac_simps)

lemma clip_bound:
  assumes "roomy len b" "\<not> full b"
  shows "length (out b) + clip n b < unat len"
proof -
  define N where "N = unat len"
  let ?r = "int N - int (length (out b)) - 1"
  have "length (out b) + 1 < N" using assms by (auto simp: full_def roomy_def N_def)
  then have r: "0 \<le> ?r" by linarith
  have "N < 2 ^ 32" using unsigned_less [of len, where 'a = nat] by (simp add: N_def)
  then have "unat (of_int ?r :: u32) = nat ?r" using r by (intro unat_of_int_lt) simp_all
  then have "clip n b = (if ?r < int (unat n) then nat ?r else unat n)"
    using assms(1) unfolding clip_def Let_def roomy_def N_def by simp
  then have "int (clip n b) \<le> ?r" using r by (cases "?r < int (unat n)") (simp_all only: if_True if_False nat_0_le not_less)
  then have "length (out b) + clip n b < N" by linarith
  then show ?thesis by (simp add: N_def)
qed

lemma puts_room:
  assumes "roomy len b" "\<not> full b"
  shows "roomy len (mini_puts s n b)" "roomy len (u_puts cs n b)"
  using clip_bound [OF assms, of n] assms(1)
  by (auto simp: roomy_def mini_puts_def u_puts_def split: option.splits)

text \<open>Padding a string that just filled the buffer writes nothing more.\<close>

lemma puts_full:
  assumes "roomy len b" "full b" "0 < unat len"
  shows "roomy len (mini_puts s n b)"
proof -
  have l: "length (out b) + 1 = unat len \<or> out b = []" "buffer_len b = len" using assms by (auto simp: roomy_def full_def)
  show ?thesis
  proof (cases "length (out b) + 1 = unat len")
    case True
    then have "int (unat len) - int (length (out b)) - 1 = 0" by linarith
    then have "clip n b = (if (0 :: int) < int (unat n) then unat (of_int 0 :: u32) else unat n)"
      unfolding clip_def Let_def l(2) by (simp only:)
    moreover have "unat n = 0 \<or> 0 < int (unat n)" by linarith
    ultimately have "clip n b = 0" by (metis of_int_0 unsigned_0)
    then show ?thesis using assms(1) by (simp add: mini_puts_def roomy_def split: option.splits)
  next
    case False
    then show ?thesis using l assms by (simp add: full_def)
  qed
qed

text \<open>Number conversions end and give at most 20 digits.\<close>

fun radix_digits :: "bool \<Rightarrow> nat \<Rightarrow> nat \<Rightarrow> u8 list" where
  "radix_digits up r n =
     (if n < r \<or> r < 2 then [digit_chr up (int n)]
      else digit_chr up (int (n mod r)) # radix_digits up r (n div r))"

declare radix_digits.simps [simp del]

lemma radix_digits_length: "n < r ^ k \<Longrightarrow> 0 < k \<Longrightarrow> length (radix_digits up r n) \<le> k"
proof (induction k arbitrary: n)
  case (Suc k)
  show ?case
  proof (cases "n < r \<or> r < 2")
    case False
    then have "n div r < r ^ k" "0 < k" using Suc.prems
      by (auto simp: less_mult_imp_div_less mult.commute intro!: gr0I)
    then show ?thesis using False Suc.IH [of "n div r"] by (subst radix_digits.simps) simp
  qed (subst radix_digits.simps, simp)
qed simp

lemma itoa_digits_unsigned:
  assumes "2 \<le> radix"
  shows "itoa_digits radix up True v acc = Some (acc @ radix_digits up (unat radix) (unat v))"
  using assms
proof (induction "unat v" arbitrary: v acc rule: less_induct)
  case less
  have r: "2 \<le> unat radix" using less.prems by (simp add: word_le_nat_alt)
  have d: "unat (v div radix) = unat v div unat radix" "uint (v mod radix) = int (unat v mod unat radix)"
    by (simp_all add: unat_div uint_mod zmod_int)
  show ?case
  proof (cases "unat v < unat radix")
    case True
    then have "v div radix = 0" using d(1) by (metis div_less unat_eq_zero)
    with True d r show ?thesis by (subst itoa_digits.simps, subst radix_digits.simps) (simp add: Let_def)
  next
    case False
    then have nz: "unat v div unat radix \<noteq> 0" using r by (simp add: div_eq_0_iff)
    then have "v div radix \<noteq> 0" using d(1) by (metis unat_0)
    moreover have "0 < unat v" using nz by (metis div_0 gr0I)
    then have "unat (v div radix) < unat v" using d(1) r by (simp add: div_less_dividend)
    ultimately show ?thesis
      using False d r less.hyps [of "v div radix"] less.prems
      by (subst itoa_digits.simps, subst radix_digits.simps) (simp add: Let_def)
  qed
qed

text \<open>Digits of a signed value: of a negative one they are negative, too.\<close>

function sradix_digits :: "bool \<Rightarrow> int \<Rightarrow> int \<Rightarrow> u8 list" where
  "sradix_digits up r x =
     (if \<bar>x\<bar> < r \<or> r < 2 then [digit_chr up x]
      else digit_chr up (c_rem x r) # sradix_digits up r (c_div x r))"
  by pat_completeness auto
termination
proof (relation "measure (\<lambda>(_, _, x). nat \<bar>x\<bar>)")
  fix r x :: int
  assume "\<not> (\<bar>x\<bar> < r \<or> r < 2)"
  then have "\<bar>x\<bar> div r < \<bar>x\<bar>" "0 < \<bar>x\<bar>" by (auto intro: int_div_less_self)
  then show "((up, r, c_div x r), up, r, x) \<in> measure (\<lambda>(_, _, x). nat \<bar>x\<bar>)" for up :: bool
    using \<open>\<not> (\<bar>x\<bar> < r \<or> r < 2)\<close> by (simp add: abs_c_div)
qed simp

declare sradix_digits.simps [simp del]

lemma sradix_digits_length: "\<bar>x\<bar> < r ^ k \<Longrightarrow> 0 < k \<Longrightarrow> length (sradix_digits up r x) \<le> k"
proof (induction k arbitrary: x)
  case (Suc k)
  show ?case
  proof (cases "\<bar>x\<bar> < r \<or> r < 2")
    case False
    then have "\<bar>x\<bar> div r < r ^ k" "0 < k" using Suc.prems
      by (auto intro!: int_div_less gr0I)
    then show ?thesis using False Suc.IH [of "c_div x r"] by (subst sradix_digits.simps) (simp add: abs_c_div)
  qed (subst sradix_digits.simps, simp)
qed simp

lemma sint_of_int_range: "- (2 ^ 63) \<le> x \<Longrightarrow> x < 2 ^ 63 \<Longrightarrow> sint (of_int x :: u64) = x"
  by (simp add: int_word_sint)

lemma sint_u64: "- (2 ^ 63) \<le> sint (v :: u64)" "sint (v :: u64) < 2 ^ 63"
  using sint_greater_eq [of v] sint_less [of v] by simp_all

lemma itoa_digits_signed:
  assumes r: "2 \<le> uint radix"
  shows "itoa_digits radix up False v acc = Some (acc @ sradix_digits up (uint radix) (sint v))"
proof (induction "nat \<bar>sint v\<bar>" arbitrary: v acc rule: less_induct)
  case less
  let ?r = "uint radix" and ?q = "c_div (sint v) (uint radix)"
  have a: "\<bar>?q\<bar> = \<bar>sint v\<bar> div ?r" using r by (simp add: abs_c_div)
  have "\<bar>sint v\<bar> \<le> 2 ^ 63" using sint_u64 [of v] by linarith
  then have "\<bar>?q\<bar> < 2 ^ 63" unfolding a by (intro int_div_less) (use r in auto)
  then have s: "sint (of_int ?q :: u64) = ?q" by (intro sint_of_int_range) auto
  show ?case
  proof (cases "\<bar>sint v\<bar> < ?r")
    case True
    then have "?q = 0" "c_rem (sint v) ?r = sint v" using a r by (simp_all add: c_rem_def)
    with True r show ?thesis by (subst itoa_digits.simps, subst sradix_digits.simps) (simp add: Let_def)
  next
    case False
    then have "0 < \<bar>sint v\<bar> div ?r" using r pos_imp_zdiv_pos_iff [of ?r "\<bar>sint v\<bar>"] by simp
    then have "?q \<noteq> 0" using a by auto
    then have "(of_int ?q :: u64) \<noteq> 0" using s by auto
    moreover have "nat \<bar>sint (of_int ?q :: u64)\<bar> < nat \<bar>sint v\<bar>"
      using False r a s by (simp add: int_div_less_self)
    ultimately show ?thesis
      using False r s less.hyps [of "of_int ?q"]
      by (subst itoa_digits.simps, subst sradix_digits.simps) (simp add: Let_def)
  qed
qed

lemma u_itoa_digits_signed:
  assumes r: "2 \<le> uint radix"
  shows "u_itoa_digits radix up v acc = Some (acc @ (if 0 \<le> sint v then sradix_digits up (uint radix) (sint v)
    else [digit_chr up (c_rem (sint v) (uint radix))]))"
proof (induction "nat (sint v)" arbitrary: v acc rule: less_induct)
  case less
  let ?r = "uint radix" and ?q = "c_div (sint v) (uint radix)"
  have a: "\<bar>?q\<bar> = \<bar>sint v\<bar> div ?r" using r by (simp add: abs_c_div)
  have "\<bar>sint v\<bar> \<le> 2 ^ 63" using sint_u64 [of v] by linarith
  then have "\<bar>?q\<bar> < 2 ^ 63" unfolding a by (intro int_div_less) (use r in auto)
  then have s: "sint (of_int ?q :: u64) = ?q" by (intro sint_of_int_range) auto
  consider (neg) "sint v < 0" | (small) "0 \<le> sint v" "sint v < ?r" | (big) "?r \<le> sint v" by linarith
  then show ?case
  proof cases
    case neg
    then have "?q \<le> 0" using r by (simp add: c_div_def sgn_if mult_nonpos_nonneg pos_imp_zdiv_nonneg_iff)
    then show ?thesis using neg s by (subst u_itoa_digits.simps) (simp add: Let_def)
  next
    case small
    then have "?q = 0" "c_rem (sint v) ?r = sint v" using r by simp_all
    with small r s show ?thesis by (subst u_itoa_digits.simps, subst sradix_digits.simps) (simp add: Let_def)
  next
    case big
    then have p: "0 < sint v div ?r" "?q = sint v div ?r" using r by (simp_all add: pos_imp_zdiv_pos_iff)
    moreover have "sint v div ?r < sint v" using big r by (simp add: int_div_less_self)
    ultimately show ?thesis
      using big r s less.hyps [of "of_int ?q"]
      by (subst u_itoa_digits.simps, subst sradix_digits.simps) (simp add: Let_def)
  qed
qed

lemma uint_radix [simp]: "uint (10 :: u64) = 10" "uint (16 :: u64) = 16" "unat (10 :: u64) = 10" "unat (16 :: u64) = 16"
  by simp_all

lemma sradix_20: "r = 10 \<or> r = 16 \<Longrightarrow> length (sradix_digits up r (sint (v :: u64))) \<le> 20"
proof -
  have "\<bar>sint v\<bar> \<le> 2 ^ 63" using sint_u64 [of v] by linarith
  then have "\<bar>sint v\<bar> < 10 ^ 20" "\<bar>sint v\<bar> < 16 ^ 20" by simp_all
  then show "r = 10 \<or> r = 16 \<Longrightarrow> length (sradix_digits up r (sint v)) \<le> 20"
    by (auto intro!: sradix_digits_length)
qed

lemma radix_20: "r = 10 \<or> r = 16 \<Longrightarrow> length (radix_digits up r (unat (v :: u64))) \<le> 20"
proof -
  have "unat v < 2 ^ 64" using unsigned_less [of v, where 'a = nat] by simp
  then have "unat v < 10 ^ 20" "unat v < 16 ^ 20" by simp_all
  then show "r = 10 \<or> r = 16 \<Longrightarrow> length (radix_digits up r (unat v)) \<le> 20"
    by (auto intro!: radix_digits_length)
qed

lemma itoa_length:
  assumes r: "r = 10 \<or> r = 16"
  shows "\<exists>bf. mini_itoa v r up unsig n c = Some bf \<and> length bf \<le> max 20 (unat n) + 1"
    "\<exists>bf. u_mini_itoa v r up unsig n' = Some bf \<and> length bf \<le> max 20 (unat n') + 1"
proof -
  let ?v = "if sint v < 0 \<and> \<not> unsig then - v else v"
  have g: "\<not> 16 < r" "2 \<le> r" "2 \<le> uint r" and ri: "uint r = 10 \<or> uint r = 16" "unat r = 10 \<or> unat r = 16" using r by auto
  have l: "length (sradix_digits up (uint r) (sint ?v)) \<le> 20" "length (radix_digits up (unat r) (unat ?v)) \<le> 20"
    using sradix_20 [OF ri(1)] radix_20 [OF ri(2)] by blast+
  obtain ds where "itoa_digits r up unsig ?v [] = Some ds" "length ds \<le> 20"
    using itoa_digits_signed [OF g(3), of up ?v "[]"] itoa_digits_unsigned [OF g(2), of up ?v "[]"] l by (cases unsig) auto
  then show "\<exists>bf. mini_itoa v r up unsig n c = Some bf \<and> length bf \<le> max 20 (unat n) + 1"
    using g(1) by (auto simp: mini_itoa_def Let_def)
  obtain ds' where "u_itoa_digits r up ?v [] = Some ds'" "length ds' \<le> 20"
    using u_itoa_digits_signed [OF g(3), of up ?v "[]"] l(1) by (cases "0 \<le> sint ?v") auto
  then show "\<exists>bf. u_mini_itoa v r up unsig n' = Some bf \<and> length bf \<le> max 20 (unat n') + 1"
    using g(1) by (auto simp: u_mini_itoa_def Let_def)
qed

lemma strlen_total:
  assumes "m z = 0"
  shows "strlen m p \<noteq> None"
proof -
  have "strlen_loop m p i \<noteq> None" for i
  proof (induction "unat (z - (p + of_nat i))" arbitrary: i rule: less_induct)
    case less
    show ?case
    proof (cases "m (p + of_nat i) = 0")
      case False
      then have "z \<noteq> p + of_nat i" using assms by auto
      from unat_step [OF this] have "unat (z - (p + of_nat (i + 1))) < unat (z - (p + of_nat i))"
        by (simp add: ac_simps)
      then have "strlen_loop m p (i + 1) \<noteq> None" by (rule less.hyps)
      with False show ?thesis by (subst strlen_loop.simps) simp
    qed (subst strlen_loop.simps, simp)
  qed
  then show ?thesis by (simp add: strlen_def)
qed

text \<open>A directive is fine if its padding fits the array \<open>bf\<close> and strings end.\<close>

definition k_ok :: "mem \<Rightarrow> u32 directive \<Rightarrow> bool" where
  "k_ok m d \<longleftrightarrow> n_pad d \<le> 22 \<and> (\<exists>z. m z = 0)"

definition u_ok :: "mem \<Rightarrow> u8 directive \<Rightarrow> bool" where
  "u_ok m d \<longleftrightarrow> n_pad d \<le> 22 \<and> (\<exists>z. m z = 0)"

lemma string_room:
  assumes "roomy len b" "\<not> full b"
  shows "roomy len (mini_puts None k (mini_puts s n b))"
proof (cases "full (mini_puts s n b)")
  case True
  have "0 < unat len" using assms by (auto simp: roomy_def full_def)
  then show ?thesis using puts_full [OF puts_room(1) [OF assms] True] by blast
next
  case False
  then show ?thesis using puts_room(1) [OF puts_room(1) [OF assms] False] by blast
qed

lemma convert_keeps_room:
  assumes "roomy len b" "\<not> full b"
  shows "k_convert m d va b = Some (va', b') \<Longrightarrow> roomy len b'"
    "u_convert m d' va b = Some (va', b') \<Longrightarrow> roomy len b'"
  using assms puts_room [OF assms] putc_room [OF assms(1)] string_room [OF assms]
  by (auto simp: k_convert_def u_convert_def Let_def va_arg_def elim!: bind_SomeE split: if_splits)

lemma convert_succeeds: "k_ok m d \<Longrightarrow> k_convert m d va b \<noteq> None" "u_ok m d' \<Longrightarrow> u_convert m d' va b \<noteq> None"
proof -
  let ?r = "\<lambda>ch. if ch = (0x75 :: u8) \<or> ch = 0x64 then 10 else 16 :: u64"
  have r: "?r ch = 10 \<or> ?r ch = 16" for ch by simp
  { assume ok: "k_ok m d"
    then have "unat (n_pad d) \<le> 22" by (simp add: k_ok_def word_le_nat_alt)
    then obtain bf where "mini_itoa (num_arg d (va 0)) (?r (conv d)) (conv d = 0x58) (conv d \<noteq> 0x64) (n_pad d) (c_pad d) = Some bf"
        "length bf < 24"
      using itoa_length(1) [OF r, of "num_arg d (va 0)" "conv d" "conv d = 0x58" "conv d \<noteq> 0x64" "n_pad d" "c_pad d"] by force
    moreover obtain n where "strlen m (va 0) = Some n" using ok strlen_total by (fastforce simp: k_ok_def)
    ultimately show "k_convert m d va b \<noteq> None" by (simp add: k_convert_def Let_def va_arg_def) }
  { assume ok: "u_ok m d'"
    then have "unat (n_pad d') \<le> 22" by (simp add: u_ok_def word_le_nat_alt)
    then obtain bf where "u_mini_itoa (num_arg d' (va 0)) (?r (conv d')) (conv d' = 0x58) (conv d' \<noteq> 0x64) (n_pad d') = Some bf"
        "length bf < 24"
      using itoa_length(2) [OF r, of "num_arg d' (va 0)" "conv d'" "conv d' = 0x58" "conv d' \<noteq> 0x64" "n_pad d'"] by force
    moreover obtain n where "strlen m (va 0) = Some n" using ok strlen_total by (fastforce simp: u_ok_def)
    ultimately show "u_convert m d' va b \<noteq> None" by (simp add: u_convert_def Let_def va_arg_def) }
qed

interpretation printk_c: format_engine k_directive "k_convert m" "k_ok m" for m
  by unfold_locales (erule directives_consume convert_keeps_room convert_succeeds; assumption?)+

interpretation printf_c: format_engine u_directive "u_convert m" "u_ok m" for m
  by unfold_locales (erule directives_consume convert_keeps_room convert_succeeds; assumption?)+

lemma roomy_start: "roomy len \<lparr>out = [], buffer_len = len\<rparr>"
  by (simp add: roomy_def)



subsection \<open>Numbers\<close>

definition digit_val :: "u8 \<Rightarrow> nat" where
  "digit_val c = (if c < 0x3a then unat c - 0x30 else if c < 0x61 then unat c - 0x41 + 10 else unat c - 0x61 + 10)"

definition num_value :: "nat \<Rightarrow> u8 list \<Rightarrow> nat" where
  "num_value r s = foldl (\<lambda>n c. n * r + digit_val c) 0 s"

lemma digit_val_chr: "n < 16 \<Longrightarrow> digit_val (digit_chr up (int n)) = n"
proof -
  assume "n < 16"
  moreover have "list_all (\<lambda>k. digit_val (digit_chr up (int k)) = k) [0..<16]"
    by (cases up; simp only:; code_simp)
  ultimately show ?thesis by (simp add: list_all_iff)
qed

lemma num_value_digits: "2 \<le> r \<Longrightarrow> r \<le> 16 \<Longrightarrow> num_value r (rev (radix_digits up r n)) = n"
proof (induction up r n rule: radix_digits.induct)
  case (1 up r n)
  show ?case
  proof (cases "n < r")
    case True
    then show ?thesis using 1(2,3) digit_val_chr [of n up] by (subst radix_digits.simps) (simp add: num_value_def)
  next
    case False
    have "n mod r < r" using 1(2) by simp
    then have "n mod r < 16" using 1(3) by linarith
    then show ?thesis
      using 1 False digit_val_chr [of "n mod r" up]
      by (subst radix_digits.simps) (simp add: num_value_def)
  qed
qed

text \<open>
  C27. The kernel prints unsigned numbers correctly: for all 64-bit values, in base 10 and 16, the
  text \<open>mini_itoa\<close> gives reads back as the value.
\<close>

theorem printk_number:
  assumes "radix = 10 \<or> radix = 16"
  shows "\<exists>s. mini_itoa v radix up True 0 c = Some s \<and> num_value (unat radix) s = unat v"
proof -
  have r: "2 \<le> radix" "\<not> 16 < radix" "2 \<le> unat radix" "unat radix \<le> 16" using assms by auto
  show ?thesis
    using itoa_digits_unsigned [OF r(1), of up v "[]"] r(2) num_value_digits [OF r(3,4), of up "unat v"]
    by (simp add: mini_itoa_def Let_def)
qed

theorem printk_number_witness:
  "\<exists>s. mini_itoa 0xffffffffffffffff 16 False True 0 0x20 = Some s \<and> num_value 16 s = 0xffffffffffffffff"
  using printk_number [of 16 "0xffffffffffffffff" False "0x20"] by simp

text \<open>
  C36. The user library does not print large unsigned numbers: of a value with the top bit set,
  \<open>mini_itoa\<close> of \<open>printf.c\<close> gives one character only, which for \<open>%lx\<close> of \<open>-1\<close> is a slash.
\<close>

theorem printf_large_unsigned:
  assumes "radix = 10 \<or> radix = 16" "sint v < 0"
  shows "\<exists>c. u_mini_itoa v radix up True 0 = Some [c] \<and> (v = -1 \<longrightarrow> c = 0x2f)"
proof -
  have r: "2 \<le> uint radix" "\<not> 16 < radix" using assms by auto
  show ?thesis
    using u_itoa_digits_signed [OF r(1), of up v "[]"] r(2) assms
    by (auto simp: u_mini_itoa_def Let_def digit_chr_def c_rem_def c_div_def)
qed

theorem printf_large_unsigned_witness: "u_mini_itoa (-1) 16 False True 0 = Some [0x2f]"
  using printf_large_unsigned [of 16 "-1" False] by simp

end
