(* ===== verification/Fs_Block.thy ===== *)
theory Fs_Block
  imports Kernel_Prelude
begin

unbundle bit_operations_syntax

text \<open>
  The block layer of the file system: \<open>kernel/fs/block.c\<close> over \<open>kernel/fs/cache.c\<close>.

  The SD card is a store of 512-byte sectors, which the BIOS calls read and write in runs of eight.
  A page of the page cache (\<open>cache_pgdir\<close>) holds one block and is addressed by its first sector;
  its page table entry is empty, points to a page frame, or says that the page has been swapped
  out, which the file cache does to the block's own place on the card. \<open>blocks\<close> are the eight buffers
  of \<open>block.c\<close>; a pointer to a buffer is its index. A block is a function from byte offsets, of
  which only those below \<open>BLOCK_SIZE\<close> count. The allocation of a frame for the page cache is taken
  to find one without evicting another page; eviction is the separate operation \<open>cache_evict\<close>.

  The lemmas abstract the layer to \<open>view\<close>, what each block of the disk holds, and \<open>pins\<close>, the
  buffers in use, and show that each operation is a simple update of these two.
\<close>

section \<open>State\<close>

type_synonym block_data = "nat \<Rightarrow> u8"

definition NSECTOR_BLOCK :: nat where "NSECTOR_BLOCK = 8"

definition SECTOR_SIZE :: nat where "SECTOR_SIZE = 512"

definition BLOCK_SIZE :: nat where "BLOCK_SIZE = 4096"

definition BLOCK_CONCURRENCY :: nat where "BLOCK_CONCURRENCY = 8"

definition FS_START_SECTOR :: u32 where "FS_START_SECTOR = 0x100000"

record superblock_t =
  magic :: u32
  fs_size :: u32
  start_sector :: u32
  root_inode :: u32
  block_map_offset :: u32
  inode_offset :: u32
  datablock_offset :: u32
  inode_count :: u32
  block_count :: u32
  used_inode :: u32
  used_block :: u32

record block_t =
  b_valid :: bool
  b_num :: int
  b_refcnt :: int
  b_data :: block_data

datatype page_slot = Unmapped | Resident block_data | Swapped

datatype cache_policy = POLICY_WRITE_BACK | POLICY_WRITE_THROUGH

record disk_state =
  superblock :: superblock_t
  sd :: "u32 \<Rightarrow> nat \<Rightarrow> u8"
  policy :: cache_policy
  write_back_freq :: int
  cache_pages :: "u32 \<Rightarrow> page_slot"
  blocks :: "block_t list"

definition block_clip :: "block_data \<Rightarrow> block_data" where
  "block_clip d = (\<lambda>k. if k < BLOCK_SIZE then d k else 0)"

definition sd_read :: "(u32 \<Rightarrow> nat \<Rightarrow> u8) \<Rightarrow> u32 \<Rightarrow> block_data" where
  "sd_read dev sector = block_clip (\<lambda>k. dev (sector + of_nat (k div SECTOR_SIZE)) (k mod SECTOR_SIZE))"

definition sd_write :: "(u32 \<Rightarrow> nat \<Rightarrow> u8) \<Rightarrow> u32 \<Rightarrow> block_data \<Rightarrow> u32 \<Rightarrow> nat \<Rightarrow> u8" where
  "sd_write dev sector d = (\<lambda>t k.
     if unat (t - sector) < NSECTOR_BLOCK \<and> k < SECTOR_SIZE
     then d (unat (t - sector) * SECTOR_SIZE + k) else dev t k)"

section \<open>The page cache\<close>

definition cache_swapin :: "u32 \<Rightarrow> bool \<Rightarrow> 'a disk_state_scheme \<Rightarrow> 'a disk_state_scheme" where
  "cache_swapin sector load s =
     (case cache_pages s sector of
        Resident d \<Rightarrow> s
      | Swapped \<Rightarrow> s\<lparr>cache_pages := (cache_pages s)(sector := Resident (sd_read (sd s) sector))\<rparr>
      | Unmapped \<Rightarrow>
          s\<lparr>cache_pages := (cache_pages s)(sector :=
              Resident (if load then sd_read (sd s) sector else (\<lambda>k. 0)))\<rparr>)"

definition cached_block_read :: "u32 \<Rightarrow> 'a disk_state_scheme \<Rightarrow> (block_data \<times> 'a disk_state_scheme) option" where
  "cached_block_read sector s =
     (if policy s = POLICY_WRITE_THROUGH then Some (sd_read (sd s) sector, s)
      else let s = cache_swapin sector True s in
        case cache_pages s sector of Resident d \<Rightarrow> Some (block_clip d, s) | _ \<Rightarrow> None)"

definition cached_block_write :: "block_data \<Rightarrow> u32 \<Rightarrow> 'a disk_state_scheme \<Rightarrow> 'a disk_state_scheme" where
  "cached_block_write src sector s =
     (if policy s = POLICY_WRITE_THROUGH then s\<lparr>sd := sd_write (sd s) sector src\<rparr>
      else let s = cache_swapin sector False s in
        s\<lparr>cache_pages := (cache_pages s)(sector := Resident (block_clip src))\<rparr>)"

definition fs_cache_swap_alloc :: "u64 \<Rightarrow> u64 option" where
  "fs_cache_swap_alloc va = (if va mod of_nat BLOCK_SIZE = 0 then Some (va div of_nat SECTOR_SIZE) else None)"

text \<open>
  \<open>swapout\<close> of a page of the cache group: the page is written to the sector its address stands for.
\<close>

definition cache_evict :: "u32 \<Rightarrow> 'a disk_state_scheme \<Rightarrow> 'a disk_state_scheme option" where
  "cache_evict sector s =
     (case cache_pages s sector of
        Resident d \<Rightarrow> do {
          swap_location \<leftarrow> fs_cache_swap_alloc (ucast sector * of_nat SECTOR_SIZE);
          Some (s\<lparr>sd := sd_write (sd s) (ucast swap_location) d,
                  cache_pages := (cache_pages s)(sector := Swapped)\<rparr>) }
      | _ \<Rightarrow> None)"

definition fs_cache_swap_free :: "u32 \<Rightarrow> 'a disk_state_scheme \<Rightarrow> 'a disk_state_scheme" where
  "fs_cache_swap_free sector s =
     (if sector < FS_START_SECTOR then s
      else case cache_pages s sector of
        Resident d \<Rightarrow> s\<lparr>sd := sd_write (sd s) sector d\<rparr>
      | _ \<Rightarrow> s)"

text \<open>
  \<open>flush_fs_cache\<close> frees the page directory of the cache: \<open>on_page_free\<close> is called for the pages
  present, in ascending order of their addresses, and the new directory is empty. The argument lists
  the first sectors of the pages that have an entry.
\<close>

definition flush_fs_cache :: "u32 list \<Rightarrow> 'a disk_state_scheme \<Rightarrow> 'a disk_state_scheme" where
  "flush_fs_cache sectors s =
     (let s = fold fs_cache_swap_free sectors s in s\<lparr>cache_pages := (\<lambda>_. Unmapped)\<rparr>)"

section \<open>Block buffers\<close>

definition block_sector :: "superblock_t \<Rightarrow> int \<Rightarrow> u32" where
  "block_sector sb block_num = start_sector sb + of_int block_num * of_nat NSECTOR_BLOCK"

definition block_read :: "int \<Rightarrow> 'a disk_state_scheme \<Rightarrow> (block_data \<times> 'a disk_state_scheme) option" where
  "block_read block_num s = cached_block_read (block_sector (superblock s) block_num) s"

definition block_write :: "int \<Rightarrow> block_data \<Rightarrow> 'a disk_state_scheme \<Rightarrow> 'a disk_state_scheme" where
  "block_write block_num data s = cached_block_write data (block_sector (superblock s) block_num) s"

definition block_find :: "int \<Rightarrow> block_t list \<Rightarrow> nat option" where
  "block_find block_num bs = find (\<lambda>i. b_valid (bs ! i) \<and> b_num (bs ! i) = block_num) [0..<BLOCK_CONCURRENCY]"

definition block_victim :: "block_t list \<Rightarrow> nat option" where
  "block_victim bs = find (\<lambda>i. \<not> b_valid (bs ! i) \<or> b_refcnt (bs ! i) = 0) [0..<BLOCK_CONCURRENCY]"

definition block_open :: "int \<Rightarrow> 'a disk_state_scheme \<Rightarrow> (nat \<times> 'a disk_state_scheme) option" where
  "block_open block_num s =
     (case block_find block_num (blocks s) of
        Some i \<Rightarrow> Some (i, s\<lparr>blocks := (blocks s)[i := (blocks s ! i)\<lparr>b_refcnt := b_refcnt (blocks s ! i) + 1\<rparr>]\<rparr>)
      | None \<Rightarrow> do {
          i \<leftarrow> block_victim (blocks s);
          let s = (if b_valid (blocks s ! i) then block_write (b_num (blocks s ! i)) (b_data (blocks s ! i)) s else s);
          (d, s) \<leftarrow> block_read block_num s;
          Some (i, s\<lparr>blocks := (blocks s)[i := \<lparr>b_valid = True, b_num = block_num, b_refcnt = 1, b_data = d\<rparr>]\<rparr>) })"

definition block_close :: "nat \<Rightarrow> 'a disk_state_scheme \<Rightarrow> 'a disk_state_scheme option" where
  "block_close i s =
     (if b_refcnt (blocks s ! i) > 0
      then Some (s\<lparr>blocks := (blocks s)[i := (blocks s ! i)\<lparr>b_refcnt := b_refcnt (blocks s ! i) - 1\<rparr>]\<rparr>)
      else None)"

text \<open>Reading and writing \<open>blk->data\<close> through a pointer that \<open>block_open\<close> gave.\<close>

definition block_data_of :: "nat \<Rightarrow> 'a disk_state_scheme \<Rightarrow> block_data" where
  "block_data_of i s = b_data (blocks s ! i)"

definition block_store :: "nat \<Rightarrow> block_data \<Rightarrow> 'a disk_state_scheme \<Rightarrow> 'a disk_state_scheme" where
  "block_store i d s = s\<lparr>blocks := (blocks s)[i := (blocks s ! i)\<lparr>b_data := d\<rparr>]\<rparr>"

definition block_memset :: "int \<Rightarrow> u8 \<Rightarrow> 'a disk_state_scheme \<Rightarrow> 'a disk_state_scheme option" where
  "block_memset block_num val s = do {
     (i, s) \<leftarrow> block_open block_num s;
     block_close i (block_store i (block_clip (\<lambda>k. val)) s) }"

section \<open>The block map\<close>

definition MAP_BITS :: nat where "MAP_BITS = BLOCK_SIZE * 8"

definition BLOCKID2MAPBLOCK :: "superblock_t \<Rightarrow> int \<Rightarrow> int" where
  "BLOCKID2MAPBLOCK sb n = sint (block_map_offset sb + of_int (c_div n (int MAP_BITS)))"

definition BLOCKID2MAPOFFSET :: "int \<Rightarrow> int" where
  "BLOCKID2MAPOFFSET n = c_rem n (int MAP_BITS)"

definition map_bit :: "block_data \<Rightarrow> nat \<Rightarrow> bool" where
  "map_bit d k = (d (k div 8) AND push_bit (k mod 8) 1 \<noteq> 0)"

definition map_set :: "nat \<Rightarrow> block_data \<Rightarrow> block_data" where
  "map_set k d = d(k div 8 := d (k div 8) OR push_bit (k mod 8) 1)"

definition map_clear :: "nat \<Rightarrow> block_data \<Rightarrow> block_data" where
  "map_clear k d = d(k div 8 := d (k div 8) AND NOT (push_bit (k mod 8) 1))"

text \<open>The inner loop of \<open>block_alloc\<close>: the first clear bit among \<open>n\<close> bits from \<open>boffset\<close> on.\<close>

fun map_scan :: "block_data \<Rightarrow> nat \<Rightarrow> nat \<Rightarrow> nat option" where
  "map_scan d boffset 0 = None"
| "map_scan d boffset (Suc n) = (if \<not> map_bit d boffset then Some boffset else map_scan d (Suc boffset) n)"

function block_alloc_loop :: "nat \<Rightarrow> nat \<Rightarrow> 'a disk_state_scheme \<Rightarrow> (int \<times> 'a disk_state_scheme) option" where
  "block_alloc_loop n bblock s =
     (if bblock < n then do {
        (i, s) \<leftarrow> block_open (BLOCKID2MAPBLOCK (superblock s) (int bblock)) s;
        (case map_scan (block_data_of i s) 0 (min MAP_BITS (n - bblock)) of
           Some boffset \<Rightarrow> do {
             s \<leftarrow> block_close i (block_store i (map_set boffset (block_data_of i s)) s);
             let s = s\<lparr>superblock := (superblock s)\<lparr>used_block := used_block (superblock s) + 1\<rparr>\<rparr>;
             Some (sint (datablock_offset (superblock s) + of_nat (bblock + boffset)), s) }
         | None \<Rightarrow> do {
             s \<leftarrow> block_close i s;
             block_alloc_loop n (bblock + MAP_BITS) s }) }
      else Some (-1, s))"
  by pat_completeness auto
termination
  by (relation "measure (\<lambda>(n, b, s). n - b)") (auto simp: MAP_BITS_def BLOCK_SIZE_def)

definition block_alloc :: "'a disk_state_scheme \<Rightarrow> (int \<times> 'a disk_state_scheme) option" where
  "block_alloc s = block_alloc_loop (unat (block_count (superblock s))) 0 s"

definition block_allocset :: "u8 \<Rightarrow> 'a disk_state_scheme \<Rightarrow> (int \<times> 'a disk_state_scheme) option" where
  "block_allocset val s = do {
     (block_num, s) \<leftarrow> block_alloc s;
     if block_num \<ge> 0 then do { s \<leftarrow> block_memset block_num val s; Some (block_num, s) }
     else Some (block_num, s) }"

definition block_free :: "int \<Rightarrow> 'a disk_state_scheme \<Rightarrow> 'a disk_state_scheme option" where
  "block_free block_num s =
     (if (of_int block_num :: u32) < datablock_offset (superblock s) then None
      else let n = sint (of_int block_num - datablock_offset (superblock s)) in do {
        (i, s) \<leftarrow> block_open (BLOCKID2MAPBLOCK (superblock s) n) s;
        (if BLOCKID2MAPOFFSET n < 0 then None
         else let k = nat (BLOCKID2MAPOFFSET n) in
           if \<not> map_bit (block_data_of i s) k then None
           else do {
             s \<leftarrow> block_close i (block_store i (map_clear k (block_data_of i s)) s);
             Some (s\<lparr>superblock := (superblock s)\<lparr>used_block := used_block (superblock s) - 1\<rparr>\<rparr>) }) })"

fun flush_buffers :: "block_t list \<Rightarrow> 'a disk_state_scheme \<Rightarrow> 'a disk_state_scheme" where
  "flush_buffers [] s = s"
| "flush_buffers (b # bs) s = flush_buffers bs (if b_valid b then block_write (b_num b) (b_data b) s else s)"

definition flush_block_cache :: "'a disk_state_scheme \<Rightarrow> 'a disk_state_scheme" where
  "flush_block_cache s = flush_buffers (blocks s) s"

declare block_alloc_loop.simps [simp del]

section \<open>What the disk holds\<close>

definition blkno :: "int \<Rightarrow> bool" where
  "blkno b \<longleftrightarrow> 0 \<le> b \<and> b < 2 ^ 29"

definition lower :: "'a disk_state_scheme \<Rightarrow> int \<Rightarrow> block_data" where
  "lower s b =
     (let t = block_sector (superblock s) b in
      if policy s = POLICY_WRITE_THROUGH then sd_read (sd s) t
      else case cache_pages s t of Resident d \<Rightarrow> block_clip d | _ \<Rightarrow> sd_read (sd s) t)"

definition view :: "'a disk_state_scheme \<Rightarrow> int \<Rightarrow> block_data" where
  "view s b =
     (if blkno b then case block_find b (blocks s) of Some i \<Rightarrow> block_clip (b_data (blocks s ! i)) | None \<Rightarrow> lower s b
      else (\<lambda>k. 0))"

definition pin_of :: "block_t \<Rightarrow> (int \<times> int) option" where
  "pin_of b = (if b_valid b \<and> b_refcnt b > 0 then Some (b_num b, b_refcnt b) else None)"

definition pins :: "'a disk_state_scheme \<Rightarrow> (int \<times> int) option list" where
  "pins s = map pin_of (blocks s)"

definition buf_inv :: "'a disk_state_scheme \<Rightarrow> bool" where
  "buf_inv s \<longleftrightarrow> length (blocks s) = BLOCK_CONCURRENCY \<and>
     (\<forall>i < BLOCK_CONCURRENCY. b_valid (blocks s ! i) \<longrightarrow> blkno (b_num (blocks s ! i)) \<and> 0 \<le> b_refcnt (blocks s ! i)) \<and>
     (\<forall>i < BLOCK_CONCURRENCY. \<forall>j < BLOCK_CONCURRENCY.
        b_valid (blocks s ! i) \<and> b_valid (blocks s ! j) \<and> b_num (blocks s ! i) = b_num (blocks s ! j) \<longrightarrow> i = j)"

lemma block_clip_idem [simp]: "block_clip (block_clip d) = block_clip d"
  by (auto simp: block_clip_def)

lemma block_clip_sd_read [simp]: "block_clip (sd_read dev t) = sd_read dev t"
  by (simp add: sd_read_def)

lemma sd_read_write_same [simp]: "sd_read (sd_write dev t d) t = block_clip d"
proof
  fix k
  have "k < 4096 \<Longrightarrow> unat (of_nat (k div 512) :: u32) = k div 512" by (simp add: unat_of_nat take_bit_nat_eq_self)
  then show "sd_read (sd_write dev t d) t k = block_clip d k"
    by (auto simp: sd_read_def sd_write_def block_clip_def BLOCK_SIZE_def SECTOR_SIZE_def NSECTOR_BLOCK_def)
qed

lemma unat_of_int_mod: "unat (of_int x :: u32) = nat (x mod 2 ^ 32)"
  by (simp add: unat_eq_nat_uint uint_word_of_int)

lemma block_distance:
  assumes "blkno b" "blkno c" "b \<noteq> c" "j < 8"
  shows "\<not> unat (block_sector sb c + of_nat j - block_sector sb b) < 8"
proof -
  have e: "block_sector sb c + of_nat j - block_sector sb b = of_int ((c - b) * 8 + int j)"
    by (simp add: block_sector_def NSECTOR_BLOCK_def algebra_simps)
  have r: "- (2 ^ 32 - 8) \<le> (c - b) * 8 + int j" "(c - b) * 8 + int j < 2 ^ 32"
    "(c - b) * 8 + int j < 0 \<or> 8 \<le> (c - b) * 8 + int j"
    using assms by (auto simp: blkno_def)
  then have "8 \<le> ((c - b) * 8 + int j) mod 2 ^ 32"
  proof (cases "(c - b) * 8 + int j < 0")
    case True
    then have "((c - b) * 8 + int j) mod 2 ^ 32 = ((c - b) * 8 + int j + 2 ^ 32) mod 2 ^ 32" by simp
    also have "\<dots> = (c - b) * 8 + int j + 2 ^ 32" using r True by (intro mod_pos_pos_trivial) linarith+
    finally show ?thesis using r by linarith
  next
    case False
    then show ?thesis using r by (subst mod_pos_pos_trivial) linarith+
  qed
  then show ?thesis unfolding e unat_of_int_mod by linarith
qed

lemma sd_read_write_other:
  assumes "blkno b" "blkno c" "b \<noteq> c"
  shows "sd_read (sd_write dev (block_sector sb b) d) (block_sector sb c) = sd_read dev (block_sector sb c)"
proof
  fix k
  show "sd_read (sd_write dev (block_sector sb b) d) (block_sector sb c) k = sd_read dev (block_sector sb c) k"
  proof (cases "k < BLOCK_SIZE")
    case True
    then have "k div SECTOR_SIZE < 8" by (simp add: BLOCK_SIZE_def SECTOR_SIZE_def)
    from block_distance [OF assms this, of sb] True show ?thesis
      by (simp add: sd_read_def sd_write_def block_clip_def NSECTOR_BLOCK_def)
  qed (simp add: sd_read_def block_clip_def)
qed

lemma block_sector_inj: "blkno b \<Longrightarrow> blkno c \<Longrightarrow> block_sector sb b = block_sector sb c \<longleftrightarrow> b = c"
  using block_distance [of b c 0 sb] by (cases "b = c") auto

lemma lower_blocks [simp]: "lower (s\<lparr>blocks := x\<rparr>) = lower s"
  by (rule ext) (simp add: lower_def Let_def split: page_slot.split)

lemma lower_superblock: "start_sector sb = start_sector (superblock s) \<Longrightarrow> lower (s\<lparr>superblock := sb\<rparr>) = lower s"
  by (rule ext) (simp add: lower_def block_sector_def Let_def split: page_slot.split)

lemma cached_block_read_spec:
  obtains s' where "block_read b s = Some (lower s b, s')" "blocks s' = blocks s" "superblock s' = superblock s"
    "policy s' = policy s" "disk_state.more s' = disk_state.more s" "lower s' = lower s"
proof (cases "policy s = POLICY_WRITE_THROUGH")
  case True
  then show thesis by (intro that [of s]) (simp_all add: block_read_def cached_block_read_def lower_def)
next
  case False
  let ?t = "block_sector (superblock s) b"
  have "lower (cache_swapin ?t True s) = lower s"
    by (intro ext) (auto simp: cache_swapin_def lower_def Let_def split: page_slot.splits)
  with False show thesis
    by (intro that [of "cache_swapin ?t True s"])
      (auto simp: block_read_def cached_block_read_def lower_def cache_swapin_def Let_def split: page_slot.splits)
qed

lemma block_write_simps [simp]:
  "blocks (block_write b d s) = blocks s" "superblock (block_write b d s) = superblock s"
  "policy (block_write b d s) = policy s" "disk_state.more (block_write b d s) = disk_state.more s"
  by (auto simp: block_write_def cached_block_write_def cache_swapin_def Let_def split: page_slot.splits)

lemma lower_block_write:
  assumes "blkno b" "blkno c"
  shows "lower (block_write b d s) c = (if c = b then block_clip d else lower s c)"
  using assms block_sector_inj [of b c "superblock s"]
  by (auto simp: block_write_def cached_block_write_def cache_swapin_def Let_def lower_def sd_read_write_other
      split: page_slot.splits)

lemma block_find_SomeD:
  "block_find b bs = Some i \<Longrightarrow> i < BLOCK_CONCURRENCY \<and> b_valid (bs ! i) \<and> b_num (bs ! i) = b"
  unfolding block_find_def by (drule find_SomeD) auto

lemma block_find_None: "block_find b bs = None \<longleftrightarrow> (\<forall>i < BLOCK_CONCURRENCY. b_valid (bs ! i) \<longrightarrow> b_num (bs ! i) \<noteq> b)"
  by (auto simp: block_find_def find_None_iff)

lemma block_find_eq:
  assumes "buf_inv s" "i < BLOCK_CONCURRENCY" "b_valid (blocks s ! i)"
  shows "block_find (b_num (blocks s ! i)) (blocks s) = Some i"
proof (cases "block_find (b_num (blocks s ! i)) (blocks s)")
  case None
  with assms show ?thesis unfolding block_find_None by blast
next
  case (Some j)
  from block_find_SomeD [OF this] assms show ?thesis by (simp add: Some buf_inv_def)
qed

lemma view_eqI:
  assumes "\<And>c. block_find c (blocks s') = block_find c (blocks s)" "\<And>j. b_data (blocks s' ! j) = b_data (blocks s ! j)"
    "lower s' = lower s"
  shows "view s' = view s"
  by (rule ext) (simp add: view_def assms split: option.split)

lemma pins_nth: "buf_inv s \<Longrightarrow> i < BLOCK_CONCURRENCY \<Longrightarrow> pins s ! i = pin_of (blocks s ! i)"
  by (simp add: pins_def buf_inv_def)

lemma length_pins: "buf_inv s \<Longrightarrow> length (pins s) = BLOCK_CONCURRENCY"
  by (simp add: pins_def buf_inv_def)

lemma pin_of_SomeD: "pin_of x = Some (b, r) \<Longrightarrow> b_valid x \<and> b_num x = b \<and> b_refcnt x = r \<and> 0 < r"
  by (auto simp: pin_of_def split: if_splits)

text \<open>A pinned buffer shows what its block holds, and storing into it changes that block only.\<close>

lemma pinned:
  assumes "buf_inv s" "i < BLOCK_CONCURRENCY" "pins s ! i = Some (b, r)"
  shows "blkno b" "view s b = block_clip (block_data_of i s)" "0 < r" "b_refcnt (blocks s ! i) = r"
    "b_valid (blocks s ! i)" "b_num (blocks s ! i) = b"
proof -
  have p: "b_valid (blocks s ! i)" "b_num (blocks s ! i) = b" "b_refcnt (blocks s ! i) = r" "0 < r"
    using pin_of_SomeD assms pins_nth by metis+
  then show "blkno b" using assms(1,2) by (auto simp: buf_inv_def)
  then show "view s b = block_clip (block_data_of i s)"
    using block_find_eq [OF assms(1,2) p(1)] p(2) by (simp add: view_def block_data_of_def)
qed (use pin_of_SomeD assms pins_nth in metis)+

definition upd_data :: "nat \<Rightarrow> (block_t \<Rightarrow> block_t) \<Rightarrow> 'a disk_state_scheme \<Rightarrow> 'a disk_state_scheme" where
  "upd_data i f s = s\<lparr>blocks := (blocks s)[i := f (blocks s ! i)]\<rparr>"

lemma nth_update_field: "g y = g (xs ! i) \<Longrightarrow> g (xs[i := y] ! j) = g (xs ! j)"
  by (cases "i < length xs"; cases "i = j") auto

text \<open>Changing the count or the content of one buffer keeps the invariant.\<close>

lemma upd_data_inv:
  assumes inv: "buf_inv s" and i: "i < BLOCK_CONCURRENCY"
    and f: "b_valid (f (blocks s ! i)) = b_valid (blocks s ! i)" "b_num (f (blocks s ! i)) = b_num (blocks s ! i)"
    "0 \<le> b_refcnt (f (blocks s ! i))"
  shows "buf_inv (upd_data i f s)" "block_find c (blocks (upd_data i f s)) = block_find c (blocks s)"
    "pins (upd_data i f s) = (pins s)[i := pin_of (f (blocks s ! i))]"
proof -
  have l: "i < length (blocks s)" using inv i by (simp add: buf_inv_def)
  have e: "b_valid (blocks (upd_data i f s) ! j) = b_valid (blocks s ! j)"
    "b_num (blocks (upd_data i f s) ! j) = b_num (blocks s ! j)"
    "j = i \<or> b_refcnt (blocks (upd_data i f s) ! j) = b_refcnt (blocks s ! j)" for j
    using f l by (auto simp: upd_data_def nth_list_update)
  have "0 \<le> b_refcnt (blocks (upd_data i f s) ! j)" if "j < BLOCK_CONCURRENCY" "b_valid (blocks s ! j)" for j
    using e(3) [of j] that inv f(3) l by (cases "j = i") (auto simp: buf_inv_def upd_data_def)
  then show "buf_inv (upd_data i f s)" using inv unfolding buf_inv_def e by (simp add: upd_data_def)
  show "block_find c (blocks (upd_data i f s)) = block_find c (blocks s)"
    by (simp add: block_find_def e)
  show "pins (upd_data i f s) = (pins s)[i := pin_of (f (blocks s ! i))]"
    by (simp add: pins_def upd_data_def map_update)
qed

lemma upd_data_simps [simp]:
  "superblock (upd_data i f s) = superblock s" "policy (upd_data i f s) = policy s"
  "disk_state.more (upd_data i f s) = disk_state.more s" "lower (upd_data i f s) = lower s"
  by (simp_all add: upd_data_def)

lemma block_store_spec:
  assumes "buf_inv s" "i < BLOCK_CONCURRENCY" "pins s ! i = Some (b, r)"
  shows "buf_inv (block_store i d s)" "view (block_store i d s) = (view s)(b := block_clip d)"
    "pins (block_store i d s) = pins s"
proof -
  let ?f = "\<lambda>x. x\<lparr>b_data := d\<rparr>"
  have e: "block_store i d s = upd_data i ?f s" by (simp add: block_store_def upd_data_def)
  note p = pinned [OF assms]
  have l: "i < length (blocks s)" using assms by (simp add: buf_inv_def)
  note u = upd_data_inv [OF assms(1,2), of ?f]
  show "buf_inv (block_store i d s)" unfolding e using p by (intro u) simp_all
  have "pins (block_store i d s) = (pins s)[i := pins s ! i]"
    unfolding e using p by (subst u) (simp_all add: pins_nth [OF assms(1,2)] pin_of_def)
  then show "pins (block_store i d s) = pins s" by simp
  show "view (block_store i d s) = (view s)(b := block_clip d)"
  proof
    fix c
    have fd: "block_find c (blocks (upd_data i ?f s)) = block_find c (blocks s)" using p by (intro u) simp_all
    show "view (block_store i d s) c = ((view s)(b := block_clip d)) c"
    proof (cases "c = b")
      case True
      then show ?thesis
        using p l block_find_eq [OF assms(1,2) p(5)] unfolding e view_def fd by (simp add: upd_data_def)
    next
      case False
      then have "block_find c (blocks s) = Some j \<Longrightarrow> j \<noteq> i" for j
        using block_find_SomeD [of c "blocks s" j] p by auto
      then show ?thesis using False unfolding e view_def fd by (auto simp: upd_data_def split: option.splits)
    qed
  qed
qed

lemma block_close_spec:
  assumes "buf_inv s" "i < BLOCK_CONCURRENCY" "pins s ! i = Some (b, r)"
  obtains s' where "block_close i s = Some s'" "buf_inv s'" "view s' = view s"
    "pins s' = (pins s)[i := if r = 1 then None else Some (b, r - 1)]"
    "superblock s' = superblock s" "policy s' = policy s" "disk_state.more s' = disk_state.more s"
proof -
  let ?f = "\<lambda>x. x\<lparr>b_refcnt := b_refcnt x - 1\<rparr>"
  note p = pinned [OF assms]
  note u = upd_data_inv [OF assms(1,2), of ?f]
  let ?s = "upd_data i ?f s"
  have c: "block_close i s = Some ?s" using p by (simp add: block_close_def upd_data_def)
  have i: "buf_inv ?s" using p by (intro u) simp_all
  have fd: "block_find c (blocks ?s) = block_find c (blocks s)" for c using p by (intro u) simp_all
  have "b_data (blocks ?s ! j) = b_data (blocks s ! j)" for j
    unfolding upd_data_def by (simp add: nth_update_field)
  then have v: "view ?s = view s" by (intro view_eqI fd) simp_all
  have "pins ?s = (pins s)[i := if r = 1 then None else Some (b, r - 1)]"
    using p by (subst u) (auto simp: pin_of_def)
  then show thesis using that [OF c i v] by simp
qed

text \<open>
  The free buffers: one of them, or a buffer that holds the block, is enough for \<open>block_open\<close>.
\<close>

definition spare :: "'a disk_state_scheme \<Rightarrow> nat" where
  "spare s = length (filter (\<lambda>p. p = None) (pins s))"

lemma spare_update: "spare s \<le> Suc (length (filter (\<lambda>p. p = None) ((pins s)[i := x])))"
proof (cases "i < length (pins s)")
  case True
  then have s: "pins s = take i (pins s) @ pins s ! i # drop (Suc i) (pins s)" by (rule id_take_nth_drop)
  then have e: "spare s = length (filter (\<lambda>p. p = None) (take i (pins s) @ pins s ! i # drop (Suc i) (pins s)))"
    unfolding spare_def by (rule arg_cong)
  show ?thesis unfolding e using True by (simp add: upd_conv_take_nth_drop)
qed (simp add: spare_def)

lemma spare_victim:
  assumes "buf_inv s" "0 < spare s"
  obtains i where "block_victim (blocks s) = Some i" "i < BLOCK_CONCURRENCY" "pins s ! i = None"
    "b_valid (blocks s ! i) \<longrightarrow> b_refcnt (blocks s ! i) = 0"
proof -
  from assms(2) obtain p where "p \<in> set (filter (\<lambda>p. p = None) (pins s))"
    unfolding spare_def by (metis length_greater_0_conv list.set_intros(1) neq_Nil_conv)
  then have "None \<in> set (pins s)" by auto
  then obtain j where j: "j < BLOCK_CONCURRENCY" "pin_of (blocks s ! j) = None"
    using assms(1) by (metis in_set_conv_nth length_pins pins_nth)
  have "\<not> b_valid (blocks s ! j) \<or> b_refcnt (blocks s ! j) = 0"
    using j assms(1) by (auto simp: pin_of_def buf_inv_def split: if_splits)
  with j have "block_victim (blocks s) \<noteq> None" by (auto simp: block_victim_def find_None_iff)
  then obtain i where i: "block_victim (blocks s) = Some i" by blast
  then have "i < BLOCK_CONCURRENCY" "\<not> b_valid (blocks s ! i) \<or> b_refcnt (blocks s ! i) = 0"
    unfolding block_victim_def by (auto dest: find_SomeD)
  with i assms(1) show thesis by (intro that) (auto simp: pins_nth pin_of_def)
qed

lemma fill_buffer:
  fixes d :: block_data
  assumes inv: "buf_inv s" and i: "i < BLOCK_CONCURRENCY" and b: "blkno b" "block_find b (blocks s) = None"
    and r: "0 \<le> r"
  defines "x \<equiv> \<lparr>b_valid = True, b_num = b, b_refcnt = r, b_data = d\<rparr>"
  shows "buf_inv (s\<lparr>blocks := (blocks s)[i := x]\<rparr>)"
    "block_find c ((blocks s)[i := x]) =
       (if c = b then Some i else if block_find c (blocks s) = Some i then None else block_find c (blocks s))"
proof -
  have l: "length (blocks s) = BLOCK_CONCURRENCY" using inv by (simp add: buf_inv_def)
  have n: "j < BLOCK_CONCURRENCY \<Longrightarrow> b_valid (blocks s ! j) \<Longrightarrow> b_num (blocks s ! j) \<noteq> b" for j
    using b(2) unfolding block_find_None by blast
  have v: "j < BLOCK_CONCURRENCY \<Longrightarrow> b_valid (blocks s ! j) \<Longrightarrow> blkno (b_num (blocks s ! j)) \<and> 0 \<le> b_refcnt (blocks s ! j)"
    and u: "j < BLOCK_CONCURRENCY \<Longrightarrow> k < BLOCK_CONCURRENCY \<Longrightarrow> b_valid (blocks s ! j) \<Longrightarrow> b_valid (blocks s ! k) \<Longrightarrow>
        b_num (blocks s ! j) = b_num (blocks s ! k) \<Longrightarrow> j = k" for j k
    using inv by (simp_all add: buf_inv_def)
  have w: "j = k" if "j < BLOCK_CONCURRENCY" "k < BLOCK_CONCURRENCY" "b_valid ((blocks s)[i := x] ! j)"
    "b_valid ((blocks s)[i := x] ! k)" "b_num ((blocks s)[i := x] ! j) = b_num ((blocks s)[i := x] ! k)" for j k
    using that n [of j] n [of k] u [of j k] l by (cases "i = j"; cases "i = k") (simp_all add: x_def)
  have q: "blkno (b_num ((blocks s)[i := x] ! j)) \<and> 0 \<le> b_refcnt ((blocks s)[i := x] ! j)"
    if "j < BLOCK_CONCURRENCY" "b_valid ((blocks s)[i := x] ! j)" for j
    using that b(1) r v [of j] l by (cases "i = j") (simp_all add: x_def)
  show inv': "buf_inv (s\<lparr>blocks := (blocks s)[i := x]\<rparr>)"
    unfolding buf_inv_def using l q w by simp
  let ?bs = "(blocks s)[i := x]"
  show "block_find c ?bs =
       (if c = b then Some i else if block_find c (blocks s) = Some i then None else block_find c (blocks s))"
  proof (cases "c = b")
    case True
    then show ?thesis using block_find_eq [OF inv', of i] i l by (simp add: x_def)
  next
    case False
    show ?thesis
    proof (cases "block_find c (blocks s)")
      case None
      then have "block_find c ?bs = None"
        unfolding block_find_None using False l i by (simp add: nth_list_update x_def)
      with None False show ?thesis by simp
    next
      case (Some j)
      note j = block_find_SomeD [OF Some]
      show ?thesis
      proof (cases "j = i")
        case True
        have "b_valid (blocks s ! k) \<Longrightarrow> b_num (blocks s ! k) = c \<Longrightarrow> k < BLOCK_CONCURRENCY \<Longrightarrow> k = i" for k
          using u [of k j] j True by simp
        then have "block_find c ?bs = None"
          unfolding block_find_None using False l i by (auto simp: nth_list_update x_def)
        with Some True False show ?thesis by simp
      next
        case ne: False
        have "block_find c ?bs = Some j" using block_find_eq [OF inv', of j] ne j by simp
        with Some ne False show ?thesis by simp
      qed
    qed
  qed
qed

lemma block_open_spec:
  assumes inv: "buf_inv s" and b: "blkno b" and sp: "0 < spare s"
  obtains i s' where "block_open b s = Some (i, s')" "buf_inv s'" "view s' = view s" "i < BLOCK_CONCURRENCY"
    "pins s ! i = None \<or> (\<exists>r > 0. pins s ! i = Some (b, r))"
    "pins s' = (pins s)[i := Some (b, case pins s ! i of None \<Rightarrow> 1 | Some (c, r) \<Rightarrow> r + 1)]"
    "superblock s' = superblock s" "policy s' = policy s" "disk_state.more s' = disk_state.more s"
proof (cases "block_find b (blocks s)")
  case (Some i)
  note f = block_find_SomeD [OF Some]
  then have rc: "0 \<le> b_refcnt (blocks s ! i)" using inv by (simp add: buf_inv_def)
  let ?f = "\<lambda>x. x\<lparr>b_refcnt := b_refcnt x + 1\<rparr>"
  have i: "i < BLOCK_CONCURRENCY" using f by simp
  note u = upd_data_inv [OF inv i, of ?f]
  let ?s = "upd_data i ?f s"
  have o: "block_open b s = Some (i, ?s)" by (simp add: block_open_def Some upd_data_def)
  have i': "buf_inv ?s" using rc by (intro u) simp_all
  have fd: "block_find c (blocks ?s) = block_find c (blocks s)" for c using rc by (intro u) simp_all
  have "b_data (blocks ?s ! j) = b_data (blocks s ! j)" for j
    unfolding upd_data_def by (simp add: nth_update_field)
  then have v: "view ?s = view s" by (intro view_eqI fd) simp_all
  have p: "pins ?s = (pins s)[i := pin_of (?f (blocks s ! i))]" using rc by (intro u) simp_all
  have "pin_of (?f (blocks s ! i)) = Some (b, case pins s ! i of None \<Rightarrow> 1 | Some (c, r) \<Rightarrow> r + 1)"
    "pins s ! i = None \<or> (\<exists>r > 0. pins s ! i = Some (b, r))"
    using f rc by (auto simp: pins_nth [OF inv] pin_of_def)
  then show thesis using that [OF o i' v] p f by simp
next
  case None
  obtain i where i: "block_victim (blocks s) = Some i" "i < BLOCK_CONCURRENCY" "pins s ! i = None"
    "b_valid (blocks s ! i) \<longrightarrow> b_refcnt (blocks s ! i) = 0"
    by (rule spare_victim [OF inv sp])
  define s1 where "s1 = (if b_valid (blocks s ! i) then block_write (b_num (blocks s ! i)) (b_data (blocks s ! i)) s else s)"
  have s1: "blocks s1 = blocks s" "superblock s1 = superblock s" "policy s1 = policy s"
    "disk_state.more s1 = disk_state.more s"
    by (simp_all add: s1_def)
  obtain s2 where s2: "block_read b s1 = Some (lower s1 b, s2)" "blocks s2 = blocks s1" "superblock s2 = superblock s1"
    "policy s2 = policy s1" "disk_state.more s2 = disk_state.more s1" "lower s2 = lower s1"
    by (rule cached_block_read_spec)
  define x where "x = \<lparr>b_valid = True, b_num = b, b_refcnt = 1, b_data = lower s1 b\<rparr>"
  define s' where "s' = s2\<lparr>blocks := (blocks s)[i := x]\<rparr>"
  have o: "block_open b s = Some (i, s')"
    by (simp add: block_open_def None i(1) s1_def [symmetric] s2 s1 s'_def x_def)
  have inv2: "buf_inv s2" using inv by (simp add: buf_inv_def s2 s1)
  have n2: "block_find b (blocks s2) = None" by (simp add: s2 s1 None)
  have bs: "blocks s2 = blocks s" by (simp add: s2 s1)
  note fb = fill_buffer [OF inv2 i(2) b n2, where r = 1 and d = "lower s1 b", folded x_def, unfolded bs, simplified]
  have l: "length (blocks s) = BLOCK_CONCURRENCY" using inv by (simp add: buf_inv_def)
  have low: "lower s1 c = (if b_valid (blocks s ! i) \<and> c = b_num (blocks s ! i) then block_clip (b_data (blocks s ! i)) else lower s c)"
    if "blkno c" for c
    using inv i(2) that by (auto simp: s1_def lower_block_write buf_inv_def)
  have "view s' c = view s c" if c: "blkno c" for c
  proof (cases "c = b")
    case True
    then have "\<not> (b_valid (blocks s ! i) \<and> c = b_num (blocks s ! i))"
      using None i(2) unfolding block_find_None by blast
    then have "lower s1 b = lower s b" using low c True by auto
    moreover have "block_clip (lower s b) = lower s b"
      by (simp add: lower_def Let_def split: page_slot.splits)
    ultimately show ?thesis using True b None i(2) l fb(2) [of b]
      by (simp add: view_def s'_def x_def)
  next
    case ne: False
    show ?thesis
    proof (cases "block_find c (blocks s)")
      case None
      then have "\<not> (b_valid (blocks s ! i) \<and> c = b_num (blocks s ! i))"
        using i(2) unfolding block_find_None by blast
      then have "lower s1 c = lower s c" using low [OF c] by auto
      then show ?thesis using ne None c fb(2) [of c] by (simp add: view_def s'_def s2)
    next
      case (Some j)
      note j = block_find_SomeD [OF Some]
      show ?thesis
      proof (cases "j = i")
        case True
        then have "lower s1 c = block_clip (b_data (blocks s ! i))" using low [OF c] j by auto
        then show ?thesis using ne Some True c fb(2) [of c] by (simp add: view_def s'_def s2)
      next
        case False
        then show ?thesis using ne Some c fb(2) [of c] by (simp add: view_def s'_def s2)
      qed
    qed
  qed
  then have v: "view s' = view s" by (intro ext) (metis view_def)
  have p: "pins s' = (pins s)[i := Some (b, 1)]"
    by (simp add: pins_def s'_def map_update x_def pin_of_def)
  have i': "buf_inv s'" using fb(1) by (simp add: s'_def buf_inv_def)
  show thesis by (rule that [OF o i' v i(2)]) (simp_all add: i(3) p, simp_all add: s'_def s2 s1)
qed

text \<open>
  A block opened, used and closed: the buffer shows the block throughout, whatever else is opened
  and closed in between, and in the end the pins are as before.
\<close>

definition dframe :: "'a disk_state_scheme \<Rightarrow> 'a disk_state_scheme \<Rightarrow> bool" where
  "dframe s s' \<longleftrightarrow> buf_inv s' \<and> pins s' = pins s \<and> policy s' = policy s \<and> disk_state.more s' = disk_state.more s"

lemma dframeI [intro]:
  "buf_inv s' \<Longrightarrow> pins s' = pins s \<Longrightarrow> policy s' = policy s \<Longrightarrow> disk_state.more s' = disk_state.more s \<Longrightarrow> dframe s s'"
  by (simp add: dframe_def)

lemma dframe_trans: "dframe s s' \<Longrightarrow> dframe s' s'' \<Longrightarrow> dframe s s''"
  by (simp add: dframe_def)

lemma dframeD: "dframe s s' \<Longrightarrow> buf_inv s'" "dframe s s' \<Longrightarrow> pins s' = pins s" "dframe s s' \<Longrightarrow> spare s' = spare s"
  by (simp_all add: dframe_def spare_def)

lemma dframe_refl: "buf_inv s \<Longrightarrow> dframe s s"
  by (simp add: dframe_def)

definition holds :: "'a disk_state_scheme \<Rightarrow> int \<Rightarrow> nat \<Rightarrow> 'a disk_state_scheme \<Rightarrow> bool" where
  "holds s b i s1 \<longleftrightarrow> buf_inv s1 \<and> i < BLOCK_CONCURRENCY \<and> policy s1 = policy s \<and> disk_state.more s1 = disk_state.more s \<and>
     (\<exists>r. pins s1 ! i = Some (b, r) \<and> (pins s1)[i := if r = 1 then None else Some (b, r - 1)] = pins s)"

lemma block_bracket:
  assumes inv: "buf_inv s" and b: "blkno b" and sp: "0 < spare s"
  obtains i s1 where "block_open b s = Some (i, s1)" "holds s b i s1" "view s1 = view s" "superblock s1 = superblock s"
    "spare s \<le> Suc (spare s1)"
proof -
  obtain i s1 where o: "block_open b s = Some (i, s1)" "buf_inv s1" "view s1 = view s" "i < BLOCK_CONCURRENCY"
    "pins s ! i = None \<or> (\<exists>r > 0. pins s ! i = Some (b, r))"
    "pins s1 = (pins s)[i := Some (b, case pins s ! i of None \<Rightarrow> 1 | Some (c, r) \<Rightarrow> r + 1)]"
    "superblock s1 = superblock s" "policy s1 = policy s" "disk_state.more s1 = disk_state.more s"
    by (rule block_open_spec [OF assms])
  define r where "r = (case pins s ! i of None \<Rightarrow> 1 | Some (c, r) \<Rightarrow> r + 1)"
  have l: "i < length (pins s)" using o(4) by (simp add: length_pins [OF inv])
  have p1: "pins s1 ! i = Some (b, r)" using o(6) l by (simp add: r_def)
  have sp1: "spare s \<le> Suc (spare s1)" unfolding spare_def [of s1] o(6) by (rule spare_update)
  have "(if r = 1 then None else Some (b, r - 1)) = pins s ! i" using o(5) by (auto simp: r_def)
  then have "(pins s1)[i := if r = 1 then None else Some (b, r - 1)] = pins s" by (simp add: o(6))
  with p1 o have "holds s b i s1" by (auto simp: holds_def)
  from that [OF o(1) this o(3) o(7) sp1] show thesis .
qed

lemma holds_frame: "holds s b i s1 \<Longrightarrow> dframe s1 s2 \<Longrightarrow> holds s b i s2"
  by (auto simp: holds_def dframe_def)

lemma holds_inv: "holds s b i s1 \<Longrightarrow> buf_inv s1"
  by (simp add: holds_def)

lemma holds_close:
  assumes "holds s b i s2"
  obtains s3 where "block_close i s2 = Some s3" "dframe s s3" "view s3 = view s2" "superblock s3 = superblock s2"
proof -
  obtain r where h: "buf_inv s2" "i < BLOCK_CONCURRENCY" "pins s2 ! i = Some (b, r)"
    "(pins s2)[i := if r = 1 then None else Some (b, r - 1)] = pins s" "policy s2 = policy s"
    "disk_state.more s2 = disk_state.more s"
    using assms by (auto simp: holds_def)
  obtain s3 where c: "block_close i s2 = Some s3" "buf_inv s3" "view s3 = view s2"
    "pins s3 = (pins s2)[i := if r = 1 then None else Some (b, r - 1)]"
    "superblock s3 = superblock s2" "policy s3 = policy s2" "disk_state.more s3 = disk_state.more s2"
    by (rule block_close_spec [OF h(1-3)])
  show thesis by (rule that [OF c(1) _ c(3) c(5)]) (auto simp: c h)
qed

lemma holds_store:
  assumes "holds s b i s2"
  shows "holds s b i (block_store i d s2)" "view (block_store i d s2) = (view s2)(b := block_clip d)"
    "superblock (block_store i d s2) = superblock s2" "spare (block_store i d s2) = spare s2"
    "dframe s2 (block_store i d s2)"
proof -
  obtain r where h: "buf_inv s2" "i < BLOCK_CONCURRENCY" "pins s2 ! i = Some (b, r)"
    using assms by (auto simp: holds_def)
  note st = block_store_spec [OF h, of d]
  show "dframe s2 (block_store i d s2)" using st by (auto simp: block_store_def)
  then show "holds s b i (block_store i d s2)" by (rule holds_frame [OF assms])
  show "view (block_store i d s2) = (view s2)(b := block_clip d)" by (rule st)
  show "spare (block_store i d s2) = spare s2" using st by (simp add: spare_def)
qed (simp add: block_store_def)

lemma holds_data:
  assumes "holds s b i s2"
  shows "block_clip (block_data_of i s2) = view s2 b"
proof -
  obtain r where "buf_inv s2" "i < BLOCK_CONCURRENCY" "pins s2 ! i = Some (b, r)"
    using assms by (auto simp: holds_def)
  from pinned(2) [OF this] show ?thesis by simp
qed

lemma block_memset_spec:
  assumes "buf_inv s" "blkno b" "0 < spare s"
  obtains s' where "block_memset b v s = Some s'" "dframe s s'" "superblock s' = superblock s"
    "view s' = (view s)(b := block_clip (\<lambda>k. v))"
proof -
  obtain i s1 where o: "block_open b s = Some (i, s1)" "holds s b i s1" "view s1 = view s" "superblock s1 = superblock s"
    by (rule block_bracket [OF assms])
  note st = holds_store [OF o(2), of "block_clip (\<lambda>k. v)"]
  obtain s3 where "block_close i (block_store i (block_clip (\<lambda>k. v)) s1) = Some s3" "dframe s s3"
    "view s3 = view (block_store i (block_clip (\<lambda>k. v)) s1)" "superblock s3 = superblock (block_store i (block_clip (\<lambda>k. v)) s1)"
    by (rule holds_close [OF st(1)])
  then show thesis by (intro that) (simp_all add: block_memset_def o st)
qed

section \<open>Allocated blocks\<close>

definition sb_ok :: "superblock_t \<Rightarrow> bool" where
  "sb_ok sb \<longleftrightarrow> 0 < block_map_offset sb \<and>
     unat (block_map_offset sb) + (unat (block_count sb) + (MAP_BITS - 1)) div MAP_BITS \<le> unat (inode_offset sb) \<and>
     unat (inode_offset sb) + (unat (inode_count sb) + 63) div 64 \<le> unat (datablock_offset sb) \<and>
     unat (datablock_offset sb) + unat (block_count sb) \<le> 2 ^ 29"

definition map_block :: "superblock_t \<Rightarrow> nat \<Rightarrow> int" where
  "map_block sb n = int (unat (block_map_offset sb) + n div MAP_BITS)"

definition used_in :: "superblock_t \<Rightarrow> (int \<Rightarrow> block_data) \<Rightarrow> nat \<Rightarrow> bool" where
  "used_in sb V n = map_bit (V (map_block sb n)) (n mod MAP_BITS)"

definition data_block :: "superblock_t \<Rightarrow> nat \<Rightarrow> int" where
  "data_block sb n = int (unat (datablock_offset sb) + n)"

lemma data_block_nonneg [simp]: "0 \<le> data_block sb m" "\<not> data_block sb m < 0"
  unfolding data_block_def by (simp, linarith)

lemma map_bit_iff: "map_bit d k = bit (d (k div 8)) (k mod 8)"
  by (simp add: map_bit_def bit_iff_and_push_bit_not_eq_0 and.commute)

lemma map_bit_set [simp]: "map_bit (map_set k d) j = (j = k \<or> map_bit d j)"
proof -
  have "j div 8 = k div 8 \<Longrightarrow> j mod 8 = k mod 8 \<Longrightarrow> j = k" by (metis mult_div_mod_eq)
  then show ?thesis
    by (auto simp: map_bit_iff map_set_def bit_or_iff bit_exp_iff)
qed

lemma map_bit_clear [simp]: "map_bit (map_clear k d) j = (j \<noteq> k \<and> map_bit d j)"
proof -
  have "j div 8 = k div 8 \<Longrightarrow> j mod 8 = k mod 8 \<Longrightarrow> j = k" by (metis mult_div_mod_eq)
  then show ?thesis
    by (auto simp: map_bit_iff map_clear_def bit_and_iff bit_not_iff bit_exp_iff)
qed

lemma map_byte: "k < MAP_BITS \<Longrightarrow> k div 8 < BLOCK_SIZE"
  by (simp add: MAP_BITS_def BLOCK_SIZE_def)

lemma map_bit_clip: "k < MAP_BITS \<Longrightarrow> map_bit (block_clip d) k = map_bit d k"
  using map_byte [of k] by (simp add: map_bit_def block_clip_def)

lemma map_set_clip: "k < MAP_BITS \<Longrightarrow> block_clip (map_set k d) = map_set k (block_clip d)"
  using map_byte [of k] by (auto simp: map_set_def block_clip_def)

lemma map_clear_clip: "k < MAP_BITS \<Longrightarrow> block_clip (map_clear k d) = map_clear k (block_clip d)"
  using map_byte [of k] by (auto simp: map_clear_def block_clip_def)

lemma sint_u32: "0 \<le> x \<Longrightarrow> x < 2 ^ 31 \<Longrightarrow> sint (of_int x :: u32) = x"
  by (simp add: sint_sbintrunc' signed_take_bit_int_eq_self)

lemma MAP_BITS_pos [simp]: "0 < MAP_BITS" "MAP_BITS \<noteq> 0"
  by (simp_all add: MAP_BITS_def BLOCK_SIZE_def)

lemma int_less_power: "m < 2 ^ k \<Longrightarrow> int m < 2 ^ k"
  by (metis of_nat_less_iff of_nat_numeral of_nat_power)

lemma map_block_range:
  assumes "sb_ok sb" "n < unat (block_count sb)"
  shows "blkno (map_block sb n)" "0 < map_block sb n" "map_block sb n < int (unat (inode_offset sb))"
    "map_block sb n < int (unat (datablock_offset sb))"
proof -
  have "n + MAP_BITS \<le> unat (block_count sb) + (MAP_BITS - 1)" using assms(2) MAP_BITS_pos by linarith
  from div_le_mono [OF this, of MAP_BITS]
  have "n div MAP_BITS < (unat (block_count sb) + (MAP_BITS - 1)) div MAP_BITS" by (simp add: div_add_self2)
  moreover have "unat (block_map_offset sb) + (unat (block_count sb) + (MAP_BITS - 1)) div MAP_BITS \<le> unat (inode_offset sb)"
    "unat (inode_offset sb) \<le> unat (datablock_offset sb)" "unat (datablock_offset sb) + unat (block_count sb) \<le> 2 ^ 29"
    using assms(1) by (simp_all add: sb_ok_def)
  ultimately have lt: "unat (block_map_offset sb) + n div MAP_BITS < unat (inode_offset sb)"
    "unat (block_map_offset sb) + n div MAP_BITS < unat (datablock_offset sb)"
    "unat (block_map_offset sb) + n div MAP_BITS < 2 ^ 29" by linarith+
  then show "map_block sb n < int (unat (inode_offset sb))" "map_block sb n < int (unat (datablock_offset sb))"
    unfolding map_block_def of_nat_less_iff by simp_all
  from int_less_power [OF lt(3)] show "blkno (map_block sb n)" by (simp add: map_block_def blkno_def)
  have "0 < unat (block_map_offset sb)" using assms(1) by (simp add: sb_ok_def word_less_nat_alt)
  then show "0 < map_block sb n" unfolding map_block_def by linarith
qed

lemma BLOCKID2MAPBLOCK_eq:
  assumes "sb_ok sb" "n < unat (block_count sb)"
  shows "BLOCKID2MAPBLOCK sb (int n) = map_block sb n"
proof -
  have "block_map_offset sb + of_int (int n div int MAP_BITS) = of_int (map_block sb n)"
    by (simp add: map_block_def zdiv_int [symmetric])
  moreover have "sint (of_int (map_block sb n) :: u32) = map_block sb n"
    using map_block_range [OF assms] by (intro sint_u32) (auto simp: blkno_def)
  ultimately show ?thesis by (simp add: BLOCKID2MAPBLOCK_def c_div_nonneg)
qed

lemma data_block_range:
  assumes "sb_ok sb" "n < unat (block_count sb)"
  shows "blkno (data_block sb n)" "int (unat (datablock_offset sb)) \<le> data_block sb n"
    "sint (datablock_offset sb + of_nat n) = data_block sb n"
proof -
  have "unat (datablock_offset sb) + unat (block_count sb) \<le> 2 ^ 29" using assms(1) by (simp add: sb_ok_def)
  with assms(2) have "unat (datablock_offset sb) + n < 2 ^ 29" by linarith
  then have lt: "data_block sb n < 2 ^ 29" unfolding data_block_def by (rule int_less_power)
  then show b: "blkno (data_block sb n)" by (simp add: data_block_def blkno_def)
  have "datablock_offset sb + of_nat n = of_int (data_block sb n)" by (simp add: data_block_def)
  then show "sint (datablock_offset sb + of_nat n) = data_block sb n"
    using lt sint_u32 [of "data_block sb n"] by (simp add: data_block_def)
qed (simp add: data_block_def)

lemma map_scan_spec:
  "map_scan d k n = Some j \<Longrightarrow> k \<le> j \<and> j < k + n \<and> \<not> map_bit d j \<and> (\<forall>i. k \<le> i \<and> i < j \<longrightarrow> map_bit d i)"
  "map_scan d k n = None \<Longrightarrow> k \<le> i \<Longrightarrow> i < k + n \<Longrightarrow> map_bit d i"
proof (induction d k n rule: map_scan.induct)
  case (2 d boffset n)
  {
    case 1
    with "2.IH"(1) show ?case by (cases "map_bit d boffset") (auto, metis Suc_leI le_neq_implies_less)
  next
    case 2
    then show ?case using "2.IH"(2) by (cases "i = boffset") (auto split: if_splits)
  }
qed auto

lemma superblock_update:
  fixes s :: "'a disk_state_scheme"
  assumes "start_sector sb = start_sector (superblock s)"
  shows "view (s\<lparr>superblock := sb\<rparr>) = view s" "pins (s\<lparr>superblock := sb\<rparr>) = pins s"
    "buf_inv (s\<lparr>superblock := sb\<rparr>) = buf_inv s"
  using lower_superblock [OF assms]
  by (auto simp: pins_def buf_inv_def view_def fun_eq_iff split: option.split)

definition alloc_post :: "'a disk_state_scheme \<Rightarrow> int \<Rightarrow> 'a disk_state_scheme \<Rightarrow> bool" where
  "alloc_post s b s' \<longleftrightarrow> dframe s s' \<and>
     (let sb = superblock s; n = unat (block_count sb) in
      (b = -1 \<and> view s' = view s \<and> superblock s' = sb \<and> (\<forall>m < n. used_in sb (view s) m)) \<or>
      (\<exists>m < n. b = data_block sb m \<and> \<not> used_in sb (view s) m \<and> (\<forall>k < m. used_in sb (view s) k) \<and>
         superblock s' = sb\<lparr>used_block := used_block sb + 1\<rparr> \<and>
         view s' = (view s)(map_block sb m := map_set (m mod MAP_BITS) (view s (map_block sb m)))))"

lemma block_alloc_loop_spec:
  assumes "buf_inv s" "sb_ok (superblock s)" "0 < spare s" "MAP_BITS dvd bblock" "n = unat (block_count (superblock s))"
    "\<forall>m < min n bblock. used_in (superblock s) (view s) m"
  shows "\<exists>b s'. block_alloc_loop n bblock s = Some (b, s') \<and> alloc_post s b s'"
  using assms
proof (induction n bblock s rule: block_alloc_loop.induct)
  case (1 n bblock s)
  let ?sb = "superblock s"
  show ?case
  proof (cases "bblock < n")
    case False
    then show ?thesis using 1(2-7) by (subst block_alloc_loop.simps) (simp add: alloc_post_def dframe_refl)
  next
    case True
    let ?b = "map_block ?sb bblock"
    have lt: "bblock < unat (block_count ?sb)" using True 1(6) by simp
    note mb = BLOCKID2MAPBLOCK_eq [OF 1(3) lt]
    note rg = map_block_range [OF 1(3) lt]
    obtain i s1 where o: "block_open ?b s = Some (i, s1)" "holds s ?b i s1" "view s1 = view s" "superblock s1 = ?sb"
      by (rule block_bracket [OF 1(2) rg(1) 1(4)])
    have cl: "map_bit (block_data_of i s1) k = used_in ?sb (view s) (bblock + k)" if "k < MAP_BITS" for k
    proof -
      obtain q where q: "bblock = MAP_BITS * q" using 1(5) by blast
      have "(bblock + k) div MAP_BITS = bblock div MAP_BITS" "(bblock + k) mod MAP_BITS = k" using that by (auto simp: q)
      then show ?thesis using map_bit_clip [OF that, of "block_data_of i s1"] holds_data [OF o(2)]
        by (simp add: used_in_def map_block_def o)
    qed
    show ?thesis
    proof (cases "map_scan (block_data_of i s1) 0 (min MAP_BITS (n - bblock))")
      case (Some k)
      note k = map_scan_spec(1) [OF Some]
      then have kb: "k < MAP_BITS" "bblock + k < n" by auto
      let ?d = "map_set k (block_data_of i s1)"
      note st = holds_store [OF o(2), of ?d]
      obtain s3 where s3: "block_close i (block_store i ?d s1) = Some s3" "dframe s s3"
        "view s3 = view (block_store i ?d s1)" "superblock s3 = superblock (block_store i ?d s1)"
        by (rule holds_close [OF st(1)])
      let ?sb' = "?sb\<lparr>used_block := used_block ?sb + 1\<rparr>"
      let ?s = "s3\<lparr>superblock := ?sb'\<rparr>"
      obtain q where q: "bblock = MAP_BITS * q" using 1(5) by blast
      have dm: "(bblock + k) div MAP_BITS = bblock div MAP_BITS" "(bblock + k) mod MAP_BITS = k" using kb(1) by (auto simp: q)
      then have mbk: "map_block ?sb (bblock + k) = ?b" by (simp add: map_block_def)
      have su: "superblock s3 = ?sb" by (simp add: s3 st o)
      have ss: "start_sector ?sb' = start_sector (superblock s3)" by (simp add: su)
      have db: "sint (datablock_offset ?sb + (of_nat bblock + of_nat k)) = data_block ?sb (bblock + k)"
        using data_block_range(3) [of ?sb "bblock + k"] 1(3,6) kb by simp
      have e: "block_alloc_loop n bblock s = Some (data_block ?sb (bblock + k), ?s)"
        using True db by (subst block_alloc_loop.simps) (simp add: mb su o(1,4) Some s3(1))
      have u: "used_in ?sb (view s) m" if "m < bblock + k" for m
      proof (cases "m < bblock")
        case True
        then show ?thesis using 1(7) \<open>bblock < n\<close> by simp
      next
        case False
        then show ?thesis using cl [of "m - bblock"] k kb that by auto
      qed
      have nu: "\<not> used_in ?sb (view s) (bblock + k)" using cl [OF kb(1)] k by simp
      have v: "view ?s = (view s)(?b := map_set k (view s ?b))"
        unfolding superblock_update [OF ss] s3(3) st(2) o(3) using map_set_clip [OF kb(1)] holds_data [OF o(2)]
        by (simp add: o)
      have "dframe s ?s" using s3(2) superblock_update [OF ss] by (simp add: dframe_def)
      then have "alloc_post s (data_block ?sb (bblock + k)) ?s"
        unfolding alloc_post_def Let_def using kb 1(6) nu u v mbk dm by (intro conjI disjI2 exI [of _ "bblock + k"]) auto
      with e show ?thesis by blast
    next
      case None
      obtain s2 where s2: "block_close i s1 = Some s2" "dframe s s2" "view s2 = view s1" "superblock s2 = superblock s1"
        by (rule holds_close [OF o(2)])
      have all: "used_in ?sb (view s) m" if "m < min n (bblock + MAP_BITS)" for m
      proof (cases "m < bblock")
        case True
        then show ?thesis using 1(7) that by simp
      next
        case False
        then show ?thesis using cl [of "m - bblock"] map_scan_spec(2) [OF None, of "m - bblock"] that by auto
      qed
      have "\<exists>b s'. block_alloc_loop n (bblock + MAP_BITS) s2 = Some (b, s') \<and> alloc_post s2 b s'"
        using 1(1) [OF True, of "(i, s1)" i s1 s2] o s2 1(2-6) all None
        by (simp add: mb dframeD)
      then obtain b s' where r: "block_alloc_loop n (bblock + MAP_BITS) s2 = Some (b, s')" "alloc_post s2 b s'" by blast
      have "block_alloc_loop n bblock s = Some (b, s')"
        using True o None s2 r by (subst block_alloc_loop.simps) (simp add: mb)
      moreover have "alloc_post s b s'"
        using r(2) s2 o dframe_trans [OF s2(2)] unfolding alloc_post_def by (simp add: Let_def)
      ultimately show ?thesis by blast
    qed
  qed
qed

lemma block_alloc_spec:
  assumes "buf_inv s" "sb_ok (superblock s)" "0 < spare s"
  obtains b s' where "block_alloc s = Some (b, s')" "alloc_post s b s'"
  using block_alloc_loop_spec [OF assms, of 0] by (auto simp: block_alloc_def)

lemma alloc_view_used:
  assumes "m < n" "n \<le> unat (block_count sb)"
  shows "used_in sb (V(map_block sb m := map_set (m mod MAP_BITS) (V (map_block sb m)))) k = (k = m \<or> used_in sb V k)"
proof -
  have "map_block sb k = map_block sb m \<Longrightarrow> k mod MAP_BITS = m mod MAP_BITS \<Longrightarrow> k = m"
    by (simp add: map_block_def) (metis mult_div_mod_eq)
  then show ?thesis by (auto simp: used_in_def)
qed

lemma free_view_used:
  "used_in sb (V(map_block sb m := map_clear (m mod MAP_BITS) (V (map_block sb m)))) k = (k \<noteq> m \<and> used_in sb V k)"
proof -
  have "map_block sb k = map_block sb m \<Longrightarrow> k mod MAP_BITS = m mod MAP_BITS \<Longrightarrow> k = m"
    by (simp add: map_block_def) (metis mult_div_mod_eq)
  then show ?thesis by (auto simp: used_in_def)
qed

lemma used_in_other: "V' (map_block sb k) = V (map_block sb k) \<Longrightarrow> used_in sb V' k = used_in sb V k"
  by (simp add: used_in_def)

lemma block_allocset_spec:
  assumes "buf_inv s" "sb_ok (superblock s)" "0 < spare s"
  obtains s' where "block_allocset v s = Some (-1, s')" "dframe s s'" "view s' = view s" "superblock s' = superblock s"
      "\<forall>m < unat (block_count (superblock s)). used_in (superblock s) (view s) m"
  | m s' where "m < unat (block_count (superblock s))" "\<not> used_in (superblock s) (view s) m"
      "block_allocset v s = Some (data_block (superblock s) m, s')" "dframe s s'"
      "superblock s' = (superblock s)\<lparr>used_block := used_block (superblock s) + 1\<rparr>"
      "view s' = (view s)(map_block (superblock s) m := map_set (m mod MAP_BITS) (view s (map_block (superblock s) m)),
         data_block (superblock s) m := block_clip (\<lambda>k. v))"
proof -
  obtain b s1 where a: "block_alloc s = Some (b, s1)" "alloc_post s b s1" by (rule block_alloc_spec [OF assms])
  then consider "b = -1" "view s1 = view s" "superblock s1 = superblock s" "dframe s s1"
      "\<forall>m < unat (block_count (superblock s)). used_in (superblock s) (view s) m"
    | m where "m < unat (block_count (superblock s))" "b = data_block (superblock s) m" "\<not> used_in (superblock s) (view s) m"
      "superblock s1 = (superblock s)\<lparr>used_block := used_block (superblock s) + 1\<rparr>" "dframe s s1"
      "view s1 = (view s)(map_block (superblock s) m := map_set (m mod MAP_BITS) (view s (map_block (superblock s) m)))"
    by (auto simp: alloc_post_def Let_def)
  then show thesis
  proof cases
    case 1
    then show thesis using that(1) [of s1] a by (simp add: block_allocset_def)
  next
    case (2 m)
    note rg = data_block_range [OF assms(2) 2(1)]
    obtain s2 where m: "block_memset b v s1 = Some s2" "dframe s1 s2" "superblock s2 = superblock s1"
      "view s2 = (view s1)(b := block_clip (\<lambda>k. v))"
      by (rule block_memset_spec [of s1 b v]) (use 2 rg assms dframeD(1,3) [OF 2(5)] in simp_all)
    have "0 \<le> b" using 2 by simp
    then have "block_allocset v s = Some (data_block (superblock s) m, s2)" using a m 2(2) by (simp add: block_allocset_def)
    from that(2) [OF 2(1,3) this dframe_trans [OF 2(5) m(2)]] show thesis using m 2 by simp
  qed
qed

lemma block_free_spec:
  assumes inv: "buf_inv s" and sb: "sb_ok (superblock s)" and sp: "0 < spare s"
    and m: "m < unat (block_count (superblock s))" "used_in (superblock s) (view s) m"
  obtains s' where "block_free (data_block (superblock s) m) s = Some s'" "dframe s s'"
    "superblock s' = (superblock s)\<lparr>used_block := used_block (superblock s) - 1\<rparr>"
    "view s' = (view s)(map_block (superblock s) m := map_clear (m mod MAP_BITS) (view s (map_block (superblock s) m)))"
proof -
  let ?sb = "superblock s" and ?b = "map_block (superblock s) m"
  have lt: "m < 2 ^ 31" using m(1) sb by (simp add: sb_ok_def)
  have n: "sint (of_int (data_block ?sb m) - datablock_offset ?sb) = int m"
    using sint_u32 [of "int m"] lt by (simp add: data_block_def)
  have dlt: "unat (datablock_offset ?sb) + m < 2 ^ 32" using sb m(1) by (simp add: sb_ok_def)
  have ge: "\<not> (of_int (data_block ?sb m) :: u32) < datablock_offset ?sb"
    unfolding data_block_def word_less_nat_alt using dlt
    by (simp add: unat_of_nat take_bit_nat_eq_self del: of_nat_add)
  have mb: "BLOCKID2MAPBLOCK ?sb (int m) = ?b" by (rule BLOCKID2MAPBLOCK_eq [OF sb m(1)])
  have mo: "BLOCKID2MAPOFFSET (int m) = int (m mod MAP_BITS)"
    by (simp add: BLOCKID2MAPOFFSET_def c_rem_nonneg zmod_int)
  obtain i s1 where o: "block_open ?b s = Some (i, s1)" "holds s ?b i s1" "view s1 = view s" "superblock s1 = ?sb"
    by (rule block_bracket [OF inv map_block_range(1) [OF sb m(1)] sp])
  have k: "m mod MAP_BITS < MAP_BITS" by simp
  have bit: "map_bit (block_data_of i s1) (m mod MAP_BITS)"
    using m(2) map_bit_clip [OF k, of "block_data_of i s1"] holds_data [OF o(2)] by (simp add: used_in_def o)
  let ?d = "map_clear (m mod MAP_BITS) (block_data_of i s1)"
  note st = holds_store [OF o(2), of ?d]
  obtain s3 where s3: "block_close i (block_store i ?d s1) = Some s3" "dframe s s3"
    "view s3 = view (block_store i ?d s1)" "superblock s3 = superblock (block_store i ?d s1)"
    by (rule holds_close [OF st(1)])
  have su: "superblock s3 = ?sb" by (simp add: s3 st o)
  let ?s = "s3\<lparr>superblock := ?sb\<lparr>used_block := used_block ?sb - 1\<rparr>\<rparr>"
  have ss: "start_sector (?sb\<lparr>used_block := used_block ?sb - 1\<rparr>) = start_sector (superblock s3)" by (simp add: su)
  have e: "block_free (data_block ?sb m) s = Some ?s"
    using ge by (simp add: block_free_def n mb mo o(1,4) bit s3(1) su Let_def)
  have v: "view ?s = (view s)(?b := map_clear (m mod MAP_BITS) (view s ?b))"
    unfolding superblock_update [OF ss] s3(3) st(2) o(3) using map_clear_clip [OF k] holds_data [OF o(2)] by (simp add: o)
  have "dframe s ?s" using s3(2) superblock_update [OF ss] by (simp add: dframe_def)
  from that [OF e this _ v] show thesis by simp
qed

section \<open>Flushing\<close>

lemma flush_buffers_simps [simp]:
  "blocks (flush_buffers bs s) = blocks s" "superblock (flush_buffers bs s) = superblock s"
  "policy (flush_buffers bs s) = policy s" "disk_state.more (flush_buffers bs s) = disk_state.more s"
  by (induction bs arbitrary: s) auto

lemma lower_flush_buffers:
  assumes "\<forall>x \<in> set bs. b_valid x \<longrightarrow> blkno (b_num x)" "blkno c" "distinct (map b_num (filter b_valid bs))"
  shows "lower (flush_buffers bs s) c =
    (case find (\<lambda>x. b_valid x \<and> b_num x = c) bs of Some x \<Rightarrow> block_clip (b_data x) | None \<Rightarrow> lower s c)"
  using assms
proof (induction bs arbitrary: s)
  case (Cons x bs)
  have "b_valid x \<Longrightarrow> b_num x = c \<Longrightarrow> find (\<lambda>x. b_valid x \<and> b_num x = c) bs = None"
    using Cons.prems(3) by (auto simp: find_None_iff image_iff)
  with Cons show ?case by (auto simp: lower_block_write split: option.split)
qed simp

lemma find_map_nth: "find P (map f xs) = map_option f (find (P \<circ> f) xs)"
  by (induction xs) auto

lemma find_valid_eq:
  assumes "length bs = BLOCK_CONCURRENCY"
  shows "find (\<lambda>x. b_valid x \<and> b_num x = c) bs = map_option (\<lambda>i. bs ! i) (block_find c bs)"
proof -
  have "bs = map ((!) bs) [0..<BLOCK_CONCURRENCY]" using assms map_nth [of bs] by simp
  then have "find (\<lambda>x. b_valid x \<and> b_num x = c) bs = find (\<lambda>x. b_valid x \<and> b_num x = c) (map ((!) bs) [0..<BLOCK_CONCURRENCY])"
    by (rule arg_cong)
  also have "\<dots> = map_option (\<lambda>i. bs ! i) (find ((\<lambda>x. b_valid x \<and> b_num x = c) \<circ> (!) bs) [0..<BLOCK_CONCURRENCY])"
    by (rule find_map_nth)
  finally show ?thesis by (simp add: block_find_def comp_def)
qed

lemma distinct_valid_nums:
  assumes "buf_inv s"
  shows "distinct (map b_num (filter b_valid (blocks s)))"
proof -
  have l: "length (blocks s) = BLOCK_CONCURRENCY" using assms by (simp add: buf_inv_def)
  have "filter b_valid (blocks s) = map ((!) (blocks s)) (filter (\<lambda>i. b_valid (blocks s ! i)) [0..<BLOCK_CONCURRENCY])"
    by (subst map_nth [symmetric]) (simp add: filter_map comp_def l)
  then have e: "map b_num (filter b_valid (blocks s)) =
      map (\<lambda>i. b_num (blocks s ! i)) (filter (\<lambda>i. b_valid (blocks s ! i)) [0..<BLOCK_CONCURRENCY])"
    by simp
  show ?thesis unfolding e distinct_map using assms by (auto simp: inj_on_def buf_inv_def)
qed

text \<open>After \<open>flush_block_cache\<close> the level below the buffers holds what the disk shows.\<close>

lemma flush_block_cache_lower:
  assumes "buf_inv s" "blkno c"
  shows "lower (flush_block_cache s) c = view s c"
proof -
  have l: "length (blocks s) = BLOCK_CONCURRENCY" using assms by (simp add: buf_inv_def)
  have "\<forall>x \<in> set (blocks s). b_valid x \<longrightarrow> blkno (b_num x)"
    using assms(1) by (auto simp: buf_inv_def in_set_conv_nth)
  from lower_flush_buffers [OF this assms(2) distinct_valid_nums [OF assms(1)], of s]
  show ?thesis using assms(2)
    by (cases "block_find c (blocks s)") (simp_all add: flush_block_cache_def find_valid_eq [OF l] view_def)
qed

lemma flush_block_cache_view:
  assumes "buf_inv s"
  shows "view (flush_block_cache s) = view s" "buf_inv (flush_block_cache s)" "pins (flush_block_cache s) = pins s"
proof -
  have b: "blocks (flush_block_cache s) = blocks s" by (simp add: flush_block_cache_def)
  then show "buf_inv (flush_block_cache s)" "pins (flush_block_cache s) = pins s"
    using assms by (simp_all add: buf_inv_def pins_def)
  show "view (flush_block_cache s) = view s"
  proof
    fix c
    show "view (flush_block_cache s) c = view s c"
      using flush_block_cache_lower [OF assms, of c] b by (auto simp: view_def split: option.split)
  qed
qed

text \<open>
  \<open>flush_fs_cache\<close> on the pages that hold the blocks of the file system: the card then holds
  what the cache held.
\<close>

lemma fold_swap_free:
  assumes "blkno c" "\<forall>b \<in> set bs. blkno b" "distinct bs"
    "\<forall>b \<in> insert c (set bs). FS_START_SECTOR \<le> block_sector sb b" "superblock s = sb"
  shows "sd_read (sd (fold fs_cache_swap_free (map (block_sector sb) bs) s)) (block_sector sb c) =
     (if c \<in> set bs then case cache_pages s (block_sector sb c) of Resident d \<Rightarrow> block_clip d | _ \<Rightarrow> sd_read (sd s) (block_sector sb c)
      else sd_read (sd s) (block_sector sb c))"
  using assms(2-5)
proof (induction bs arbitrary: s)
  case (Cons b bs)
  let ?s = "fs_cache_swap_free (block_sector sb b) s"
  have e: "superblock ?s = superblock s" "cache_pages ?s = cache_pages s"
    by (auto simp: fs_cache_swap_free_def split: page_slot.split)
  have st: "\<not> block_sector sb b < FS_START_SECTOR" using Cons.prems by (auto simp: not_less)
  have r: "sd_read (sd ?s) (block_sector sb c) =
      (if c = b then case cache_pages s (block_sector sb c) of Resident d \<Rightarrow> block_clip d | _ \<Rightarrow> sd_read (sd s) (block_sector sb c)
       else sd_read (sd s) (block_sector sb c))"
    using st Cons.prems assms(1) sd_read_write_other [of b c "sd s" sb]
    by (auto simp: fs_cache_swap_free_def split: page_slot.split)
  have "sd_read (sd (fold fs_cache_swap_free (map (block_sector sb) bs) ?s)) (block_sector sb c) =
     (if c \<in> set bs then case cache_pages ?s (block_sector sb c) of Resident d \<Rightarrow> block_clip d | _ \<Rightarrow> sd_read (sd ?s) (block_sector sb c)
      else sd_read (sd ?s) (block_sector sb c))"
    using Cons.IH [of ?s] Cons.prems e by simp
  then show ?case using Cons.prems(2) r by (cases "c = b") (simp_all add: e split: page_slot.split)
qed simp

lemma cache_evict_view:
  assumes "cache_evict (block_sector (superblock s) b) s = Some s'" "blkno b" "policy s = POLICY_WRITE_BACK"
  shows "view s' = view s"
proof -
  let ?t = "block_sector (superblock s) b"
  from assms(1) obtain d where d: "cache_pages s ?t = Resident d"
    by (auto simp: cache_evict_def split: page_slot.splits)
  have "ucast ?t * (512 :: u64) div 512 = ucast ?t"
  proof -
    have "uint ?t * 512 < 2 ^ 64" using uint_bounded [of ?t] by simp
    then show ?thesis
      by (simp add: word_uint_eq_iff uint_div uint_mult_lem unsigned_ucast_eq uint_word_ariths take_bit_eq_mod)
  qed
  moreover have "ucast (ucast ?t :: u64) = ?t" by (rule bit_word_eqI) (simp add: bit_ucast_iff)
  ultimately have "ucast (ucast ?t * (512 :: u64) div 512) = ?t" by simp
  then have s': "s' = s\<lparr>sd := sd_write (sd s) ?t d, cache_pages := (cache_pages s)(?t := Swapped)\<rparr>"
    using assms(1) d by (auto simp: cache_evict_def fs_cache_swap_alloc_def SECTOR_SIZE_def split: if_splits)
  have "lower s' c = lower s c" if "blkno c" for c
    using that assms(2,3) d block_sector_inj [of b c "superblock s"] sd_read_write_other [of b c "sd s" "superblock s" d]
    by (cases "c = b") (auto simp: s' lower_def Let_def split: page_slot.split)
  then show ?thesis by (auto simp: view_def s' fun_eq_iff split: option.split)
qed

section \<open>Properties\<close>

text \<open>
  C28. The buffers are transparent: as long as one of the eight is not in use, \<open>block_open\<close> returns a
  buffer that shows what the block holds and changes the content of no block, although it may write
  another block back and evict it; bytes stored through the pointer are what the block holds after
  \<open>block_close\<close>, all other blocks keep theirs, and the buffers in use before are in use as before.
\<close>

theorem block_buffers:
  assumes "buf_inv s" "blkno b" "0 < spare s"
  shows "\<exists>i s1. block_open b s = Some (i, s1) \<and> view s1 = view s \<and> block_clip (block_data_of i s1) = view s b \<and>
     (\<forall>d. \<exists>s2. block_close i (block_store i d s1) = Some s2 \<and> buf_inv s2 \<and> pins s2 = pins s \<and>
        view s2 = (view s)(b := block_clip d))"
proof -
  obtain i s1 where o: "block_open b s = Some (i, s1)" "holds s b i s1" "view s1 = view s"
    by (rule block_bracket [OF assms])
  have "\<exists>s2. block_close i (block_store i d s1) = Some s2 \<and> buf_inv s2 \<and> pins s2 = pins s \<and>
      view s2 = (view s)(b := block_clip d)" for d
    by (rule holds_close [OF holds_store(1) [OF o(2)], of d])
      (use holds_store(2) [OF o(2), of d] o(3) in \<open>auto simp: dframe_def\<close>)
  then show ?thesis using o holds_data [OF o(2)] by auto
qed

definition empty_block :: block_t where
  "empty_block = \<lparr>b_valid = False, b_num = 0, b_refcnt = 0, b_data = (\<lambda>k. 0)\<rparr>"

definition small_sb :: superblock_t where
  "small_sb = \<lparr>magic = 0xDF4C4459, fs_size = 0x100000, start_sector = 0x100000, root_inode = 1, block_map_offset = 1,
     inode_offset = 2, datablock_offset = 3, inode_count = 64, block_count = 16, used_inode = 0, used_block = 0\<rparr>"

definition empty_disk :: disk_state where
  "empty_disk = \<lparr>superblock = small_sb, sd = (\<lambda>t k. 0), policy = POLICY_WRITE_BACK, write_back_freq = 10,
     cache_pages = (\<lambda>t. Unmapped), blocks = replicate 8 empty_block\<rparr>"

lemma empty_disk_ok: "buf_inv empty_disk" "spare empty_disk = 8" "sb_ok (superblock empty_disk)"
  by (simp_all add: buf_inv_def empty_disk_def BLOCK_CONCURRENCY_def empty_block_def spare_def pins_def pin_of_def
      sb_ok_def small_sb_def MAP_BITS_def BLOCK_SIZE_def)

theorem block_buffers_witness:
  "\<exists>i s1. block_open 7 empty_disk = Some (i, s1) \<and> view s1 = view empty_disk \<and> block_clip (block_data_of i s1) = view empty_disk 7 \<and>
     (\<forall>d. \<exists>s2. block_close i (block_store i d s1) = Some s2 \<and> buf_inv s2 \<and> pins s2 = pins empty_disk \<and>
        view s2 = (view empty_disk)(7 := block_clip d))"
  by (rule block_buffers) (simp_all add: empty_disk_ok blkno_def)

text \<open>
  C29. \<open>block_alloc\<close> is first-fit and \<open>block_free\<close> undoes it: if some block is free, the call returns
  the first one, marks it, and changes nothing else but the count of used blocks; freeing it again
  restores the block map and the count. If all blocks are in use it returns \<open>-1\<close> and changes nothing.
\<close>

theorem block_alloc_first_fit:
  assumes "buf_inv s" "sb_ok (superblock s)" "0 < spare s"
  shows "\<exists>b s'. block_alloc s = Some (b, s') \<and>
    (let sb = superblock s; n = unat (block_count sb) in
     if \<forall>m < n. used_in sb (view s) m then b = -1 \<and> view s' = view s \<and> superblock s' = sb
     else \<exists>m < n. b = data_block sb m \<and> \<not> used_in sb (view s) m \<and> (\<forall>k < m. used_in sb (view s) k) \<and>
       (\<forall>k. used_in sb (view s') k = (k = m \<or> used_in sb (view s) k)) \<and>
       (\<forall>c. c \<noteq> map_block sb m \<longrightarrow> view s' c = view s c) \<and> used_block (superblock s') = used_block sb + 1 \<and>
       (\<exists>s''. block_free b s' = Some s'' \<and> view s'' = view s \<and> superblock s'' = sb))"
proof -
  let ?sb = "superblock s"
  obtain b s' where a: "block_alloc s = Some (b, s')" "alloc_post s b s'" by (rule block_alloc_spec [OF assms])
  show ?thesis
  proof (cases "\<forall>m < unat (block_count ?sb). used_in ?sb (view s) m")
    case True
    with a show ?thesis by (auto simp: alloc_post_def Let_def)
  next
    case False
    then obtain m where m: "m < unat (block_count ?sb)" "b = data_block ?sb m" "\<not> used_in ?sb (view s) m"
      "\<forall>k < m. used_in ?sb (view s) k" "superblock s' = ?sb\<lparr>used_block := used_block ?sb + 1\<rparr>" "dframe s s'"
      "view s' = (view s)(map_block ?sb m := map_set (m mod MAP_BITS) (view s (map_block ?sb m)))"
      using a(2) by (auto simp: alloc_post_def Let_def)
    have same: "map_block (superblock s') = map_block ?sb" "used_in (superblock s') = used_in ?sb"
      "data_block (superblock s') = data_block ?sb" "block_count (superblock s') = block_count ?sb"
      by (simp_all add: m(5) map_block_def used_in_def data_block_def fun_eq_iff)
    have u: "used_in ?sb (view s') k = (k = m \<or> used_in ?sb (view s) k)" for k
      unfolding m(7) by (rule alloc_view_used [OF m(1) order_refl])
    have sb: "sb_ok (superblock s')" using assms(2) by (simp add: m(5) sb_ok_def)
    have um: "m < unat (block_count (superblock s'))" "used_in (superblock s') (view s') m" using m(1) u by (simp_all add: same)
    have sp: "0 < spare s'" using assms(3) dframeD(3) [OF m(6)] by simp
    obtain s'' where f: "block_free (data_block (superblock s') m) s' = Some s''" "dframe s' s''"
      "superblock s'' = (superblock s')\<lparr>used_block := used_block (superblock s') - 1\<rparr>"
      "view s'' = (view s')(map_block (superblock s') m := map_clear (m mod MAP_BITS) (view s' (map_block (superblock s') m)))"
      by (rule block_free_spec [OF dframeD(1) [OF m(6)] sb sp um])
    have "map_clear k (map_set k d) = d" if "\<not> map_bit d k" for k d
      using that by (auto simp: map_clear_def map_set_def map_bit_iff fun_eq_iff intro!: bit_word_eqI
          simp: bit_and_iff bit_or_iff bit_not_iff bit_exp_iff)
    then have "view s'' = view s" using m(3) by (simp add: f(4) same m(7) used_in_def)
    moreover have "superblock s'' = ?sb" by (simp add: f(3) m(5))
    ultimately show ?thesis using False a(1) m u f(1) same by (auto simp: Let_def intro!: exI [of _ m])
  qed
qed

theorem block_alloc_first_fit_witness:
  "\<exists>b s'. block_alloc empty_disk = Some (b, s') \<and>
    (let sb = superblock empty_disk; n = unat (block_count sb) in
     if \<forall>m < n. used_in sb (view empty_disk) m then b = -1 \<and> view s' = view empty_disk \<and> superblock s' = sb
     else \<exists>m < n. b = data_block sb m \<and> \<not> used_in sb (view empty_disk) m \<and> (\<forall>k < m. used_in sb (view empty_disk) k) \<and>
       (\<forall>k. used_in sb (view s') k = (k = m \<or> used_in sb (view empty_disk) k)) \<and>
       (\<forall>c. c \<noteq> map_block sb m \<longrightarrow> view s' c = view empty_disk c) \<and> used_block (superblock s') = used_block sb + 1 \<and>
       (\<exists>s''. block_free b s' = Some s'' \<and> view s'' = view empty_disk \<and> superblock s'' = sb))"
  by (rule block_alloc_first_fit) (simp_all add: empty_disk_ok)


definition dirty_disk :: disk_state where
  "dirty_disk = empty_disk\<lparr>blocks := \<lparr>b_valid = True, b_num = 7, b_refcnt = 0, b_data = (\<lambda>k. 65)\<rparr> # replicate 7 empty_block\<rparr>"




end
