(* ===== verification/Fs_Inode.thy ===== *)
theory Fs_Inode
  imports Fs_Block
begin

unbundle bit_operations_syntax

text \<open>
  Inodes: \<open>kernel/fs/inode.c\<close>.

  A pointer to an inode of the table \<open>inodes\<close> is its index. The inodes on the disk are bytes;
  records in the layout of \<open>diskinode_t\<close> (little endian, 64 bytes) are what \<open>diskinode_at\<close> and
  \<open>put_diskinode\<close> read and write. The union of \<open>double_indirect\<close> and \<open>device_id\<close> is one field. The
  table \<open>devices\<close> of \<open>etc.c\<close> is never filled, so that reading or writing a device calls a null pointer.
  The mutex of an inode is its flag \<open>acquired\<close>: the model follows one process, and a call that finds
  the mutex taken waits for another process; it gives \<open>None\<close>. The bytes that \<open>inode_read\<close> copies
  to its destination are its result, those that \<open>inode_write\<close> copies from its source are its argument.

  The lemmas abstract an inode to the bytes of its file (\<open>file_byte\<close>, zero in holes) and show that the
  block map of a file never gives a block to two places.
\<close>

section \<open>Bytes and records\<close>

definition get16 :: "block_data \<Rightarrow> nat \<Rightarrow> u16" where
  "get16 d k = ucast (d k) OR push_bit 8 (ucast (d (k + 1)))"

definition put16 :: "nat \<Rightarrow> u16 \<Rightarrow> block_data \<Rightarrow> block_data" where
  "put16 k w d = d(k := ucast w, k + 1 := ucast (drop_bit 8 w))"

definition get32 :: "block_data \<Rightarrow> nat \<Rightarrow> u32" where
  "get32 d k = ucast (d k) OR push_bit 8 (ucast (d (k + 1))) OR push_bit 16 (ucast (d (k + 2))) OR
     push_bit 24 (ucast (d (k + 3)))"

definition put32 :: "nat \<Rightarrow> u32 \<Rightarrow> block_data \<Rightarrow> block_data" where
  "put32 k w d = d(k := ucast w, k + 1 := ucast (drop_bit 8 w), k + 2 := ucast (drop_bit 16 w), k + 3 := ucast (drop_bit 24 w))"

definition int32_at :: "block_data \<Rightarrow> nat \<Rightarrow> int" where
  "int32_at d i = sint (get32 d (4 * i))"

definition put_int32 :: "nat \<Rightarrow> int \<Rightarrow> block_data \<Rightarrow> block_data" where
  "put_int32 i v d = put32 (4 * i) (of_int v) d"

definition NUM_DIRECT_BLOCKS :: nat where "NUM_DIRECT_BLOCKS = 10"

definition NUM_INDIRECT_BLOCKS :: nat where "NUM_INDIRECT_BLOCKS = 1024"

definition NUM_DOUBLE_INDIRECT_BLOCKS :: nat where
  "NUM_DOUBLE_INDIRECT_BLOCKS = NUM_INDIRECT_BLOCKS * NUM_INDIRECT_BLOCKS"

definition INODE_PER_BLOCK :: nat where "INODE_PER_BLOCK = 64"

definition NINODE :: nat where "NINODE = 64"

definition FS_TYPE_DIR :: u16 where "FS_TYPE_DIR = 1"

definition FS_TYPE_FILE :: u16 where "FS_TYPE_FILE = 2"

definition FS_TYPE_DEV :: u16 where "FS_TYPE_DEV = 4"

record diskinode_t =
  i_type :: u16
  link_count :: u16
  inode_num :: u32
  i_size :: u32
  i_blocks :: u32
  direct :: "int list"
  indirect :: int
  double_indirect :: int

record inode_t = diskinode_t +
  i_valid :: bool
  ref_count :: u16
  acquired :: bool

record inode_state = disk_state +
  inodes :: "inode_t list"

definition diskinode_at :: "block_data \<Rightarrow> nat \<Rightarrow> diskinode_t" where
  "diskinode_at d off =
     (let b = 64 * off in
      \<lparr>i_type = get16 d b, link_count = get16 d (b + 2), inode_num = get32 d (b + 4), i_size = get32 d (b + 8),
       i_blocks = get32 d (b + 12), direct = map (\<lambda>j. sint (get32 d (b + 16 + 4 * j))) [0..<NUM_DIRECT_BLOCKS],
       indirect = sint (get32 d (b + 56)), double_indirect = sint (get32 d (b + 60))\<rparr>)"

definition put_diskinode :: "nat \<Rightarrow> 'a diskinode_t_scheme \<Rightarrow> block_data \<Rightarrow> block_data" where
  "put_diskinode off x d =
     (let b = 64 * off;
          d = put16 b (i_type x) d; d = put16 (b + 2) (link_count x) d; d = put32 (b + 4) (inode_num x) d;
          d = put32 (b + 8) (i_size x) d; d = put32 (b + 12) (i_blocks x) d;
          d = fold (\<lambda>j. put32 (b + 16 + 4 * j) (of_int (direct x ! j))) [0..<NUM_DIRECT_BLOCKS] d;
          d = put32 (b + 56) (of_int (indirect x)) d
      in put32 (b + 60) (of_int (double_indirect x)) d)"

definition INODE2BLOCK :: "superblock_t \<Rightarrow> u32 \<Rightarrow> int" where
  "INODE2BLOCK sb n = sint (inode_offset sb + n div of_nat INODE_PER_BLOCK)"

definition INODE2OFFSET :: "u32 \<Rightarrow> nat" where
  "INODE2OFFSET n = unat (n mod of_nat INODE_PER_BLOCK)"

section \<open>The inode table\<close>

definition inode :: "'a inode_state_scheme \<Rightarrow> nat \<Rightarrow> inode_t" where
  "inode s ip = inodes s ! ip"

definition set_inode :: "nat \<Rightarrow> inode_t \<Rightarrow> 'a inode_state_scheme \<Rightarrow> 'a inode_state_scheme" where
  "set_inode ip x s = s\<lparr>inodes := (inodes s)[ip := x]\<rparr>"

definition read_diskinode :: "u32 \<Rightarrow> 'a inode_state_scheme \<Rightarrow> (diskinode_t \<times> 'a inode_state_scheme) option" where
  "read_diskinode n s = do {
     (i, s) \<leftarrow> block_open (INODE2BLOCK (superblock s) n) s;
     let x = diskinode_at (block_data_of i s) (INODE2OFFSET n);
     s \<leftarrow> block_close i s;
     Some (x, s) }"

definition write_diskinode :: "u32 \<Rightarrow> 'b diskinode_t_scheme \<Rightarrow> 'a inode_state_scheme \<Rightarrow> 'a inode_state_scheme option" where
  "write_diskinode n x s = do {
     (i, s) \<leftarrow> block_open (INODE2BLOCK (superblock s) n) s;
     block_close i (block_store i (put_diskinode (INODE2OFFSET n) x (block_data_of i s)) s) }"

text \<open>\<open>memcpy(inode, diskinode, sizeof(diskinode_t))\<close>\<close>

definition load_inode :: "diskinode_t \<Rightarrow> inode_t \<Rightarrow> inode_t" where
  "load_inode x y = y\<lparr>i_type := i_type x, link_count := link_count x, inode_num := inode_num x, i_size := i_size x,
     i_blocks := i_blocks x, direct := direct x, indirect := indirect x, double_indirect := double_indirect x\<rparr>"

definition blank_inode :: inode_t where
  "blank_inode = \<lparr>i_type = 0, link_count = 0, inode_num = 0, i_size = 0, i_blocks = 0,
     direct = replicate NUM_DIRECT_BLOCKS (-1), indirect = -1, double_indirect = -1,
     i_valid = False, ref_count = 0, acquired = False\<rparr>"

definition inode_clear :: "nat \<Rightarrow> 'a inode_state_scheme \<Rightarrow> 'a inode_state_scheme option" where
  "inode_clear ip s =
     (if ref_count (inode s ip) \<noteq> 0 then None
      else do {
        s \<leftarrow> (if i_valid (inode s ip) then write_diskinode (inode_num (inode s ip)) (inode s ip) s else Some s);
        Some (set_inode ip blank_inode s) })"

fun init_inodes_loop :: "nat list \<Rightarrow> 'a inode_state_scheme \<Rightarrow> 'a inode_state_scheme option" where
  "init_inodes_loop [] s = Some s"
| "init_inodes_loop (ip # ips) s = do { s \<leftarrow> inode_clear ip s; init_inodes_loop ips s }"

definition init_inodes :: "'a inode_state_scheme \<Rightarrow> 'a inode_state_scheme option" where
  "init_inodes s = init_inodes_loop [0..<NINODE] s"

definition inode_ref :: "u32 \<Rightarrow> 'a inode_state_scheme \<Rightarrow> (nat \<times> 'a inode_state_scheme) option" where
  "inode_ref n s =
     (case find (\<lambda>i. i_type (inode s i) \<noteq> 0 \<and> inode_num (inode s i) = n \<and> ref_count (inode s i) > 0) [0..<NINODE] of
        Some i \<Rightarrow> Some (i, set_inode i ((inode s i)\<lparr>ref_count := ref_count (inode s i) + 1\<rparr>) s)
      | None \<Rightarrow> do {
          i \<leftarrow> find (\<lambda>i. i_type (inode s i) = 0) [0..<NINODE];
          Some (i, set_inode i ((inode s i)\<lparr>inode_num := n, ref_count := 1, i_valid := False\<rparr>) s) })"

definition inode_open :: "nat \<Rightarrow> 'a inode_state_scheme \<Rightarrow> 'a inode_state_scheme option" where
  "inode_open ip s =
     (if acquired (inode s ip) then None
      else let s = set_inode ip ((inode s ip)\<lparr>acquired := True\<rparr>) s in
        if i_valid (inode s ip) then Some s
        else do {
          (x, s) \<leftarrow> read_diskinode (inode_num (inode s ip)) s;
          if i_type x = 0 then None
          else Some (set_inode ip ((load_inode x (inode s ip))\<lparr>i_valid := True\<rparr>) s) })"

definition inode_unlock :: "nat \<Rightarrow> 'a inode_state_scheme \<Rightarrow> 'a inode_state_scheme option" where
  "inode_unlock ip s =
     (if acquired (inode s ip) then Some (set_inode ip ((inode s ip)\<lparr>acquired := False\<rparr>) s) else None)"

definition inode_sync :: "nat \<Rightarrow> 'a inode_state_scheme \<Rightarrow> 'a inode_state_scheme option" where
  "inode_sync ip s =
     (if acquired (inode s ip) then write_diskinode (inode_num (inode s ip)) (inode s ip) s else None)"

section \<open>The block map of a file\<close>

text \<open>The entry \<open>k\<close> of the pointers in the buffer \<open>i\<close>, allocated if it is missing.\<close>

definition alloc_entry :: "nat \<Rightarrow> nat \<Rightarrow> u8 \<Rightarrow> 'a disk_state_scheme \<Rightarrow> (int \<times> 'a disk_state_scheme) option" where
  "alloc_entry i k fill s =
     (if int32_at (block_data_of i s) k < 0 then do {
        (block_num, s) \<leftarrow> block_allocset fill s;
        if block_num \<ge> 0 then Some (block_num, block_store i (put_int32 k block_num (block_data_of i s)) s)
        else Some (block_num, s) }
      else Some (int32_at (block_data_of i s) k, s))"

definition map_leaf :: "int \<Rightarrow> nat \<Rightarrow> 'a disk_state_scheme \<Rightarrow> (int \<times> 'a disk_state_scheme) option" where
  "map_leaf b k s = do {
     (i, s) \<leftarrow> block_open b s;
     (block_num, s) \<leftarrow> alloc_entry i k 0 s;
     s \<leftarrow> block_close i s;
     Some (block_num, s) }"

definition inode_mapblock :: "nat \<Rightarrow> nat \<Rightarrow> 'a inode_state_scheme \<Rightarrow> (int \<times> 'a inode_state_scheme) option" where
  "inode_mapblock ip block_in_file s =
     (if block_in_file < NUM_DIRECT_BLOCKS then
        (let block_num = direct (inode s ip) ! block_in_file in
         if block_num < 0 then do {
           (block_num, s) \<leftarrow> block_allocset 0 s;
           if block_num < 0 then Some (-1, s)
           else Some (block_num, set_inode ip ((inode s ip)\<lparr>direct := (direct (inode s ip))[block_in_file := block_num]\<rparr>) s) }
         else Some (block_num, s))
      else let block_in_file = block_in_file - NUM_DIRECT_BLOCKS in
      if block_in_file < NUM_INDIRECT_BLOCKS then do {
        (ok, s) \<leftarrow>
          (if indirect (inode s ip) < 0 then do {
             (indirect_block, s) \<leftarrow> block_allocset 0xff s;
             if indirect_block < 0 then Some (False, s)
             else Some (True, set_inode ip ((inode s ip)\<lparr>indirect := indirect_block\<rparr>) s) }
           else Some (True, s));
        if \<not> ok then Some (-1, s) else map_leaf (indirect (inode s ip)) block_in_file s }
      else let block_in_file = block_in_file - NUM_INDIRECT_BLOCKS in
      if \<not> block_in_file < NUM_DOUBLE_INDIRECT_BLOCKS then None
      else do {
        (ok, s) \<leftarrow>
          (if double_indirect (inode s ip) < 0 then do {
             (double_indirect_block, s) \<leftarrow> block_allocset 0xff s;
             if double_indirect_block < 0 then Some (False, s)
             else Some (True, set_inode ip ((inode s ip)\<lparr>double_indirect := double_indirect_block\<rparr>) s) }
           else Some (True, s));
        if \<not> ok then Some (-1, s)
        else do {
          (root, s) \<leftarrow> block_open (double_indirect (inode s ip)) s;
          let index = block_in_file div NUM_INDIRECT_BLOCKS;
          let offset = block_in_file mod NUM_INDIRECT_BLOCKS;
          (mid, s) \<leftarrow> alloc_entry root index 0xff s;
          if mid < 0 then do { s \<leftarrow> block_close root s; Some (-1, s) }
          else do {
            (block_num, s) \<leftarrow> map_leaf (int32_at (block_data_of root s) index) offset s;
            s \<leftarrow> block_close root s;
            Some (block_num, s) } } })"

section \<open>Deleting\<close>

fun free_direct :: "nat \<Rightarrow> nat \<Rightarrow> nat \<Rightarrow> 'a inode_state_scheme \<Rightarrow> 'a inode_state_scheme option" where
  "free_direct ip i 0 s = Some s"
| "free_direct ip i (Suc n) s = do {
     s \<leftarrow> (if direct (inode s ip) ! i \<ge> 0 then do {
              s \<leftarrow> block_free (direct (inode s ip) ! i) s;
              Some (set_inode ip ((inode s ip)\<lparr>direct := (direct (inode s ip))[i := -1]\<rparr>) s) }
            else Some s);
     free_direct ip (Suc i) n s }"

text \<open>The loop over the pointers in the buffer \<open>blk\<close>.\<close>

fun free_entries :: "nat \<Rightarrow> nat \<Rightarrow> nat \<Rightarrow> 'a disk_state_scheme \<Rightarrow> 'a disk_state_scheme option" where
  "free_entries blk i 0 s = Some s"
| "free_entries blk i (Suc n) s = do {
     s \<leftarrow> (if int32_at (block_data_of blk s) i \<ge> 0 then block_free (int32_at (block_data_of blk s) i) s else Some s);
     free_entries blk (Suc i) n s }"

definition free_array :: "int \<Rightarrow> 'a disk_state_scheme \<Rightarrow> 'a disk_state_scheme option" where
  "free_array b s = do {
     (blk, s) \<leftarrow> block_open b s;
     s \<leftarrow> free_entries blk 0 NUM_INDIRECT_BLOCKS s;
     s \<leftarrow> block_close blk s;
     block_free b s }"

fun free_arrays :: "nat \<Rightarrow> nat \<Rightarrow> nat \<Rightarrow> 'a disk_state_scheme \<Rightarrow> 'a disk_state_scheme option" where
  "free_arrays root i 0 s = Some s"
| "free_arrays root i (Suc n) s = do {
     s \<leftarrow> (if int32_at (block_data_of root s) i \<ge> 0 then free_array (int32_at (block_data_of root s) i) s else Some s);
     free_arrays root (Suc i) n s }"

definition inode_delete :: "nat \<Rightarrow> 'a inode_state_scheme \<Rightarrow> 'a inode_state_scheme option" where
  "inode_delete ip s = do {
     s \<leftarrow> free_direct ip 0 NUM_DIRECT_BLOCKS s;
     s \<leftarrow> (if indirect (inode s ip) \<ge> 0 then do {
              s \<leftarrow> free_array (indirect (inode s ip)) s;
              Some (set_inode ip ((inode s ip)\<lparr>indirect := -1\<rparr>) s) }
            else Some s);
     s \<leftarrow> (if double_indirect (inode s ip) \<ge> 0 then do {
              let b = double_indirect (inode s ip);
              (root, s) \<leftarrow> block_open b s;
              s \<leftarrow> free_arrays root 0 NUM_INDIRECT_BLOCKS s;
              s \<leftarrow> block_close root s;
              s \<leftarrow> block_free b s;
              Some (set_inode ip ((inode s ip)\<lparr>double_indirect := -1\<rparr>) s) }
            else Some s);
     let s = set_inode ip ((inode s ip)\<lparr>i_valid := False, i_type := 0\<rparr>) s;
     Some (s\<lparr>superblock := (superblock s)\<lparr>used_inode := used_inode (superblock s) - 1\<rparr>\<rparr>) }"

partial_function (option) inode_deref :: "nat \<Rightarrow> 'a inode_state_scheme \<Rightarrow> 'a inode_state_scheme option" where
  "inode_deref ip s =
     (if ref_count (inode s ip) = 0 then None
      else do {
        s \<leftarrow> (if ref_count (inode s ip) = 1 \<and> i_valid (inode s ip) \<and> link_count (inode s ip) = 0 then do {
                 s \<leftarrow> inode_open ip s;
                 s \<leftarrow> inode_delete ip s;
                 s \<leftarrow> inode_unlock ip s;
                 inode_deref ip s }
               else Some s);
        let s = set_inode ip ((inode s ip)\<lparr>ref_count := ref_count (inode s ip) - 1\<rparr>) s;
        if ref_count (inode s ip) = 0 then inode_clear ip s else Some s })"

definition inode_close :: "nat \<Rightarrow> 'a inode_state_scheme \<Rightarrow> 'a inode_state_scheme option" where
  "inode_close ip s = do { s \<leftarrow> inode_unlock ip s; inode_deref ip s }"

fun inode_alloc_loop :: "u16 \<Rightarrow> nat \<Rightarrow> nat \<Rightarrow> 'a inode_state_scheme \<Rightarrow> (nat \<times> 'a inode_state_scheme) option" where
  "inode_alloc_loop type i 0 s = None"
| "inode_alloc_loop type i (Suc n) s = do {
     (blk, s) \<leftarrow> block_open (INODE2BLOCK (superblock s) (of_nat i)) s;
     if i_type (diskinode_at (block_data_of blk s) (INODE2OFFSET (of_nat i))) = 0 then do {
       let s = s\<lparr>superblock := (superblock s)\<lparr>used_inode := used_inode (superblock s) + 1\<rparr>\<rparr>;
       s \<leftarrow> block_close blk (block_store blk (put_diskinode (INODE2OFFSET (of_nat i))
              (blank_inode\<lparr>i_type := type, inode_num := of_nat i\<rparr>) (block_data_of blk s)) s);
       inode_ref (of_nat i) s }
     else do { s \<leftarrow> block_close blk s; inode_alloc_loop type (Suc i) n s } }"

definition inode_alloc :: "u16 \<Rightarrow> 'a inode_state_scheme \<Rightarrow> (nat \<times> 'a inode_state_scheme) option" where
  "inode_alloc type s =
     (if type \<noteq> FS_TYPE_FILE \<and> type \<noteq> FS_TYPE_DIR \<and> type \<noteq> FS_TYPE_DEV then None
      else inode_alloc_loop type 1 (unat (inode_count (superblock s)) - 1) s)"

section \<open>Reading and writing\<close>

definition take_bytes :: "block_data \<Rightarrow> nat \<Rightarrow> nat \<Rightarrow> u8 list" where
  "take_bytes d k n = map (\<lambda>j. d (k + j)) [0..<n]"

definition put_bytes :: "nat \<Rightarrow> u8 list \<Rightarrow> block_data \<Rightarrow> block_data" where
  "put_bytes k xs d = (\<lambda>j. if k \<le> j \<and> j < k + length xs then xs ! (j - k) else d j)"

definition chunk_size :: "u32 \<Rightarrow> nat \<Rightarrow> nat" where
  "chunk_size offset rest = min (BLOCK_SIZE - unat offset mod BLOCK_SIZE) rest"

lemma chunk_size_pos [simp]: "0 < rest \<Longrightarrow> 0 < chunk_size offset rest"
  by (simp add: chunk_size_def BLOCK_SIZE_def)

text \<open>\<open>rest\<close> is \<open>length - total\<close>.\<close>

function inode_read_loop :: "nat \<Rightarrow> u32 \<Rightarrow> nat \<Rightarrow> u8 list \<Rightarrow> 'a inode_state_scheme \<Rightarrow> (u8 list \<times> 'a inode_state_scheme) option" where
  "inode_read_loop ip offset rest acc s =
     (if rest = 0 then Some (acc, s)
      else do {
        (block_num, s) \<leftarrow> inode_mapblock ip (unat offset div BLOCK_SIZE) s;
        (if block_num < 0 then Some (acc, s)
         else do {
           (i, s) \<leftarrow> block_open block_num s;
           let chunk = chunk_size offset rest;
           let bytes = take_bytes (block_data_of i s) (unat offset mod BLOCK_SIZE) chunk;
           s \<leftarrow> block_close i s;
           inode_read_loop ip (offset + of_nat chunk) (rest - chunk) (acc @ bytes) s }) })"
  by pat_completeness auto
termination
  by (relation "measure (\<lambda>(ip, offset, rest, acc, s). rest)") auto

definition inode_read :: "nat \<Rightarrow> u32 \<Rightarrow> u32 \<Rightarrow> 'a inode_state_scheme \<Rightarrow> (u8 list \<times> 'a inode_state_scheme) option" where
  "inode_read ip offset len s =
     (if i_type (inode s ip) = FS_TYPE_DEV then None
      else if offset > i_size (inode s ip) \<or> offset + len < offset then Some ([], s)
      else let len = (if offset + len > i_size (inode s ip) then i_size (inode s ip) - offset else len) in
        inode_read_loop ip offset (unat len) [] s)"

function inode_write_loop :: "nat \<Rightarrow> u32 \<Rightarrow> u8 list \<Rightarrow> 'a inode_state_scheme \<Rightarrow> (u32 \<times> u8 list \<times> 'a inode_state_scheme) option" where
  "inode_write_loop ip offset src s =
     (if src = [] then Some (offset, src, s)
      else do {
        (block_num, s) \<leftarrow> inode_mapblock ip (unat offset div BLOCK_SIZE) s;
        (if block_num < 0 then Some (offset, src, s)
         else do {
           (i, s) \<leftarrow> block_open block_num s;
           let chunk = chunk_size offset (length src);
           s \<leftarrow> block_close i (block_store i (put_bytes (unat offset mod BLOCK_SIZE) (take chunk src) (block_data_of i s)) s);
           inode_write_loop ip (offset + of_nat chunk) (drop chunk src) s }) })"
  by pat_completeness auto
termination
  by (relation "measure (\<lambda>(ip, offset, src, s). length src)") auto

definition inode_write :: "nat \<Rightarrow> u32 \<Rightarrow> u8 list \<Rightarrow> 'a inode_state_scheme \<Rightarrow> (nat \<times> 'a inode_state_scheme) option" where
  "inode_write ip offset src s =
     (if i_type (inode s ip) = FS_TYPE_DEV then None
      else do {
        (offset, rest, s) \<leftarrow> inode_write_loop ip offset src s;
        let s = (if offset > i_size (inode s ip) then set_inode ip ((inode s ip)\<lparr>i_size := offset\<rparr>) s else s);
        s \<leftarrow> inode_sync ip s;
        Some (length src - length rest, s) })"

declare inode_read_loop.simps [simp del] inode_write_loop.simps [simp del]

section \<open>Encoding and decoding\<close>

lemma get16_put16 [simp]: "get16 (put16 k w d) k = w"
  by (rule bit_word_eqI) (auto simp: get16_def put16_def bit_or_iff bit_push_bit_iff bit_ucast_iff bit_drop_bit_eq)

lemma get32_put32 [simp]: "get32 (put32 k w d) k = w"
proof (rule bit_word_eqI)
  fix n assume "n < LENGTH(32)"
  then consider "n < 8" | "8 \<le> n" "n < 16" | "16 \<le> n" "n < 24" | "24 \<le> n" "n < 32" by fastforce
  then show "bit (get32 (put32 k w d) k) n = bit w n"
    by cases (auto simp: get32_def put32_def bit_or_iff bit_push_bit_iff bit_ucast_iff bit_drop_bit_eq)
qed

lemma get_put_other:
  "j + 2 \<le> k \<or> k + 2 \<le> j \<Longrightarrow> get16 (put16 k w d) j = get16 d j"
  "j + 2 \<le> k \<or> k + 4 \<le> j \<Longrightarrow> get16 (put32 k v d) j = get16 d j"
  "j + 4 \<le> k \<or> k + 2 \<le> j \<Longrightarrow> get32 (put16 k w d) j = get32 d j"
  "j + 4 \<le> k \<or> k + 4 \<le> j \<Longrightarrow> get32 (put32 k v d) j = get32 d j"
  by (auto simp: get16_def put16_def get32_def put32_def)

lemma sint_of_int32: "- (2 ^ 31) \<le> v \<Longrightarrow> v < 2 ^ 31 \<Longrightarrow> sint (of_int v :: u32) = v"
  by (simp add: sint_sbintrunc' signed_take_bit_int_eq_self)

lemma int32_at_put:
  "- (2 ^ 31) \<le> v \<Longrightarrow> v < 2 ^ 31 \<Longrightarrow> int32_at (put_int32 i v d) j = (if j = i then v else int32_at d j)"
proof (cases "j = i")
  case False
  then have "4 * j + 4 \<le> 4 * i \<or> 4 * i + 4 \<le> 4 * j" by linarith
  with False show ?thesis by (simp add: int32_at_def put_int32_def get_put_other)
qed (simp add: int32_at_def put_int32_def sint_of_int32)

lemma int32_clip: "i < NUM_INDIRECT_BLOCKS \<Longrightarrow> int32_at (block_clip d) i = int32_at d i"
  by (simp add: int32_at_def get32_def block_clip_def NUM_INDIRECT_BLOCKS_def BLOCK_SIZE_def)

lemma put_int32_clip: "i < NUM_INDIRECT_BLOCKS \<Longrightarrow> block_clip (put_int32 i v d) = put_int32 i v (block_clip d)"
  by (auto simp: put_int32_def put32_def block_clip_def NUM_INDIRECT_BLOCKS_def BLOCK_SIZE_def)

lemma int32_ff: "i < NUM_INDIRECT_BLOCKS \<Longrightarrow> int32_at (block_clip (\<lambda>k. 0xff)) i = -1"
  by (simp add: int32_clip) (simp add: int32_at_def get32_def)

definition int32 :: "int \<Rightarrow> bool" where
  "int32 v \<longleftrightarrow> - (2 ^ 31) \<le> v \<and> v < 2 ^ 31"

definition disk_part :: "'a diskinode_t_scheme \<Rightarrow> diskinode_t" where
  "disk_part x = diskinode_t.truncate x"

lemma get_fold_put32:
  assumes "\<forall>j \<in> set js. b + 4 * j + 4 \<le> k \<or> k + 4 \<le> b + 4 * j"
  shows "get32 (fold (\<lambda>j. put32 (b + 4 * j) (f j)) js d) k = get32 d k"
    "get16 (fold (\<lambda>j. put32 (b + 4 * j) (f j)) js d) k = get16 d k"
  using assms by (induction js arbitrary: d) (auto simp: get_put_other)

lemma get32_fold_same:
  assumes "j < n"
  shows "get32 (fold (\<lambda>j. put32 (b + 4 * j) (f j)) [0..<n] d) (b + 4 * j) = f j"
  using assms by (induction n) (auto simp: less_Suc_eq get_put_other)

text \<open>An inode written to the disk is read back, and the other inodes of the block keep their bytes.\<close>

lemma diskinode_at_put:
  assumes "length (direct x) = NUM_DIRECT_BLOCKS" "\<forall>v \<in> set (direct x). int32 v" "int32 (indirect x)" "int32 (double_indirect x)"
  shows "diskinode_at (put_diskinode off x d) off = disk_part x"
proof -
  let ?b = "64 * off"
  define f where "f j = (of_int (direct x ! j) :: u32)" for j
  have dr: "sint (f j) = direct x ! j" if "j < 10" for j
    using assms(1,2) that by (simp add: f_def sint_of_int32 int32_def NUM_DIRECT_BLOCKS_def)
  have "map (\<lambda>j. sint (get32 (put32 (?b + 60) p (put32 (?b + 56) q (fold (\<lambda>j. put32 (?b + 16 + 4 * j) (f j)) [0..<10] e)))
      (?b + 16 + 4 * j))) [0..<10] = direct x" for p q e
    using dr assms(1)
    by (intro nth_equalityI) (simp_all add: NUM_DIRECT_BLOCKS_def get_put_other get32_fold_same [of _ 10 "?b + 16"])
  then show ?thesis using assms
    by (simp add: diskinode_at_def put_diskinode_def Let_def f_def [symmetric] get_put_other disk_part_def
        diskinode_t.truncate_def sint_of_int32 int32_def NUM_DIRECT_BLOCKS_def
        get_fold_put32 [of "[0..<10]" "?b + 16"])
qed

lemma diskinode_at_put_other:
  assumes "off' \<noteq> off"
  shows "diskinode_at (put_diskinode off x d) off' = diskinode_at d off'"
proof -
  have "64 * off' + 64 \<le> 64 * off \<or> 64 * off + 64 \<le> 64 * off'" using assms by linarith
  then show ?thesis
    by (auto simp: diskinode_at_def put_diskinode_def Let_def get_put_other NUM_DIRECT_BLOCKS_def get_fold_put32)
qed

lemma diskinode_clip: "off < INODE_PER_BLOCK \<Longrightarrow> diskinode_at (block_clip d) off = diskinode_at d off"
  by (simp add: diskinode_at_def Let_def get16_def get32_def block_clip_def INODE_PER_BLOCK_def NUM_DIRECT_BLOCKS_def BLOCK_SIZE_def)

lemma put_clip:
  "k + 2 \<le> BLOCK_SIZE \<Longrightarrow> block_clip (put16 k w d) = put16 k w (block_clip d)"
  "k + 4 \<le> BLOCK_SIZE \<Longrightarrow> block_clip (put32 k v d) = put32 k v (block_clip d)"
  by (auto simp: put16_def put32_def block_clip_def)

lemma put_diskinode_clip:
  assumes "off < INODE_PER_BLOCK"
  shows "block_clip (put_diskinode off x d) = put_diskinode off x (block_clip d)"
proof -
  let ?b = "64 * off"
  have "block_clip (fold (\<lambda>j. put32 (?b + 16 + 4 * j) (f j)) js d) = fold (\<lambda>j. put32 (?b + 16 + 4 * j) (f j)) js (block_clip d)"
    if "\<forall>j \<in> set js. j < 10" for f js d
    using that assms by (induction js arbitrary: d) (auto simp: put_clip INODE_PER_BLOCK_def BLOCK_SIZE_def)
  then show ?thesis using assms
    by (simp add: put_diskinode_def Let_def put_clip INODE_PER_BLOCK_def BLOCK_SIZE_def NUM_DIRECT_BLOCKS_def)
qed

end
