(* ===== verification/Fs_File.thy ===== *)
theory Fs_File
  imports Fs_Inode
begin

text \<open>
  The block map of a file as a tree of positions, its invariant, and what the operations of
  \<open>Fs_Inode\<close> do to the bytes of a file: the refinement of \<open>inode_mapblock\<close>, \<open>inode_read\<close> and
  \<open>inode_write\<close> by reading and writing a sequence of bytes.
\<close>

section \<open>Positions\<close>

datatype pos = Direct nat | Ind | IndE nat | DInd | Mid nat | Leaf nat nat

fun valid_pos :: "pos \<Rightarrow> bool" where
  "valid_pos (Direct k) = (k < NUM_DIRECT_BLOCKS)"
| "valid_pos Ind = True"
| "valid_pos (IndE k) = (k < NUM_INDIRECT_BLOCKS)"
| "valid_pos DInd = True"
| "valid_pos (Mid i) = (i < NUM_INDIRECT_BLOCKS)"
| "valid_pos (Leaf i j) = (i < NUM_INDIRECT_BLOCKS \<and> j < NUM_INDIRECT_BLOCKS)"

fun data_pos :: "pos \<Rightarrow> bool" where
  "data_pos (Direct k) = True"
| "data_pos (IndE k) = True"
| "data_pos (Leaf i j) = True"
| "data_pos p = False"

text \<open>The entry \<open>k\<close> of the block of pointers at a position.\<close>

fun child :: "pos \<Rightarrow> nat \<Rightarrow> pos" where
  "child Ind k = IndE k"
| "child DInd k = Mid k"
| "child (Mid i) k = Leaf i k"
| "child p k = p"

definition entry :: "(int \<Rightarrow> block_data) \<Rightarrow> int \<Rightarrow> nat \<Rightarrow> int" where
  "entry V b k = (if b < 0 then -1 else int32_at (V b) k)"

fun slot :: "(int \<Rightarrow> block_data) \<Rightarrow> 'a diskinode_t_scheme \<Rightarrow> pos \<Rightarrow> int" where
  "slot V x (Direct k) = direct x ! k"
| "slot V x Ind = indirect x"
| "slot V x (IndE k) = entry V (indirect x) k"
| "slot V x DInd = double_indirect x"
| "slot V x (Mid i) = entry V (double_indirect x) i"
| "slot V x (Leaf i j) = entry V (entry V (double_indirect x) i) j"

definition fpos :: "nat \<Rightarrow> pos" where
  "fpos k = (if k < NUM_DIRECT_BLOCKS then Direct k
     else let k = k - NUM_DIRECT_BLOCKS in
       if k < NUM_INDIRECT_BLOCKS then IndE k
       else let k = k - NUM_INDIRECT_BLOCKS in Leaf (k div NUM_INDIRECT_BLOCKS) (k mod NUM_INDIRECT_BLOCKS))"

definition taken :: "superblock_t \<Rightarrow> (int \<Rightarrow> block_data) \<Rightarrow> int \<Rightarrow> bool" where
  "taken sb V b \<longleftrightarrow> (\<exists>m < unat (block_count sb). b = data_block sb m \<and> used_in sb V m)"

definition fblocks :: "(int \<Rightarrow> block_data) \<Rightarrow> 'a diskinode_t_scheme \<Rightarrow> int set" where
  "fblocks V x = {slot V x p | p. valid_pos p \<and> 0 \<le> slot V x p}"

definition file_inv :: "superblock_t \<Rightarrow> (int \<Rightarrow> block_data) \<Rightarrow> 'a diskinode_t_scheme \<Rightarrow> bool" where
  "file_inv sb V x \<longleftrightarrow> length (direct x) = NUM_DIRECT_BLOCKS \<and>
     (\<forall>p. valid_pos p \<and> 0 \<le> slot V x p \<longrightarrow> taken sb V (slot V x p)) \<and>
     (\<forall>p q. valid_pos p \<and> valid_pos q \<and> 0 \<le> slot V x p \<and> slot V x p = slot V x q \<longrightarrow> p = q)"

text \<open>The bytes of a file; a block that is not mapped counts as zeros.\<close>

definition file_byte :: "(int \<Rightarrow> block_data) \<Rightarrow> 'a diskinode_t_scheme \<Rightarrow> nat \<Rightarrow> u8" where
  "file_byte V x n =
     (let b = slot V x (fpos (n div BLOCK_SIZE)) in if b < 0 then 0 else V b (n mod BLOCK_SIZE))"

lemma file_invD:
  assumes "file_inv sb V x"
  shows "length (direct x) = NUM_DIRECT_BLOCKS"
    "valid_pos p \<Longrightarrow> 0 \<le> slot V x p \<Longrightarrow> taken sb V (slot V x p)"
    "valid_pos p \<Longrightarrow> valid_pos q \<Longrightarrow> 0 \<le> slot V x p \<Longrightarrow> slot V x p = slot V x q \<Longrightarrow> p = q"
  using assms by (auto simp: file_inv_def)

lemma fpos_valid: "k < 2 ^ 20 \<Longrightarrow> valid_pos (fpos k)" "data_pos (fpos k)"
  by (auto simp: fpos_def Let_def NUM_DIRECT_BLOCKS_def NUM_INDIRECT_BLOCKS_def less_mult_imp_div_less)

fun block_of_pos :: "pos \<Rightarrow> nat" where
  "block_of_pos (Direct k) = k"
| "block_of_pos (IndE k) = NUM_DIRECT_BLOCKS + k"
| "block_of_pos (Leaf i j) = NUM_DIRECT_BLOCKS + NUM_INDIRECT_BLOCKS + (i * NUM_INDIRECT_BLOCKS + j)"
| "block_of_pos p = 0"

lemma block_of_fpos [simp]: "block_of_pos (fpos k) = k"
  by (simp add: fpos_def Let_def)

lemma fpos_inj: "fpos k = fpos j \<Longrightarrow> k = j"
  by (metis block_of_fpos)

lemma data_block_int32:
  assumes "sb_ok sb" "m < unat (block_count sb)"
  shows "- (2 ^ 31) \<le> data_block sb m" "data_block sb m < 2 ^ 31"
proof -
  show "- (2 ^ 31) \<le> data_block sb m" by (rule order_trans [OF _ data_block_nonneg(1)]) simp
  have "data_block sb m < 2 ^ 29" using data_block_range(1) [OF assms] by (simp add: blkno_def)
  then show "data_block sb m < 2 ^ 31" by (rule less_le_trans) simp
qed

lemma taken_not_map:
  assumes "sb_ok sb" "taken sb V b" "m < unat (block_count sb)"
  shows "b \<noteq> map_block sb m" "0 \<le> b"
proof -
  obtain k where k: "k < unat (block_count sb)" "b = data_block sb k" using assms(2) by (auto simp: taken_def)
  show "b \<noteq> map_block sb m"
    using data_block_range(2) [OF assms(1) k(1)] map_block_range(4) [OF assms(1,3)] k(2) by simp
  show "0 \<le> b" using k(2) by (simp add: data_block_def)
qed

lemma taken_not_fresh:
  assumes "taken sb V b" "\<not> used_in sb V m"
  shows "b \<noteq> data_block sb m"
  using assms by (auto simp: taken_def data_block_def)

text \<open>The slots depend on the pointer blocks of the file only.\<close>

lemma slot_cong:
  assumes "\<And>p. valid_pos p \<Longrightarrow> \<not> data_pos p \<Longrightarrow> 0 \<le> slot V x p \<Longrightarrow> V' (slot V x p) = V (slot V x p)" "valid_pos q"
  shows "slot V' x q = slot V x q"
proof -
  have i: "entry V' (indirect x) k = entry V (indirect x) k" for k
    using assms(1) [of Ind] by (auto simp: entry_def)
  have d: "entry V' (double_indirect x) k = entry V (double_indirect x) k" for k
    using assms(1) [of DInd] by (auto simp: entry_def)
  have m: "entry V' (entry V (double_indirect x) j) k = entry V (entry V (double_indirect x) j) k"
    if "j < NUM_INDIRECT_BLOCKS" for j k
    using assms(1) [of "Mid j"] that by (auto simp: entry_def [of V' "entry V (double_indirect x) j"] entry_def [of V "entry V (double_indirect x) j"])
  show ?thesis using assms(2) i d m by (cases q) auto
qed

lemma slot_child:
  assumes "p = Ind \<or> p = DInd \<or> (\<exists>i. p = Mid i)"
  shows "slot V x (child p k) = entry V (slot V x p) k"
  using assms by auto

lemma not_child_Direct: "p = Ind \<or> p = DInd \<or> (\<exists>i. p = Mid i) \<Longrightarrow> child p k \<noteq> Direct j"
  by auto

section \<open>Growing a file by one block\<close>

definition framed :: "superblock_t \<Rightarrow> (int \<Rightarrow> block_data) \<Rightarrow> 'a diskinode_t_scheme \<Rightarrow> (int \<Rightarrow> block_data) \<Rightarrow> 'a diskinode_t_scheme \<Rightarrow> bool" where
  "framed sb V x V' x' \<longleftrightarrow> file_inv sb V' x' \<and>
     (\<forall>p. valid_pos p \<and> 0 \<le> slot V x p \<longrightarrow> slot V' x' p = slot V x p) \<and>
     (\<forall>k < unat (block_count sb). used_in sb V k \<longrightarrow> used_in sb V' k) \<and>
     (\<forall>b. taken sb V b \<and> b \<notin> fblocks V x \<longrightarrow> V' b = V b) \<and>
     (\<forall>b \<in> fblocks V' x'. b \<in> fblocks V x \<or> \<not> taken sb V b) \<and>
     (\<forall>b. b < int (unat (datablock_offset sb)) \<and> (\<forall>k < unat (block_count sb). b \<noteq> map_block sb k) \<longrightarrow> V' b = V b)"

definition grown :: "superblock_t \<Rightarrow> (int \<Rightarrow> block_data) \<Rightarrow> 'a diskinode_t_scheme \<Rightarrow> (int \<Rightarrow> block_data) \<Rightarrow> 'a diskinode_t_scheme \<Rightarrow> bool" where
  "grown sb V x V' x' \<longleftrightarrow> framed sb V x V' x' \<and> (\<forall>n < 2 ^ 32. file_byte V' x' n = file_byte V x n)"

lemma grown_refl: "file_inv sb V x \<Longrightarrow> grown sb V x V x"
  by (simp add: grown_def framed_def)

lemma taken_mono: "taken sb V b \<Longrightarrow> \<forall>k < unat (block_count sb). used_in sb V k \<longrightarrow> used_in sb V' k \<Longrightarrow> taken sb V' b"
  by (auto simp: taken_def)

lemma framed_trans:
  assumes "framed sb V x V' x'" "framed sb V' x' V'' x''"
  shows "framed sb V x V'' x''"
proof -
  note a = assms [unfolded framed_def]
  have "V'' b = V b" if "taken sb V b" "b \<notin> fblocks V x" for b
  proof -
    have "b \<notin> fblocks V' x'" using a(1) that by blast
    moreover have "taken sb V' b" using a(1) that taken_mono by blast
    ultimately show ?thesis using a that by simp
  qed
  moreover have "b \<in> fblocks V x \<or> \<not> taken sb V b" if "b \<in> fblocks V'' x''" for b
    using a that taken_mono [of sb V b V'] by blast
  ultimately show ?thesis using a unfolding framed_def by simp
qed

lemma grown_trans: "grown sb V x V' x' \<Longrightarrow> grown sb V' x' V'' x'' \<Longrightarrow> grown sb V x V'' x''"
  using framed_trans by (auto simp: grown_def)

lemma extend_grown:
  assumes inv: "file_inv sb V x" and sb: "sb_ok sb" and m: "m < unat (block_count sb)" "\<not> used_in sb V m"
    and p: "valid_pos p" "slot V x p < 0"
    and len: "length (direct x') = NUM_DIRECT_BLOCKS"
    and slots: "\<And>q. valid_pos q \<Longrightarrow> slot V' x' q = (if q = p then data_block sb m else slot V x q)"
    and used: "\<And>k. k < unat (block_count sb) \<Longrightarrow> used_in sb V' k = (k = m \<or> used_in sb V k)"
    and data: "\<And>q. valid_pos q \<Longrightarrow> data_pos q \<Longrightarrow> 0 \<le> slot V x q \<Longrightarrow> V' (slot V x q) = V (slot V x q)"
    and zero: "data_pos p \<Longrightarrow> V' (data_block sb m) = (\<lambda>k. 0)"
    and frame: "\<And>b. b \<noteq> map_block sb m \<Longrightarrow> b \<noteq> data_block sb m \<Longrightarrow> b \<notin> fblocks V x \<Longrightarrow> V' b = V b"
  shows "grown sb V x V' x'"
proof -
  note i = file_invD [OF inv]
  have fresh: "slot V x q \<noteq> data_block sb m" if "valid_pos q" for q
    using i(2) [OF that] taken_not_fresh [of sb V _ m] m(2) by (cases "0 \<le> slot V x q") (auto simp: data_block_def)
  have d0: "0 \<le> data_block sb m" by simp
  have tk: "taken sb V' (slot V' x' q)" if "valid_pos q" "0 \<le> slot V' x' q" for q
    using that i(2) [OF that(1)] slots [OF that(1)] used m(1) by (auto simp: taken_def split: if_splits)
  have inj: "q = r" if "valid_pos q" "valid_pos r" "0 \<le> slot V' x' q" "slot V' x' q = slot V' x' r" for q r
    using that slots [OF that(1)] slots [OF that(2)] fresh [OF that(1)] fresh [OF that(2)] i(3) [OF that(1,2)]
    by (auto split: if_splits)
  have "file_inv sb V' x'" unfolding file_inv_def using len tk inj by blast
  moreover have "slot V' x' q = slot V x q" if "valid_pos q" "0 \<le> slot V x q" for q
    using slots [OF that(1)] that p by auto
  moreover have "file_byte V' x' n = file_byte V x n" if "n < 2 ^ 32" for n
  proof -
    let ?q = "fpos (n div BLOCK_SIZE)"
    have "n div BLOCK_SIZE < 2 ^ 20" using that by (simp add: BLOCK_SIZE_def less_mult_imp_div_less)
    then have q: "valid_pos ?q" "data_pos ?q" by (simp_all add: fpos_valid)
    show ?thesis
    proof (cases "?q = p")
      case True
      then show ?thesis using slots [OF q(1)] p(2) zero q(2) d0 by (simp add: file_byte_def Let_def)
    next
      case False
      then show ?thesis using slots [OF q(1)] data [OF q] by (simp add: file_byte_def Let_def)
    qed
  qed
  moreover have "V' b = V b" if "taken sb V b" "b \<notin> fblocks V x" for b
    using frame taken_not_map(1) [OF sb that(1) m(1)] taken_not_fresh [OF that(1) m(2)] that(2) by blast
  moreover have "b \<in> fblocks V x \<or> \<not> taken sb V b" if b: "b \<in> fblocks V' x'" for b
  proof -
    obtain q where q: "valid_pos q" "b = slot V' x' q" "0 \<le> b" using b by (auto simp: fblocks_def)
    show ?thesis
    proof (cases "q = p")
      case True
      then show ?thesis using q slots [OF q(1)] taken_not_fresh [of sb V b m] m(2) by auto
    next
      case False
      then show ?thesis using q slots [OF q(1)] by (auto simp: fblocks_def)
    qed
  qed
  moreover have "V' b = V b" if "b < int (unat (datablock_offset sb))" "\<forall>k < unat (block_count sb). b \<noteq> map_block sb k" for b
  proof (rule frame)
    show "b \<noteq> map_block sb m" using that(2) m(1) by blast
    show "b \<noteq> data_block sb m" using that(1) by (auto simp: data_block_def)
    show "b \<notin> fblocks V x"
    proof
      assume "b \<in> fblocks V x"
      then have "taken sb V b" using i(2) by (auto simp: fblocks_def)
      then show False using that(1) by (auto simp: taken_def data_block_def)
    qed
  qed
  ultimately show ?thesis unfolding grown_def framed_def using used by blast
qed

text \<open>What allocating block \<open>m\<close> and filling it with \<open>F\<close> does to the blocks.\<close>

definition alloc_view :: "superblock_t \<Rightarrow> nat \<Rightarrow> block_data \<Rightarrow> (int \<Rightarrow> block_data) \<Rightarrow> int \<Rightarrow> block_data" where
  "alloc_view sb m F V = V(map_block sb m := map_set (m mod MAP_BITS) (V (map_block sb m)), data_block sb m := F)"

lemma alloc_view:
  assumes sb: "sb_ok sb" and m: "m < unat (block_count sb)" "\<not> used_in sb V m"
  shows "k < unat (block_count sb) \<Longrightarrow> used_in sb (alloc_view sb m F V) k = (k = m \<or> used_in sb V k)"
    "alloc_view sb m F V (data_block sb m) = F"
    "taken sb V b \<Longrightarrow> alloc_view sb m F V b = V b"
    "b \<noteq> map_block sb m \<Longrightarrow> b \<noteq> data_block sb m \<Longrightarrow> alloc_view sb m F V b = V b"
proof -
  assume k: "k < unat (block_count sb)"
  have "map_block sb k \<noteq> data_block sb m"
    using map_block_range(4) [OF sb k] data_block_range(2) [OF sb m(1)] by linarith
  then have "used_in sb (alloc_view sb m F V) k = used_in sb (V(map_block sb m := map_set (m mod MAP_BITS) (V (map_block sb m)))) k"
    by (simp add: alloc_view_def used_in_def)
  then show "used_in sb (alloc_view sb m F V) k = (k = m \<or> used_in sb V k)"
    using alloc_view_used [OF m(1) order_refl] by simp
next
  assume "taken sb V b"
  then show "alloc_view sb m F V b = V b"
    using taken_not_map(1) [OF sb _ m(1)] taken_not_fresh [of sb V b m] m(2) by (simp add: alloc_view_def)
qed (auto simp: alloc_view_def)

lemma grown_inode:
  assumes inv: "file_inv sb V x" and sb: "sb_ok sb" and m: "m < unat (block_count sb)" "\<not> used_in sb V m"
    and p: "valid_pos p" "slot V x p < 0"
    and F: "data_pos p \<Longrightarrow> F = (\<lambda>k. 0)" "\<not> data_pos p \<Longrightarrow> F = block_clip (\<lambda>k. 0xff)"
    and x': "(\<exists>k. p = Direct k \<and> x' = x\<lparr>direct := (direct x)[k := data_block sb m]\<rparr>) \<or>
      (p = Ind \<and> x' = x\<lparr>indirect := data_block sb m\<rparr>) \<or> (p = DInd \<and> x' = x\<lparr>double_indirect := data_block sb m\<rparr>)"
  shows "grown sb V x (alloc_view sb m F V) x'"
proof (rule extend_grown [OF inv sb m p])
  note av = alloc_view [OF sb m, where F = F]
  note i = file_invD [OF inv]
  let ?V = "alloc_view sb m F V"
  have keep: "?V (slot V x q) = V (slot V x q)" if "valid_pos q" "0 \<le> slot V x q" for q
    using av(3) i(2) [OF that] by simp
  show "length (direct x') = NUM_DIRECT_BLOCKS" using x' i(1) by auto
  show "used_in sb ?V k = (k = m \<or> used_in sb V k)" if "k < unat (block_count sb)" for k by (rule av(1) [OF that])
  show "?V (slot V x q) = V (slot V x q)" if "valid_pos q" "data_pos q" "0 \<le> slot V x q" for q
    using keep that by blast
  show "?V (data_block sb m) = (\<lambda>k. 0)" if "data_pos p" using av(2) F(1) that by simp
  show "?V b = V b" if "b \<noteq> map_block sb m" "b \<noteq> data_block sb m" for b using av(4) that by blast
  fix q assume q: "valid_pos q"
  have e: "slot ?V x q = slot V x q" by (rule slot_cong) (use keep q in auto)
  have d0: "\<not> data_block sb m < 0" by simp
  have ff: "F = block_clip (\<lambda>k. 0xff) \<Longrightarrow> k < NUM_INDIRECT_BLOCKS \<Longrightarrow> entry ?V (data_block sb m) k = -1" for k
    using d0 av(2) int32_ff by (simp add: entry_def)
  from x' show "slot ?V x' q = (if q = p then data_block sb m else slot V x q)"
  proof (elim disjE exE conjE)
    fix k assume "p = Direct k" "x' = x\<lparr>direct := (direct x)[k := data_block sb m]\<rparr>"
    then show ?thesis using e q p(1) i(1) by (cases q) auto
  next
    assume a: "p = Ind" "x' = x\<lparr>indirect := data_block sb m\<rparr>"
    then have "F = block_clip (\<lambda>k. 0xff)" "indirect x < 0" using F(2) p(2) by auto
    then show ?thesis using e q a ff by (cases q) (auto simp: entry_def [of V "indirect x"])
  next
    assume a: "p = DInd" "x' = x\<lparr>double_indirect := data_block sb m\<rparr>"
    then have "F = block_clip (\<lambda>k. 0xff)" "double_indirect x < 0" using F(2) p(2) by auto
    moreover have "entry W (-1) k = -1" for W k by (simp add: entry_def)
    ultimately show ?thesis using e q a ff by (cases q) (auto simp: entry_def [of V "double_indirect x"])
  qed
qed

lemma grown_child:
  assumes inv: "file_inv sb V x" and sb: "sb_ok sb" and m: "m < unat (block_count sb)" "\<not> used_in sb V m"
    and P: "P = Ind \<or> P = DInd \<or> (\<exists>i. P = Mid i)" "valid_pos P" "0 \<le> slot V x P"
    and k: "k < NUM_INDIRECT_BLOCKS" "slot V x (child P k) < 0"
    and F: "data_pos (child P k) \<Longrightarrow> F = (\<lambda>k. 0)" "\<not> data_pos (child P k) \<Longrightarrow> F = block_clip (\<lambda>k. 0xff)"
  shows "grown sb V x ((alloc_view sb m F V)(slot V x P := put_int32 k (data_block sb m) (V (slot V x P)))) x"
proof (rule extend_grown [OF inv sb m _ k(2)])
  note av = alloc_view [OF sb m, where F = F]
  note i = file_invD [OF inv]
  let ?b = "data_block sb m" and ?c = "slot V x P"
  let ?V = "(alloc_view sb m F V)(?c := put_int32 k ?b (V ?c))"
  have tc: "taken sb V ?c" by (rule i(2) [OF P(2,3)])
  have keep: "?V (slot V x q) = (if q = P then put_int32 k ?b (V ?c) else V (slot V x q))" if "valid_pos q" "0 \<le> slot V x q" for q
    using av(3) i(2) [OF that] i(3) [OF that(1) P(2) that(2)] by auto
  have bc: "?b \<noteq> ?c" using taken_not_fresh [OF tc m(2)] by auto
  have b32: "- (2 ^ 31) \<le> ?b" "?b < 2 ^ 31" by (rule data_block_int32 [OF sb m(1)])+
  show "valid_pos (child P k)" using P k by auto
  show "length (direct x) = NUM_DIRECT_BLOCKS" by (rule i(1))
  show "used_in sb ?V j = (j = m \<or> used_in sb V j)" if "j < unat (block_count sb)" for j
    using av(1) [OF that] taken_not_map(1) [OF sb tc that] by (simp add: used_in_def)
  show "?V (slot V x q) = V (slot V x q)" if "valid_pos q" "data_pos q" "0 \<le> slot V x q" for q
    using keep [OF that(1,3)] that(2) P(1) by auto
  show "?V ?b = (\<lambda>k. 0)" if "data_pos (child P k)" using av(2) F(1) [OF that] bc by simp
  show "?V b = V b" if "b \<noteq> map_block sb m" "b \<noteq> ?b" "b \<notin> fblocks V x" for b
    using av(4) [OF that(1,2)] that(3) P by (auto simp: fblocks_def)
  have en: "entry ?V (slot V x q) j = (if q = P \<and> j = k then ?b else entry V (slot V x q) j)" if "valid_pos q" for q j
    using keep [OF that] P(3) int32_at_put [OF b32] by (auto simp: entry_def)
  have b0: "\<not> ?b < 0" by simp
  have ff: "F = block_clip (\<lambda>k. 0xff) \<Longrightarrow> j < NUM_INDIRECT_BLOCKS \<Longrightarrow> entry ?V ?b j = -1" for j
    using b0 bc av(2) int32_ff by (simp add: entry_def)
  fix q assume q: "valid_pos q"
  show "slot ?V x q = (if q = child P k then ?b else slot V x q)"
  proof (cases q)
    case (IndE j)
    then show ?thesis using en [of Ind j] P(1) by auto
  next
    case (Mid j)
    then show ?thesis using en [of DInd j] P(1) q by auto
  next
    case (Leaf l j)
    have em: "entry ?V (double_indirect x) l = (if DInd = P \<and> l = k then ?b else entry V (double_indirect x) l)"
      using en [of DInd l] by simp
    show ?thesis
    proof (cases "P = DInd \<and> l = k")
      case True
      then have "F = block_clip (\<lambda>k. 0xff)" "entry V (double_indirect x) k < 0" using F(2) k(2) by auto
      then show ?thesis using Leaf True em ff [of j] q by (simp add: entry_def [of V "entry V (double_indirect x) k"])
    next
      case False
      then show ?thesis using Leaf em en [of "Mid l" j] q P(1) by auto
    qed
  qed (use P(1) in auto)
qed

section \<open>The operations on the map\<close>

lemma used_block_simps [simp]:
  "map_block (sb\<lparr>used_block := u\<rparr>) = map_block sb" "data_block (sb\<lparr>used_block := u\<rparr>) = data_block sb"
  "used_in (sb\<lparr>used_block := u\<rparr>) = used_in sb" "sb_ok (sb\<lparr>used_block := u\<rparr>) = sb_ok sb"
  "taken (sb\<lparr>used_block := u\<rparr>) = taken sb" "file_inv (sb\<lparr>used_block := u\<rparr>) V (x :: 'a diskinode_t_scheme) = file_inv sb V x"
  by (simp_all add: map_block_def data_block_def used_in_def sb_ok_def taken_def file_inv_def fun_eq_iff)

definition same_sb :: "'a disk_state_scheme \<Rightarrow> 'b disk_state_scheme \<Rightarrow> bool" where
  "same_sb s s' \<longleftrightarrow> (\<exists>u. superblock s' = (superblock s)\<lparr>used_block := u\<rparr>)"

definition disk_full :: "superblock_t \<Rightarrow> (int \<Rightarrow> block_data) \<Rightarrow> bool" where
  "disk_full sb V \<longleftrightarrow> (\<forall>m < unat (block_count sb). used_in sb V m)"

lemma same_sb_refl: "superblock s' = superblock s \<Longrightarrow> same_sb s s'"
  unfolding same_sb_def by (rule exI [of _ "used_block (superblock s)"]) simp

lemma same_sb_trans: "same_sb s s' \<Longrightarrow> same_sb s' s'' \<Longrightarrow> same_sb s s''"
  by (auto simp: same_sb_def)

lemma same_sb_simps:
  assumes "same_sb s s'"
  shows "map_block (superblock s') = map_block (superblock s)" "data_block (superblock s') = data_block (superblock s)"
    "used_in (superblock s') = used_in (superblock s)" "sb_ok (superblock s') = sb_ok (superblock s)"
    "taken (superblock s') = taken (superblock s)" "block_count (superblock s') = block_count (superblock s)"
    "file_inv (superblock s') V (x :: 'a diskinode_t_scheme) = file_inv (superblock s) V x"
    "datablock_offset (superblock s') = datablock_offset (superblock s)"
    "inode_offset (superblock s') = inode_offset (superblock s)"
    "disk_full (superblock s') = disk_full (superblock s)"
    "grown (superblock s') V x V' x' = grown (superblock s) V x V' x'"
  using assms by (auto simp: same_sb_def disk_full_def grown_def framed_def fun_eq_iff)

lemma zero_block: "block_clip (\<lambda>k. 0) = (\<lambda>k. 0)"
  by (auto simp: block_clip_def)

lemma allocset_cases:
  assumes "buf_inv s" "sb_ok (superblock s)" "0 < spare s"
  obtains s' where "block_allocset v s = Some (-1, s')" "dframe s s'" "view s' = view s" "same_sb s s'"
      "disk_full (superblock s) (view s)"
  | m s' where "m < unat (block_count (superblock s))" "\<not> used_in (superblock s) (view s) m"
      "block_allocset v s = Some (data_block (superblock s) m, s')" "dframe s s'" "same_sb s s'"
      "view s' = alloc_view (superblock s) m (block_clip (\<lambda>k. v)) (view s)"
proof (cases rule: block_allocset_spec [OF assms, of v])
  case (1 s')
  show thesis by (rule that(1) [OF 1(1-3) same_sb_refl [OF 1(4)]]) (use 1(5) in \<open>simp add: disk_full_def\<close>)
next
  case (2 m s')
  have "same_sb s s'" unfolding same_sb_def by (rule exI, rule 2(5))
  from that(2) [OF 2(1-4) this] 2(6) show thesis unfolding alloc_view_def by blast
qed

lemma alloc_entry_spec:
  assumes h: "holds s0 (slot (view s) x P) i s" and sb: "sb_ok (superblock s)" and sp: "0 < spare s"
    and inv: "file_inv (superblock s) (view s) x"
    and P: "P = Ind \<or> P = DInd \<or> (\<exists>i. P = Mid i)" "valid_pos P" "0 \<le> slot (view s) x P" and k: "k < NUM_INDIRECT_BLOCKS"
    and fill: "fill = (if data_pos (child P k) then 0 else 0xff)"
  shows "\<exists>r s'. alloc_entry i k fill s = Some (r, s') \<and> dframe s s' \<and> same_sb s s' \<and>
     grown (superblock s) (view s) x (view s') x \<and>
     (if r < 0 then disk_full (superblock s) (view s') else slot (view s') x (child P k) = r \<and> int32_at (block_data_of i s') k = r)"
proof -
  let ?c = "slot (view s) x P" and ?sb = "superblock s"
  have val: "int32_at (block_data_of i s) k = slot (view s) x (child P k)"
    using holds_data [OF h] int32_clip [OF k, of "block_data_of i s"] P(3) by (simp add: slot_child [OF P(1)] entry_def)
  show ?thesis
  proof (cases "slot (view s) x (child P k) < 0")
    case False
    then show ?thesis
      using val holds_inv [OF h] by (auto simp: alloc_entry_def dframe_refl same_sb_refl grown_refl [OF inv])
  next
    case True
    from allocset_cases [OF holds_inv [OF h] sb sp, of fill] show ?thesis
    proof cases
      case (1 s')
      then show ?thesis using True val by (auto simp: alloc_entry_def grown_refl [OF inv])
    next
      case (2 m s')
      let ?b = "data_block ?sb m"
      have h': "holds s0 ?c i s'" by (rule holds_frame [OF h 2(4)])
      note st = holds_store [OF h', of "put_int32 k ?b (block_data_of i s')"]
      let ?s = "block_store i (put_int32 k ?b (block_data_of i s')) s'"
      have tc: "taken ?sb (view s) ?c" by (rule file_invD(2) [OF inv P(2,3)])
      have vc: "view s' ?c = view s ?c" unfolding 2(6) by (rule alloc_view(3) [OF sb 2(1,2) tc])
      have v: "view ?s = (view s')(?c := put_int32 k ?b (view s ?c))"
        using st(2) holds_data [OF h'] put_int32_clip [OF k] vc by simp
      have F: "data_pos (child P k) \<Longrightarrow> block_clip (\<lambda>k. fill) = (\<lambda>k. 0)"
        "\<not> data_pos (child P k) \<Longrightarrow> block_clip (\<lambda>k. fill) = block_clip (\<lambda>k. 0xff)"
        using fill zero_block by auto
      have g: "grown ?sb (view s) x (view ?s) x"
        unfolding v 2(6) using grown_child [OF inv sb 2(1,2) P k True F] by simp
      have "alloc_entry i k fill s = Some (?b, ?s)" using True val 2(3) by (simp add: alloc_entry_def)
      moreover have "dframe s ?s" using dframe_trans [OF 2(4) st(5)] .
      moreover have "same_sb s ?s" using 2(5) st(3) by (simp add: same_sb_def)
      moreover have b32: "- (2 ^ 31) \<le> ?b" "?b < 2 ^ 31" by (rule data_block_int32 [OF sb 2(1)])+
      have "slot (view ?s) x P = ?c" using g P(2,3) by (auto simp: grown_def framed_def)
      then have "slot (view ?s) x (child P k) = ?b"
        using P(3) v int32_at_put [OF b32] by (simp add: slot_child [OF P(1)] entry_def)
      moreover have "int32_at (block_data_of i ?s) k = ?b"
        using holds_data [OF st(1)] int32_clip [OF k, of "block_data_of i ?s"] v int32_at_put [OF b32] by simp
      ultimately show ?thesis using g by auto
    qed
  qed
qed

lemma map_leaf_spec:
  assumes inv: "buf_inv s" "sb_ok (superblock s)" "2 \<le> spare s" "file_inv (superblock s) (view s) x"
    and P: "P = Ind \<or> (\<exists>i. P = Mid i)" "valid_pos P" "0 \<le> slot (view s) x P" and k: "k < NUM_INDIRECT_BLOCKS"
  shows "\<exists>r s'. map_leaf (slot (view s) x P) k s = Some (r, s') \<and> dframe s s' \<and> same_sb s s' \<and>
     grown (superblock s) (view s) x (view s') x \<and>
     (if r < 0 then disk_full (superblock s) (view s') else slot (view s') x (child P k) = r)"
proof -
  let ?c = "slot (view s) x P"
  have "taken (superblock s) (view s) ?c" by (rule file_invD(2) [OF inv(4) P(2,3)])
  then have b: "blkno ?c" using data_block_range(1) [OF inv(2)] by (auto simp: taken_def)
  have sp: "0 < spare s" using inv(3) by simp
  obtain i s1 where o: "block_open ?c s = Some (i, s1)" "holds s ?c i s1" "view s1 = view s" "superblock s1 = superblock s"
    "spare s \<le> Suc (spare s1)"
    by (rule block_bracket [OF inv(1) b sp])
  have "\<exists>r s'. alloc_entry i k 0 s1 = Some (r, s') \<and> dframe s1 s' \<and> same_sb s1 s' \<and>
     grown (superblock s1) (view s1) x (view s') x \<and>
     (if r < 0 then disk_full (superblock s1) (view s') else slot (view s') x (child P k) = r \<and> int32_at (block_data_of i s') k = r)"
  proof (rule alloc_entry_spec)
    show "holds s (slot (view s1) x P) i s1" using o by simp
    show "0 < spare s1" using o(5) inv(3) by linarith
    show "0 = (if data_pos (child P k) then 0 else 0xff :: u8)" using P(1) by auto
  qed (use o inv P k in auto)
  then obtain r s2 where e: "alloc_entry i k 0 s1 = Some (r, s2)" "dframe s1 s2" "same_sb s1 s2"
    "grown (superblock s1) (view s1) x (view s2) x"
    "if r < 0 then disk_full (superblock s1) (view s2) else slot (view s2) x (child P k) = r" by (auto split: if_splits)
  obtain s3 where c: "block_close i s2 = Some s3" "dframe s s3" "view s3 = view s2" "superblock s3 = superblock s2"
    by (rule holds_close [OF holds_frame [OF o(2) e(2)]])
  have "map_leaf ?c k s = Some (r, s3)" using o e(1) c(1) by (simp add: map_leaf_def)
  moreover have "same_sb s s3" using e(3) c(4) o(4) by (simp add: same_sb_def)
  ultimately show ?thesis using c e o by auto
qed

text \<open>Files of the inode table: nothing but the map of the inode \<open>ip\<close> has changed, and it has grown.\<close>

definition same_core :: "inode_t \<Rightarrow> inode_t \<Rightarrow> bool" where
  "same_core x x' \<longleftrightarrow> i_type x' = i_type x \<and> link_count x' = link_count x \<and> inode_num x' = inode_num x \<and> i_size x' = i_size x \<and>
     i_blocks x' = i_blocks x \<and> i_valid x' = i_valid x \<and> ref_count x' = ref_count x \<and> acquired x' = acquired x"

definition growS :: "nat \<Rightarrow> 'a inode_state_scheme \<Rightarrow> 'a inode_state_scheme \<Rightarrow> bool" where
  "growS ip s s' \<longleftrightarrow> buf_inv s' \<and> pins s' = pins s \<and> policy s' = policy s \<and> inode_state.more s' = inode_state.more s \<and>
     same_sb s s' \<and> inodes s' = (inodes s)[ip := inode s' ip] \<and> same_core (inode s ip) (inode s' ip) \<and>
     grown (superblock s) (view s) (inode s ip) (view s') (inode s' ip)"

lemma more_inodes:
  fixes s s' :: "'a inode_state_scheme"
  assumes "disk_state.more s' = disk_state.more s"
  shows "inodes s' = inodes s" "inode_state.more s' = inode_state.more s" "inode s' ip = inode s ip"
  using assms by (cases s, cases s', simp add: inode_def)+

lemma set_inode_simps [simp]:
  fixes s :: "'a inode_state_scheme"
  shows "view (set_inode ip x s) = view s" "pins (set_inode ip x s) = pins s" "buf_inv (set_inode ip x s) = buf_inv s"
    "superblock (set_inode ip x s) = superblock s" "policy (set_inode ip x s) = policy s" "spare (set_inode ip x s) = spare s"
    "inode_state.more (set_inode ip x s) = inode_state.more s" "inodes (set_inode ip x s) = (inodes s)[ip := x]"
    "ip < length (inodes s) \<Longrightarrow> inode (set_inode ip x s) jp = (if jp = ip then x else inode s jp)"
proof -
  have l: "lower (set_inode ip x s) = lower s" by (rule ext) (simp add: lower_def set_inode_def Let_def split: page_slot.split)
  have b: "blocks (set_inode ip x s) = blocks s" by (simp add: set_inode_def)
  show "view (set_inode ip x s) = view s" by (rule view_eqI) (simp_all add: l b)
qed (auto simp: pins_def buf_inv_def set_inode_def spare_def inode_def)

lemma growS_disk:
  assumes "dframe s s'" "same_sb s s'" "grown (superblock s) (view s) (inode s ip) (view s') (inode s ip)"
  shows "growS ip s s'"
  using assms more_inodes [of s' s] by (simp add: growS_def dframe_def same_core_def inode_def)

lemma growS_trans:
  assumes "growS ip s s'" "growS ip s' s''"
  shows "growS ip s s''"
proof -
  note a = assms [unfolded growS_def]
  have "same_core (inode s ip) (inode s'' ip)" using a by (auto simp: same_core_def)
  moreover have "grown (superblock s) (view s) (inode s ip) (view s'') (inode s'' ip)"
    using a grown_trans [of "superblock s" "view s" "inode s ip" "view s'" "inode s' ip" "view s''" "inode s'' ip"]
      same_sb_simps(11) [of s s' "view s'" "inode s' ip" "view s''" "inode s'' ip"] by blast
  moreover have "inodes s'' = (inodes s)[ip := inode s'' ip]" using a by simp
  ultimately show ?thesis using a same_sb_trans [of s s' s''] by (simp add: growS_def)
qed

lemma growS_inv:
  assumes "growS ip s s'" "file_inv (superblock s) (view s) (inode s ip)" "sb_ok (superblock s)"
  shows "buf_inv s'" "file_inv (superblock s') (view s') (inode s' ip)" "sb_ok (superblock s')" "spare s' = spare s"
    "length (inodes s') = length (inodes s)" "superblock s' = (superblock s)\<lparr>used_block := used_block (superblock s')\<rparr>"
  using assms same_sb_simps [of s s'] by (auto simp: growS_def grown_def framed_def spare_def same_sb_def)

text \<open>Setting a pointer of the inode to a freshly allocated block.\<close>

lemma growS_set:
  assumes a: "m < unat (block_count (superblock s))" "\<not> used_in (superblock s) (view s) m" "dframe s s1" "same_sb s s1"
    "view s1 = alloc_view (superblock s) m F (view s)"
    and i: "ip < length (inodes s)" "file_inv (superblock s) (view s) (inode s ip)" "sb_ok (superblock s)"
    and p: "valid_pos p" "slot (view s) (inode s ip) p < 0"
    and F: "data_pos p \<Longrightarrow> F = (\<lambda>k. 0)" "\<not> data_pos p \<Longrightarrow> F = block_clip (\<lambda>k. 0xff)"
    and x': "(\<exists>k. p = Direct k \<and> x' = (inode s ip)\<lparr>direct := (direct (inode s ip))[k := data_block (superblock s) m]\<rparr>) \<or>
      (p = Ind \<and> x' = (inode s ip)\<lparr>indirect := data_block (superblock s) m\<rparr>) \<or>
      (p = DInd \<and> x' = (inode s ip)\<lparr>double_indirect := data_block (superblock s) m\<rparr>)"
  shows "growS ip s (set_inode ip x' s1)" "inode s1 ip = inode s ip" "inode (set_inode ip x' s1) ip = x'"
proof -
  have d: "disk_state.more s1 = disk_state.more s" using a(3) by (simp add: dframe_def)
  note mi = more_inodes [OF d]
  show e: "inode s1 ip = inode s ip" by (rule mi)
  have l: "ip < length (inodes s1)" using i(1) mi by simp
  then show e': "inode (set_inode ip x' s1) ip = x'" by simp
  have "grown (superblock s) (view s) (inode s ip) (view s1) x'"
    unfolding a(5) by (rule grown_inode [OF i(2,3) a(1,2) p F x'])
  moreover have "same_core (inode s ip) x'" using x' by (auto simp: same_core_def)
  ultimately show "growS ip s (set_inode ip x' s1)"
    using a(3,4) mi e' by (simp add: growS_def dframe_def same_sb_def)
qed

definition map_post :: "nat \<Rightarrow> pos \<Rightarrow> 'a inode_state_scheme \<Rightarrow> int \<Rightarrow> 'a inode_state_scheme \<Rightarrow> bool" where
  "map_post ip p s b s' \<longleftrightarrow> growS ip s s' \<and>
     (if b < 0 then disk_full (superblock s) (view s') else slot (view s') (inode s' ip) p = b)"

definition file_ok :: "nat \<Rightarrow> 'a inode_state_scheme \<Rightarrow> bool" where
  "file_ok ip s \<longleftrightarrow> buf_inv s \<and> sb_ok (superblock s) \<and> ip < length (inodes s) \<and> file_inv (superblock s) (view s) (inode s ip)"

lemma file_ok_growS: "file_ok ip s \<Longrightarrow> growS ip s s' \<Longrightarrow> file_ok ip s' \<and> spare s' = spare s"
  using growS_inv [of ip s s'] by (simp add: file_ok_def)

lemma growS_refl: "file_ok ip s \<Longrightarrow> growS ip s s"
  by (simp add: growS_def file_ok_def same_sb_refl same_core_def grown_refl inode_def)

lemma map_post_trans:
  assumes "growS ip s s1" "map_post ip p s1 b s2"
  shows "map_post ip p s b s2"
proof -
  have "disk_full (superblock s1) = disk_full (superblock s)"
    using assms(1) same_sb_simps(10) by (auto simp: growS_def)
  then show ?thesis using assms growS_trans [of ip s s1 s2] by (auto simp: map_post_def split: if_splits)
qed

lemma map_leaf_post:
  assumes ok: "file_ok ip s" and sp: "2 \<le> spare s"
    and P: "P = Ind \<or> (\<exists>i. P = Mid i)" "valid_pos P" "0 \<le> slot (view s) (inode s ip) P" and k: "k < NUM_INDIRECT_BLOCKS"
  shows "\<exists>r s'. map_leaf (slot (view s) (inode s ip) P) k s = Some (r, s') \<and> dframe s s' \<and> map_post ip (child P k) s r s'"
proof -
  obtain r s' where r: "map_leaf (slot (view s) (inode s ip) P) k s = Some (r, s')" "dframe s s'" "same_sb s s'"
    "grown (superblock s) (view s) (inode s ip) (view s') (inode s ip)"
    "if r < 0 then disk_full (superblock s) (view s') else slot (view s') (inode s ip) (child P k) = r"
    using map_leaf_spec [OF _ _ sp _ P k] ok unfolding file_ok_def by blast
  have "inode s' ip = inode s ip" using r(2) by (intro more_inodes) (simp add: dframe_def)
  with r growS_disk [OF r(2-4)] show ?thesis by (auto simp: map_post_def)
qed

text \<open>The pointer to the first or second level block, allocated if it is missing.\<close>

lemma ensure_pointer:
  assumes ok: "file_ok ip s" and sp: "0 < spare s"
    and p: "(p = Ind \<and> get = indirect \<and> upd = (\<lambda>b x. x\<lparr>indirect := b\<rparr>)) \<or>
      (p = DInd \<and> get = double_indirect \<and> upd = (\<lambda>b x. x\<lparr>double_indirect := b\<rparr>))"
  shows "\<exists>ok s'. (if get (inode s ip) < 0 then do {
             (b, s) \<leftarrow> block_allocset 0xff s;
             if b < 0 then Some (False, s) else Some (True, set_inode ip (upd b (inode s ip)) s) }
           else Some (True, s)) = Some (ok, s') \<and> growS ip s s' \<and>
     (if ok then 0 \<le> get (inode s' ip) else disk_full (superblock s) (view s'))"
proof (cases "get (inode s ip) < 0")
  case False
  then show ?thesis using growS_refl [OF ok] by auto
next
  case True
  note o = ok [unfolded file_ok_def]
  from o have b: "buf_inv s" "sb_ok (superblock s)" by auto
  show ?thesis
  proof (cases rule: allocset_cases [OF b sp, of "0xff"])
    case (1 s')
    have "grown (superblock s) (view s) (inode s ip) (view s') (inode s ip)" using o by (simp add: 1 grown_refl)
    from growS_disk [OF 1(2,4) this] 1 True show ?thesis by auto
  next
    case (2 m s1)
    have neg: "slot (view s) (inode s ip) p < 0" and np: "\<not> data_pos p" "valid_pos p" using True p by auto
    note g = growS_set [OF 2(1,2,4,5,6) _ _ _ np(2) neg, of "upd (data_block (superblock s) m) (inode s ip)"]
    have "growS ip s (set_inode ip (upd (data_block (superblock s) m) (inode s ip)) s1)" "inode s1 ip = inode s ip"
      "inode (set_inode ip (upd (data_block (superblock s) m) (inode s ip)) s1) ip = upd (data_block (superblock s) m) (inode s ip)"
      using g o np p by blast+
    moreover have "get (upd (data_block (superblock s) m) (inode s ip)) = data_block (superblock s) m" using p by auto
    ultimately show ?thesis using True 2(3) by auto
  qed
qed

lemma slot_blkno:
  assumes "file_inv sb V x" "sb_ok sb" "valid_pos p" "0 \<le> slot V x p"
  shows "blkno (slot V x p)"
  using file_invD(2) [OF assms(1,3,4)] data_block_range(1) [OF assms(2)] by (auto simp: taken_def)

lemma map_double:
  assumes ok: "file_ok ip s" and sp: "3 \<le> spare s" and d: "0 \<le> double_indirect (inode s ip)"
    and k: "index < NUM_INDIRECT_BLOCKS" "off < NUM_INDIRECT_BLOCKS"
  shows "\<exists>b s'. (do {
      (root, s) \<leftarrow> block_open (double_indirect (inode s ip)) s;
      (mid, s) \<leftarrow> alloc_entry root index 0xff s;
      if mid < 0 then do { s \<leftarrow> block_close root s; Some (-1, s) }
      else do {
        (block_num, s) \<leftarrow> map_leaf (int32_at (block_data_of root s) index) off s;
        s \<leftarrow> block_close root s;
        Some (block_num, s) } }) = Some (b, s') \<and> map_post ip (Leaf index off) s b s'"
proof -
  note o = ok [unfolded file_ok_def]
  let ?c = "double_indirect (inode s ip)" and ?x = "inode s ip"
  have b: "blkno ?c" using slot_blkno [of "superblock s" "view s" ?x DInd] o d by simp
  obtain i s1 where h: "block_open ?c s = Some (i, s1)" "holds s ?c i s1" "view s1 = view s" "superblock s1 = superblock s"
    "spare s \<le> Suc (spare s1)"
    by (rule block_bracket [OF _ b]) (use o sp in auto)
  have i1: "inode s1 ip = ?x" "inodes s1 = inodes s" using more_inodes [of s1 s] h(2) by (auto simp: holds_def)
  have ok1: "file_ok ip s1" using o h i1 holds_inv [OF h(2)] by (simp add: file_ok_def)
  have "\<exists>r s'. alloc_entry i index 0xff s1 = Some (r, s') \<and> dframe s1 s' \<and> same_sb s1 s' \<and>
     grown (superblock s1) (view s1) ?x (view s') ?x \<and>
     (if r < 0 then disk_full (superblock s1) (view s')
      else slot (view s') ?x (child DInd index) = r \<and> int32_at (block_data_of i s') index = r)"
  proof (rule alloc_entry_spec)
    show "holds s (slot (view s1) ?x DInd) i s1" using h by simp
    show "0 < spare s1" using h(5) sp by linarith
  qed (use h o d k in auto)
  then obtain r s2 where e: "alloc_entry i index 0xff s1 = Some (r, s2)" "dframe s1 s2" "same_sb s1 s2"
    "grown (superblock s1) (view s1) ?x (view s2) ?x"
    "if r < 0 then disk_full (superblock s1) (view s2) else slot (view s2) ?x (Mid index) = r \<and> int32_at (block_data_of i s2) index = r"
    unfolding child.simps by blast
  have i2: "inode s2 ip = ?x" using more_inodes [of s2 s1] e(2) i1 by (simp add: dframe_def)
  have g12: "growS ip s1 s2" by (rule growS_disk [OF e(2,3)]) (use e(4) i1 in simp)
  have close: "\<exists>s'. block_close i s4 = Some s' \<and> growS ip s s' \<and> view s' = view s4 \<and> superblock s' = superblock s4 \<and> inode s' ip = inode s4 ip"
    if f: "dframe s1 s4" "growS ip s1 s4" for s4
  proof -
    obtain s' where c: "block_close i s4 = Some s'" "dframe s s'" "view s' = view s4" "superblock s' = superblock s4"
      by (rule holds_close [OF holds_frame [OF h(2) f(1)]])
    have i': "inode s' ip = ?x" "inode s4 ip = ?x"
      using more_inodes [of s' s] more_inodes [of s4 s1] c(2) f(1) i1 by (simp_all add: dframe_def)
    have "growS ip s s'"
      using c f(2) h(3,4) i' i1 by (intro growS_disk) (auto simp: growS_def same_sb_def)
    with c i' show ?thesis by auto
  qed
  show ?thesis
  proof (cases "r < 0")
    case True
    obtain s' where s': "block_close i s2 = Some s'" "growS ip s s'" "view s' = view s2" using close [OF e(2) g12] by blast
    then show ?thesis using h(1,4) e(1,5) True by (auto simp: map_post_def)
  next
    case False
    then have m: "slot (view s2) (inode s2 ip) (Mid index) = r" "int32_at (block_data_of i s2) index = r" using e(5) i2 by auto
    have sp2: "2 \<le> spare s2" using h(5) sp file_ok_growS [OF ok1 g12] by linarith
    have m0: "0 \<le> slot (view s2) (inode s2 ip) (Mid index)" using m False by simp
    have vm: "valid_pos (Mid index)" using k by simp
    obtain q s4 where l: "map_leaf (slot (view s2) (inode s2 ip) (Mid index)) off s2 = Some (q, s4)" "dframe s2 s4"
      "map_post ip (child (Mid index) off) s2 q s4"
      using map_leaf_post [OF _ sp2 _ vm m0 k(2)] file_ok_growS [OF ok1 g12] by blast
    have g14: "growS ip s1 s4" using growS_trans [OF g12] l(3) by (auto simp: map_post_def)
    obtain s' where s': "block_close i s4 = Some s'" "growS ip s s'" "view s' = view s4" "superblock s' = superblock s4"
      "inode s' ip = inode s4 ip"
      using close [OF dframe_trans [OF e(2) l(2)] g14] by blast
    have "disk_full (superblock s2) = disk_full (superblock s)" using same_sb_simps(10) [OF e(3)] h(4) by simp
    then have "map_post ip (Leaf index off) s q s'" using l(3) s' by (auto simp: map_post_def split: if_splits)
    then show ?thesis using h(1) e(1) False l(1) m s'(1) by auto
  qed
qed

lemma inode_mapblock_spec:
  assumes ok: "file_ok ip s" and sp: "3 \<le> spare s" and k: "k < 2 ^ 20"
  shows "\<exists>b s'. inode_mapblock ip k s = Some (b, s') \<and> map_post ip (fpos k) s b s'"
proof -
  note o = ok [unfolded file_ok_def]
  let ?x = "inode s ip" and ?k = "k - NUM_DIRECT_BLOCKS"
  have sp0: "0 < spare s" using sp by simp
  consider (direct) "k < NUM_DIRECT_BLOCKS" | (ind) "\<not> k < NUM_DIRECT_BLOCKS" "?k < NUM_INDIRECT_BLOCKS"
    | (dbl) "\<not> k < NUM_DIRECT_BLOCKS" "\<not> ?k < NUM_INDIRECT_BLOCKS" by blast
  then show ?thesis
  proof cases
    case direct
    show ?thesis
    proof (cases "direct ?x ! k < 0")
      case False
      then show ?thesis using direct growS_refl [OF ok] by (simp add: inode_mapblock_def map_post_def fpos_def)
    next
      case True
      have b: "buf_inv s" "sb_ok (superblock s)" using o by auto
      show ?thesis
      proof (cases rule: allocset_cases [OF b sp0, of "0"])
        case (1 s')
        have "grown (superblock s) (view s) ?x (view s') ?x" using o by (simp add: 1 grown_refl)
        from growS_disk [OF 1(2,4) this] 1 True direct show ?thesis by (simp add: inode_mapblock_def map_post_def)
      next
        case (2 m s1)
        let ?b = "data_block (superblock s) m"
        have "growS ip s (set_inode ip (?x\<lparr>direct := (direct ?x)[k := ?b]\<rparr>) s1)" "inode s1 ip = ?x"
          "inode (set_inode ip (?x\<lparr>direct := (direct ?x)[k := ?b]\<rparr>) s1) ip = ?x\<lparr>direct := (direct ?x)[k := ?b]\<rparr>"
          using growS_set [OF 2(1,2,4,5,6), of ip "Direct k"] o True direct zero_block by simp_all
        moreover have "k < length (direct ?x)" using direct file_invD(1) o by metis
        ultimately show ?thesis using True direct 2(3) by (simp add: inode_mapblock_def map_post_def fpos_def)
      qed
    qed
  next
    case ind
    obtain ok1 s1 where e: "(if indirect ?x < 0 then do {
             (b, s) \<leftarrow> block_allocset 0xff s;
             if b < 0 then Some (False, s) else Some (True, set_inode ip ((inode s ip)\<lparr>indirect := b\<rparr>) s) }
           else Some (True, s)) = Some (ok1, s1)" "growS ip s s1"
      "if ok1 then 0 \<le> indirect (inode s1 ip) else disk_full (superblock s) (view s1)"
      using ensure_pointer [OF ok sp0, of Ind indirect "\<lambda>b x. x\<lparr>indirect := b\<rparr>"] by blast
    show ?thesis
    proof (cases ok1)
      case False
      then show ?thesis using ind e by (simp add: inode_mapblock_def map_post_def Let_def)
    next
      case True
      have "file_ok ip s1" "2 \<le> spare s1" using file_ok_growS [OF ok e(2)] sp by auto
      then obtain r s2 where l: "map_leaf (slot (view s1) (inode s1 ip) Ind) ?k s1 = Some (r, s2)" "map_post ip (child Ind ?k) s1 r s2"
        using map_leaf_post [of ip s1 Ind ?k] e(3) True ind by auto
      have "map_post ip (fpos k) s r s2" using map_post_trans [OF e(2) l(2)] ind by (simp add: fpos_def Let_def)
      then show ?thesis using ind e(1) True l(1) by (simp add: inode_mapblock_def Let_def)
    qed
  next
    case dbl
    let ?j = "?k - NUM_INDIRECT_BLOCKS"
    have j: "?j < NUM_DOUBLE_INDIRECT_BLOCKS" "?j div NUM_INDIRECT_BLOCKS < NUM_INDIRECT_BLOCKS" "?j mod NUM_INDIRECT_BLOCKS < NUM_INDIRECT_BLOCKS"
      using k by (simp_all add: NUM_DOUBLE_INDIRECT_BLOCKS_def NUM_INDIRECT_BLOCKS_def NUM_DIRECT_BLOCKS_def less_mult_imp_div_less)
    obtain ok1 s1 where e: "(if double_indirect ?x < 0 then do {
             (b, s) \<leftarrow> block_allocset 0xff s;
             if b < 0 then Some (False, s) else Some (True, set_inode ip ((inode s ip)\<lparr>double_indirect := b\<rparr>) s) }
           else Some (True, s)) = Some (ok1, s1)" "growS ip s s1"
      "if ok1 then 0 \<le> double_indirect (inode s1 ip) else disk_full (superblock s) (view s1)"
      using ensure_pointer [OF ok sp0, of DInd double_indirect "\<lambda>b x. x\<lparr>double_indirect := b\<rparr>"] by blast
    show ?thesis
    proof (cases ok1)
      case False
      then show ?thesis using dbl e j(1) by (simp add: inode_mapblock_def map_post_def Let_def)
    next
      case True
      have "file_ok ip s1" "3 \<le> spare s1" "0 \<le> double_indirect (inode s1 ip)"
        using file_ok_growS [OF ok e(2)] sp e(3) True by auto
      from map_double [OF this j(2,3)] obtain b s2 where l: "(do {
          (root, s) \<leftarrow> block_open (double_indirect (inode s1 ip)) s1;
          (mid, s) \<leftarrow> alloc_entry root (?j div NUM_INDIRECT_BLOCKS) 0xff s;
          if mid < 0 then do { s \<leftarrow> block_close root s; Some (-1, s) }
          else do {
            (block_num, s) \<leftarrow> map_leaf (int32_at (block_data_of root s) (?j div NUM_INDIRECT_BLOCKS)) (?j mod NUM_INDIRECT_BLOCKS) s;
            s \<leftarrow> block_close root s;
            Some (block_num, s) } }) = Some (b, s2)" "map_post ip (Leaf (?j div NUM_INDIRECT_BLOCKS) (?j mod NUM_INDIRECT_BLOCKS)) s1 b s2"
        by blast
      have "map_post ip (fpos k) s b s2" using map_post_trans [OF e(2) l(2)] dbl by (simp add: fpos_def Let_def)
      then show ?thesis using dbl e(1) True l(1) j(1) by (simp add: inode_mapblock_def Let_def del: diff_diff_left)
    qed
  qed
qed

end
