(* ===== verification/Fs_Content.thy ===== *)
theory Fs_Content
  imports Fs_File
begin

text \<open>
  The bytes of a file: what \<open>inode_read\<close> and \<open>inode_write\<close> of \<open>kernel/fs/inode.c\<close> do to them, over
  the lemmas of \<open>Fs_File\<close> on the block map.
\<close>

section \<open>Reading\<close>

lemma chunk_div_mod:
  assumes "j < chunk_size offset rest"
  shows "(unat offset + j) div BLOCK_SIZE = unat offset div BLOCK_SIZE"
    "(unat offset + j) mod BLOCK_SIZE = unat offset mod BLOCK_SIZE + j" "unat offset mod BLOCK_SIZE + j < BLOCK_SIZE"
proof -
  show lt: "unat offset mod BLOCK_SIZE + j < BLOCK_SIZE" using assms unfolding chunk_size_def by linarith
  then show "(unat offset + j) mod BLOCK_SIZE = unat offset mod BLOCK_SIZE + j"
    by (metis mod_add_left_eq mod_less)
  show "(unat offset + j) div BLOCK_SIZE = unat offset div BLOCK_SIZE"
    using lt div_add1_eq [of "unat offset" j BLOCK_SIZE]
    by (metis add.right_neutral add_lessD1 add.commute div_less mod_less add_cancel_right_right)
qed

lemma offset_block: "unat (offset :: u32) div BLOCK_SIZE < 2 ^ 20"
proof -
  have "unat offset < 2 ^ 32" using unsigned_less [of offset] by simp
  then show ?thesis by (simp add: BLOCK_SIZE_def less_mult_imp_div_less)
qed

lemma unat_offset_add:
  assumes "unat (offset :: u32) + n < 2 ^ 32"
  shows "unat (offset + of_nat n) = unat offset + n"
  using assms by (simp add: unat_word_ariths unat_of_nat take_bit_nat_eq_self)

text \<open>A block of the file, opened and closed.\<close>

lemma file_block:
  assumes ok: "file_ok ip s" and sp: "0 < spare s" and p: "valid_pos p" "0 \<le> slot (view s) (inode s ip) p"
  obtains i s1 where "block_open (slot (view s) (inode s ip) p) s = Some (i, s1)" "holds s (slot (view s) (inode s ip) p) i s1"
    "view s1 = view s" "superblock s1 = superblock s"
proof -
  have i: "buf_inv s" "sb_ok (superblock s)" "file_inv (superblock s) (view s) (inode s ip)" using ok by (simp_all add: file_ok_def)
  show thesis by (rule block_bracket [OF i(1) slot_blkno [OF i(3,2) p] sp]) (rule that)
qed

lemma growS_same: "file_ok ip s \<Longrightarrow> dframe s s' \<Longrightarrow> view s' = view s \<Longrightarrow> superblock s' = superblock s \<Longrightarrow> growS ip s s'"
  by (rule growS_disk) (simp_all add: same_sb_refl file_ok_def grown_refl)

lemma growS_bytes: "growS ip s s' \<Longrightarrow> n < 2 ^ 32 \<Longrightarrow> file_byte (view s') (inode s' ip) n = file_byte (view s) (inode s ip) n"
  by (simp add: growS_def grown_def)

lemma read_loop_spec:
  assumes "file_ok ip s" "3 \<le> spare s" "unat offset + rest < 2 ^ 32"
  shows "\<exists>n s'. inode_read_loop ip offset rest acc s =
        Some (acc @ map (file_byte (view s) (inode s ip)) [unat offset..<unat offset + n], s') \<and>
      growS ip s s' \<and> n \<le> rest \<and> (n < rest \<longrightarrow> disk_full (superblock s) (view s'))"
  using assms
proof (induction ip offset rest acc s rule: inode_read_loop.induct)
  case (1 ip offset rest acc s)
  show ?case
  proof (cases "rest = 0")
    case True
    then show ?thesis using growS_refl [OF 1(2)] by (subst inode_read_loop.simps) (auto intro!: exI [of _ 0])
  next
    case False
    let ?k = "unat offset div BLOCK_SIZE" and ?r = "unat offset mod BLOCK_SIZE" and ?n = "chunk_size offset rest"
    obtain b s1 where m: "inode_mapblock ip ?k s = Some (b, s1)" "map_post ip (fpos ?k) s b s1"
      using inode_mapblock_spec [OF 1(2,3) offset_block] by blast
    then have g1: "growS ip s s1" by (simp add: map_post_def)
    note ok1 = file_ok_growS [OF 1(2) g1]
    show ?thesis
    proof (cases "b < 0")
      case True
      then show ?thesis using False m g1
        by (subst inode_read_loop.simps) (auto simp: map_post_def intro!: exI [of _ 0])
    next
      case nb: False
      then have sl: "slot (view s1) (inode s1 ip) (fpos ?k) = b" using m(2) by (simp add: map_post_def)
      have vp: "valid_pos (fpos ?k)" by (rule fpos_valid(1) [OF offset_block])
      obtain i s2 where o: "block_open b s1 = Some (i, s2)" "holds s1 b i s2" "view s2 = view s1" "superblock s2 = superblock s1"
        by (rule file_block [of ip s1 "fpos ?k"]) (use ok1 1(3) vp sl nb in auto)
      obtain s3 where c: "block_close i s2 = Some s3" "dframe s1 s3" "view s3 = view s2" "superblock s3 = superblock s2"
        by (rule holds_close [OF o(2)])
      have g2: "growS ip s1 s3" by (rule growS_same) (use ok1 c o in simp_all)
      have g: "growS ip s s3" by (rule growS_trans [OF g1 g2])
      note ok3 = file_ok_growS [OF 1(2) g]
      have nr: "?n \<le> rest" by (simp add: chunk_size_def)
      have ua: "unat (offset + of_nat ?n) = unat offset + ?n" using 1(4) nr by (intro unat_offset_add) simp
      have bytes: "take_bytes (block_data_of i s2) ?r ?n = map (file_byte (view s) (inode s ip)) [unat offset..<unat offset + ?n]"
      proof (rule nth_equalityI)
        fix j assume "j < length (take_bytes (block_data_of i s2) ?r ?n)"
        then have j: "j < ?n" by (simp add: take_bytes_def)
        note cd = chunk_div_mod [OF j]
        have "block_data_of i s2 (?r + j) = view s1 b (?r + j)"
          using fun_cong [OF holds_data [OF o(2)], of "?r + j"] cd(3) o(3) by (simp add: block_clip_def)
        also have "\<dots> = file_byte (view s1) (inode s1 ip) (unat offset + j)"
          using nb by (simp add: file_byte_def cd sl Let_def)
        also have "\<dots> = file_byte (view s) (inode s ip) (unat offset + j)"
          using growS_bytes [OF g1] 1(4) j nr by simp
        finally show "take_bytes (block_data_of i s2) ?r ?n ! j = map (file_byte (view s) (inode s ip)) [unat offset..<unat offset + ?n] ! j"
          using j by (simp add: take_bytes_def)
      qed (simp add: take_bytes_def)
      have same: "map (file_byte (view s3) (inode s3 ip)) [unat offset + ?n..<unat offset + ?n + n] =
          map (file_byte (view s) (inode s ip)) [unat offset + ?n..<unat offset + ?n + n]" if "n \<le> rest - ?n" for n
        using growS_bytes [OF g] 1(4) nr that by auto
      have IH: "\<exists>n s'. inode_read_loop ip (offset + of_nat ?n) (rest - ?n) (acc @ take_bytes (block_data_of i s2) ?r ?n) s3 =
            Some ((acc @ take_bytes (block_data_of i s2) ?r ?n) @ map (file_byte (view s3) (inode s3 ip))
              [unat (offset + of_nat ?n)..<unat (offset + of_nat ?n) + n], s') \<and>
          growS ip s3 s' \<and> n \<le> rest - ?n \<and> (n < rest - ?n \<longrightarrow> disk_full (superblock s3) (view s'))"
        using 1(1) [OF False, of "(b, s1)" b s1 "(i, s2)" i s2 ?n "take_bytes (block_data_of i s2) ?r ?n" s3]
          m(1) nb o(1) c(1) ok3 1(3,4) ua nr by simp
      then obtain n s' where r: "inode_read_loop ip (offset + of_nat ?n) (rest - ?n) (acc @ take_bytes (block_data_of i s2) ?r ?n) s3 =
            Some ((acc @ take_bytes (block_data_of i s2) ?r ?n) @ map (file_byte (view s3) (inode s3 ip))
              [unat offset + ?n..<unat offset + ?n + n], s')"
          "growS ip s3 s'" "n \<le> rest - ?n" "n < rest - ?n \<longrightarrow> disk_full (superblock s3) (view s')"
        unfolding ua by blast
      let ?f = "file_byte (view s) (inode s ip)"
      have cat: "map ?f [unat offset..<unat offset + ?n] @ map ?f [unat offset + ?n..<unat offset + ?n + n] =
          map ?f [unat offset..<unat offset + (?n + n)]"
        using upt_add_eq_append [of "unat offset" "unat offset + ?n" n] by (simp add: add.assoc)
      have "inode_read_loop ip offset rest acc s =
          inode_read_loop ip (offset + of_nat ?n) (rest - ?n) (acc @ take_bytes (block_data_of i s2) ?r ?n) s3"
        using False m(1) nb o(1) c(1) by (subst inode_read_loop.simps) (simp add: Let_def)
      also have "\<dots> = Some (acc @ map ?f [unat offset..<unat offset + (?n + n)], s')"
        by (rule trans [OF r(1)]) (simp only: same [OF r(3)] bytes append_assoc cat)
      finally have "inode_read_loop ip offset rest acc s = Some (acc @ map ?f [unat offset..<unat offset + (?n + n)], s')" .
      moreover have "disk_full (superblock s3) = disk_full (superblock s)" using g same_sb_simps(10) by (auto simp: growS_def)
      ultimately show ?thesis
        using growS_trans [OF g r(2)] r(3,4) nr by (intro exI [of _ "?n + n"] exI [of _ s']) auto
    qed
  qed
qed

section \<open>Writing\<close>

text \<open>Bytes stored into a data block of the file.\<close>

definition patched :: "(nat \<Rightarrow> u8) \<Rightarrow> nat \<Rightarrow> u8 list \<Rightarrow> nat \<Rightarrow> u8" where
  "patched f k xs = (\<lambda>n. if k \<le> n \<and> n < k + length xs then xs ! (n - k) else f n)"

lemma patched_Nil [simp]: "patched f k [] = f"
  by (rule ext) (auto simp: patched_def)

lemma patched_append: "patched (patched f k xs) (k + length xs) ys = patched f k (xs @ ys)"
  by (auto simp: patched_def nth_append fun_eq_iff)

lemma file_inv_cong:
  assumes inv: "file_inv sb V x" and slots: "\<And>p. valid_pos p \<Longrightarrow> slot V' x' p = slot V x p"
    and tk: "\<And>c. taken sb V' c = taken sb V c" and len: "length (direct x') = length (direct x)"
  shows "file_inv sb V' x'"
proof -
  have "taken sb V' (slot V' x' p)" if "valid_pos p" "0 \<le> slot V' x' p" for p
    using that slots [OF that(1)] file_invD(2) [OF inv that(1)] tk by simp
  moreover have "p = q" if "valid_pos p" "valid_pos q" "0 \<le> slot V' x' p" "slot V' x' p = slot V' x' q" for p q
    using that slots [OF that(1)] slots [OF that(2)] file_invD(3) [OF inv that(1,2)] by simp
  ultimately show ?thesis unfolding file_inv_def using file_invD(1) [OF inv] len by metis
qed

lemma store_framed:
  assumes inv: "file_inv sb V x" and sb: "sb_ok sb" and k: "k < 2 ^ 20" and b: "0 \<le> slot V x (fpos k)"
  shows "framed sb V x (V(slot V x (fpos k) := D)) x"
    "n < 2 ^ 32 \<Longrightarrow> file_byte (V(slot V x (fpos k) := D)) x n = (if n div BLOCK_SIZE = k then D (n mod BLOCK_SIZE) else file_byte V x n)"
proof -
  let ?b = "slot V x (fpos k)" and ?V = "V(slot V x (fpos k) := D)"
  note i = file_invD [OF inv]
  have vp: "valid_pos (fpos k)" "data_pos (fpos k)" using fpos_valid k by blast+
  have ne: "slot V x p \<noteq> ?b" if "valid_pos p" "0 \<le> slot V x p" "p \<noteq> fpos k" for p
    using i(3) [OF that(1) vp(1) that(2)] that(3) by blast
  have slots: "slot ?V x p = slot V x p" if "valid_pos p" for p
    by (rule slot_cong) (use ne vp that in auto)
  have tb: "taken sb V ?b" by (rule i(2) [OF vp(1) b])
  have used: "used_in sb ?V j = used_in sb V j" if "j < unat (block_count sb)" for j
    using taken_not_map(1) [OF sb tb that] by (simp add: used_in_def)
  then have tk: "taken sb ?V c = taken sb V c" for c by (auto simp: taken_def)
  have fb: "fblocks ?V x = fblocks V x" unfolding fblocks_def by (rule Collect_cong) (metis slots)
  have "?b \<in> fblocks V x" using vp b by (auto simp: fblocks_def)
  moreover have "file_inv sb ?V x" by (rule file_inv_cong [OF inv slots tk refl])
  moreover have "int (unat (datablock_offset sb)) \<le> ?b" using tb by (auto simp: taken_def data_block_def)
  ultimately show "framed sb V x ?V x"
    unfolding framed_def fb using slots used by (auto simp: fun_upd_apply)
  assume "n < 2 ^ 32"
  then have nk: "n div BLOCK_SIZE < 2 ^ 20" by (simp add: BLOCK_SIZE_def less_mult_imp_div_less)
  have vn: "valid_pos (fpos (n div BLOCK_SIZE))" by (rule fpos_valid(1) [OF nk])
  show "file_byte ?V x n = (if n div BLOCK_SIZE = k then D (n mod BLOCK_SIZE) else file_byte V x n)"
  proof (cases "n div BLOCK_SIZE = k")
    case True
    then show ?thesis using slots [OF vn] b by (simp add: file_byte_def Let_def)
  next
    case False
    then have "fpos (n div BLOCK_SIZE) \<noteq> fpos k" using fpos_inj by blast
    with ne [OF vn _ this] slots [OF vn] False show ?thesis by (auto simp: file_byte_def Let_def)
  qed
qed

text \<open>The effect of a write on the state: only this file changes, and only as described.\<close>

definition frameS :: "nat \<Rightarrow> 'a inode_state_scheme \<Rightarrow> 'a inode_state_scheme \<Rightarrow> bool" where
  "frameS ip s s' \<longleftrightarrow> buf_inv s' \<and> pins s' = pins s \<and> policy s' = policy s \<and> inode_state.more s' = inode_state.more s \<and>
     same_sb s s' \<and> inodes s' = (inodes s)[ip := inode s' ip] \<and> same_core (inode s ip) (inode s' ip) \<and>
     framed (superblock s) (view s) (inode s ip) (view s') (inode s' ip)"

lemma growS_frameS: "growS ip s s' \<Longrightarrow> frameS ip s s'"
  by (simp add: growS_def frameS_def grown_def)

lemma framed_same_sb: "same_sb s s' \<Longrightarrow> framed (superblock s') V x V' x' = framed (superblock s) V x V' x'"
  by (auto simp: same_sb_def framed_def)

lemma frameS_trans:
  assumes "frameS ip s s'" "frameS ip s' s''"
  shows "frameS ip s s''"
proof -
  note a = assms [unfolded frameS_def]
  have "framed (superblock s) (view s) (inode s ip) (view s'') (inode s'' ip)"
    using a framed_same_sb [of s s'] framed_trans [of "superblock s" "view s" "inode s ip" "view s'" "inode s' ip"] by blast
  then show ?thesis using a same_sb_trans [of s s' s''] by (auto simp: frameS_def same_core_def)
qed

lemma file_ok_frameS: "file_ok ip s \<Longrightarrow> frameS ip s s' \<Longrightarrow> file_ok ip s' \<and> spare s' = spare s"
  using same_sb_simps [of s s'] by (auto simp: file_ok_def frameS_def framed_def spare_def)

lemma write_loop_spec:
  assumes "file_ok ip s" "3 \<le> spare s" "unat offset + length src < 2 ^ 32"
  shows "\<exists>n s'. inode_write_loop ip offset src s = Some (offset + of_nat n, drop n src, s') \<and> n \<le> length src \<and>
      frameS ip s s' \<and> (n < length src \<longrightarrow> disk_full (superblock s) (view s')) \<and>
      (\<forall>j < 2 ^ 32. file_byte (view s') (inode s' ip) j = patched (file_byte (view s) (inode s ip)) (unat offset) (take n src) j)"
  using assms
proof (induction ip offset src s rule: inode_write_loop.induct)
  case (1 ip offset src s)
  show ?case
  proof (cases "src = []")
    case True
    then show ?thesis using growS_frameS [OF growS_refl [OF 1(2)]]
      by (intro exI [of _ 0] exI [of _ s]) (subst inode_write_loop.simps, simp)
  next
    case False
    let ?k = "unat offset div BLOCK_SIZE" and ?r = "unat offset mod BLOCK_SIZE" and ?n = "chunk_size offset (length src)"
    obtain b s1 where m: "inode_mapblock ip ?k s = Some (b, s1)" "map_post ip (fpos ?k) s b s1"
      using inode_mapblock_spec [OF 1(2,3) offset_block] by blast
    then have g1: "growS ip s s1" by (simp add: map_post_def)
    note ok1 = file_ok_growS [OF 1(2) g1]
    show ?thesis
    proof (cases "b < 0")
      case True
      then show ?thesis using False m growS_frameS [OF g1] growS_bytes [OF g1]
        by (intro exI [of _ 0] exI [of _ s1]) (subst inode_write_loop.simps, simp add: map_post_def)
    next
      case nb: False
      then have sl: "slot (view s1) (inode s1 ip) (fpos ?k) = b" using m(2) by (simp add: map_post_def)
      obtain i s2 where o: "block_open b s1 = Some (i, s2)" "holds s1 b i s2" "view s2 = view s1" "superblock s2 = superblock s1"
        by (rule file_block [of ip s1 "fpos ?k"]) (use ok1 1(3) fpos_valid(1) [OF offset_block] sl nb in auto)
      let ?d = "put_bytes ?r (take ?n src) (block_data_of i s2)"
      note st = holds_store [OF o(2), of ?d]
      obtain s3 where c: "block_close i (block_store i ?d s2) = Some s3" "dframe s1 s3"
        "view s3 = view (block_store i ?d s2)" "superblock s3 = superblock (block_store i ?d s2)"
        by (rule holds_close [OF st(1)])
      have v3: "view s3 = (view s1)(slot (view s1) (inode s1 ip) (fpos ?k) := block_clip ?d)" using c(3) st(2) o(3) sl by simp
      have i3: "inode s3 ip = inode s1 ip" "inodes s3 = inodes s1" "inode_state.more s3 = inode_state.more s1"
        using more_inodes [of s3 s1] c(2) by (auto simp: dframe_def)
      have inv1: "file_inv (superblock s1) (view s1) (inode s1 ip)" "sb_ok (superblock s1)" "ip < length (inodes s1)"
        using ok1 by (auto simp: file_ok_def)
      have b1: "0 \<le> slot (view s1) (inode s1 ip) (fpos ?k)" using sl nb by simp
      note sf = store_framed [OF inv1(1,2) offset_block b1, where D = "block_clip ?d", folded v3]
      have f13: "frameS ip s1 s3"
        using c(2,4) st(3) o(4) i3 sf(1) by (simp add: frameS_def dframe_def same_sb_refl same_core_def inode_def)
      have f: "frameS ip s s3" by (rule frameS_trans [OF growS_frameS [OF g1] f13])
      note ok3 = file_ok_frameS [OF 1(2) f]
      have nr: "?n \<le> length src" "length (take ?n src) = ?n" by (auto simp: chunk_size_def)
      have ua: "unat (offset + of_nat ?n) = unat offset + ?n" using 1(4) nr by (intro unat_offset_add) simp
      have bytes: "file_byte (view s3) (inode s3 ip) j = patched (file_byte (view s) (inode s ip)) (unat offset) (take ?n src) j"
        if j: "j < 2 ^ 32" for j
      proof (cases "unat offset \<le> j \<and> j < unat offset + ?n")
        case True
        then have jn: "j - unat offset < ?n" "unat offset + (j - unat offset) = j" by auto
        note cd = chunk_div_mod [OF jn(1), unfolded jn(2)]
        have "file_byte (view s3) (inode s3 ip) j = block_clip ?d (?r + (j - unat offset))"
          using sf(2) [OF j] cd i3 by simp
        also have "\<dots> = take ?n src ! (j - unat offset)" using cd(3) jn(1) nr by (simp add: block_clip_def put_bytes_def)
        finally show ?thesis using True nr by (simp add: patched_def)
      next
        case out: False
        have "file_byte (view s3) (inode s3 ip) j = file_byte (view s1) (inode s1 ip) j"
        proof (cases "j div BLOCK_SIZE = ?k")
          case True
          have jk: "j = ?k * BLOCK_SIZE + j mod BLOCK_SIZE" "unat offset = ?k * BLOCK_SIZE + ?r"
            using True by (metis div_mult_mod_eq)+
          have "\<not> (?r \<le> j mod BLOCK_SIZE \<and> j mod BLOCK_SIZE < ?r + ?n)" using out jk by linarith
          then have "block_clip ?d (j mod BLOCK_SIZE) = view s1 b (j mod BLOCK_SIZE)"
            using fun_cong [OF holds_data [OF o(2)], of "j mod BLOCK_SIZE"] nr o(3)
            by (auto simp: block_clip_def put_bytes_def BLOCK_SIZE_def split: if_splits)
          then show ?thesis using sf(2) [OF j] True i3 sl nb by (simp add: file_byte_def Let_def)
        next
          case False
          then show ?thesis using sf(2) [OF j] i3 by simp
        qed
        then show ?thesis using growS_bytes [OF g1 j] out nr by (auto simp: patched_def)
      qed
      have IH: "\<exists>n s'. inode_write_loop ip (offset + of_nat ?n) (drop ?n src) s3 =
            Some (offset + of_nat ?n + of_nat n, drop n (drop ?n src), s') \<and> n \<le> length (drop ?n src) \<and>
          frameS ip s3 s' \<and> (n < length (drop ?n src) \<longrightarrow> disk_full (superblock s3) (view s')) \<and>
          (\<forall>j < 2 ^ 32. file_byte (view s') (inode s' ip) j =
             patched (file_byte (view s3) (inode s3 ip)) (unat (offset + of_nat ?n)) (take n (drop ?n src)) j)"
        using 1(1) [OF False, of "(b, s1)" b s1 "(i, s2)" i s2 ?n s3] m(1) nb o(1) c(1) ok3 1(3,4) ua nr by simp
      then obtain n s' where r: "inode_write_loop ip (offset + of_nat ?n) (drop ?n src) s3 =
            Some (offset + of_nat ?n + of_nat n, drop n (drop ?n src), s')" "n \<le> length (drop ?n src)"
          "frameS ip s3 s'" "n < length (drop ?n src) \<longrightarrow> disk_full (superblock s3) (view s')"
          "\<forall>j < 2 ^ 32. file_byte (view s') (inode s' ip) j =
             patched (file_byte (view s3) (inode s3 ip)) (unat offset + ?n) (take n (drop ?n src)) j"
        unfolding ua by blast
      have "inode_write_loop ip offset src s = inode_write_loop ip (offset + of_nat ?n) (drop ?n src) s3"
        using False m(1) nb o(1) c(1) by (subst inode_write_loop.simps) (simp add: Let_def)
      also have "\<dots> = Some (offset + of_nat (?n + n), drop (?n + n) src, s')" by (simp add: r(1) add.assoc add.commute)
      finally have e: "inode_write_loop ip offset src s = Some (offset + of_nat (?n + n), drop (?n + n) src, s')" .
      have "file_byte (view s') (inode s' ip) j = patched (file_byte (view s) (inode s ip)) (unat offset) (take (?n + n) src) j"
        if j: "j < 2 ^ 32" for j
      proof -
        have "file_byte (view s') (inode s' ip) j =
            patched (patched (file_byte (view s) (inode s ip)) (unat offset) (take ?n src)) (unat offset + ?n) (take n (drop ?n src)) j"
          using r(5) j bytes [OF j] by (simp add: patched_def)
        then show ?thesis
          using fun_cong [OF patched_append [of "file_byte (view s) (inode s ip)" "unat offset" "take ?n src" "take n (drop ?n src)"], of j] nr(2)
          by (simp only: nr(2)) (simp add: take_add)
      qed
      moreover have "disk_full (superblock s3) = disk_full (superblock s)" using f same_sb_simps(10) by (auto simp: frameS_def)
      ultimately show ?thesis using e r(2,4) frameS_trans [OF f r(3)] nr by (intro exI [of _ "?n + n"] exI [of _ s']) auto
    qed
  qed
qed

section \<open>The inode on the disk\<close>

lemma inode_block_range:
  assumes "sb_ok sb" "n < inode_count sb"
  shows "INODE2BLOCK sb n = int (unat (inode_offset sb) + unat n div 64)" "blkno (INODE2BLOCK sb n)"
    "INODE2BLOCK sb n < int (unat (datablock_offset sb))" "k < unat (block_count sb) \<Longrightarrow> INODE2BLOCK sb n \<noteq> map_block sb k"
    "INODE2OFFSET n < INODE_PER_BLOCK"
proof -
  have n: "unat n < unat (inode_count sb)" using assms(2) by (simp add: word_less_nat_alt)
  then have "unat n div 64 < (unat (inode_count sb) + 63) div 64" by linarith
  then have lt: "unat (inode_offset sb) + unat n div 64 < unat (datablock_offset sb)" "unat (datablock_offset sb) \<le> 2 ^ 29"
    using assms(1) by (auto simp: sb_ok_def)
  then have lt29: "unat (inode_offset sb) + unat n div 64 < 2 ^ 29" by linarith
  have "inode_offset sb + n div 64 = of_int (int (unat (inode_offset sb) + unat n div 64))"
    by (simp add: of_nat_div [symmetric] word_arith_nat_div)
  then show e: "INODE2BLOCK sb n = int (unat (inode_offset sb) + unat n div 64)"
    using int_less_power [OF lt29] sint_u32 [of "int (unat (inode_offset sb) + unat n div 64)"]
    by (simp add: INODE2BLOCK_def INODE_PER_BLOCK_def)
  show "blkno (INODE2BLOCK sb n)" unfolding e blkno_def using int_less_power [OF lt29] by simp
  show "INODE2BLOCK sb n < int (unat (datablock_offset sb))" unfolding e of_nat_less_iff by (rule lt(1))
  show "INODE2BLOCK sb n \<noteq> map_block sb k" if "k < unat (block_count sb)"
  proof -
    have "map_block sb k < int (unat (inode_offset sb))" by (rule map_block_range(3) [OF assms(1) that])
    then show ?thesis unfolding e by linarith
  qed
  have "unat (n mod 64) < 64" by (simp add: unat_mod)
  then show "INODE2OFFSET n < INODE_PER_BLOCK" by (simp add: INODE2OFFSET_def INODE_PER_BLOCK_def)
qed

lemma write_diskinode_spec:
  assumes "buf_inv s" "sb_ok (superblock s)" "0 < spare s" "n < inode_count (superblock s)"
  obtains s' where "write_diskinode n x s = Some s'" "dframe s s'" "superblock s' = superblock s"
    "view s' = (view s)(INODE2BLOCK (superblock s) n :=
       put_diskinode (INODE2OFFSET n) x (view s (INODE2BLOCK (superblock s) n)))"
proof -
  let ?b = "INODE2BLOCK (superblock s) n"
  note rg = inode_block_range [OF assms(2,4)]
  obtain i s1 where o: "block_open ?b s = Some (i, s1)" "holds s ?b i s1" "view s1 = view s" "superblock s1 = superblock s"
    by (rule block_bracket [OF assms(1) rg(2) assms(3)])
  let ?d = "put_diskinode (INODE2OFFSET n) x (block_data_of i s1)"
  note st = holds_store [OF o(2), of ?d]
  obtain s3 where c: "block_close i (block_store i ?d s1) = Some s3" "dframe s s3"
    "view s3 = view (block_store i ?d s1)" "superblock s3 = superblock (block_store i ?d s1)"
    by (rule holds_close [OF st(1)])
  have "block_clip ?d = put_diskinode (INODE2OFFSET n) x (view s ?b)"
    using holds_data [OF o(2)] o(3) by (simp add: put_diskinode_clip [OF rg(5)])
  then show thesis using that [of s3] c st o by (simp add: write_diskinode_def)
qed

lemma read_diskinode_spec:
  assumes "buf_inv s" "sb_ok (superblock s)" "0 < spare s" "n < inode_count (superblock s)"
  obtains s' where "read_diskinode n s = Some (diskinode_at (view s (INODE2BLOCK (superblock s) n)) (INODE2OFFSET n), s')"
    "dframe s s'" "superblock s' = superblock s" "view s' = view s"
proof -
  let ?b = "INODE2BLOCK (superblock s) n"
  note rg = inode_block_range [OF assms(2,4)]
  obtain i s1 where o: "block_open ?b s = Some (i, s1)" "holds s ?b i s1" "view s1 = view s" "superblock s1 = superblock s"
    by (rule block_bracket [OF assms(1) rg(2) assms(3)])
  obtain s3 where c: "block_close i s1 = Some s3" "dframe s s3" "view s3 = view s1" "superblock s3 = superblock s1"
    by (rule holds_close [OF o(2)])
  have "diskinode_at (block_data_of i s1) (INODE2OFFSET n) = diskinode_at (view s ?b) (INODE2OFFSET n)"
    using diskinode_clip [OF rg(5), of "block_data_of i s1"] holds_data [OF o(2)] o(3) by simp
  then show thesis using that [of s3] c o by (simp add: read_diskinode_def)
qed

text \<open>Writing the table of inodes leaves the files alone.\<close>

lemma table_block_file:
  assumes inv: "file_inv sb V x" and sb: "sb_ok sb" and b: "b < int (unat (datablock_offset sb))"
    "\<forall>k < unat (block_count sb). b \<noteq> map_block sb k"
  shows "file_inv sb (V(b := D)) x" "valid_pos p \<Longrightarrow> slot (V(b := D)) x p = slot V x p"
    "n < 2 ^ 32 \<Longrightarrow> file_byte (V(b := D)) x n = file_byte V x n" "fblocks (V(b := D)) x = fblocks V x"
    "k < unat (block_count sb) \<Longrightarrow> used_in sb (V(b := D)) k = used_in sb V k" "taken sb (V(b := D)) c = taken sb V c"
proof -
  have ne: "slot V x p \<noteq> b" if "valid_pos p" "0 \<le> slot V x p" for p
    using file_invD(2) [OF inv that] b(1) by (auto simp: taken_def data_block_def)
  show slots: "slot (V(b := D)) x p = slot V x p" if "valid_pos p" for p
    by (rule slot_cong) (use ne that in auto)
  show us: "used_in sb (V(b := D)) k = used_in sb V k" if "k < unat (block_count sb)" for k
    using b(2) that by (simp add: used_in_def) metis
  then show tk: "taken sb (V(b := D)) c = taken sb V c" for c by (auto simp: taken_def)
  show "fblocks (V(b := D)) x = fblocks V x" unfolding fblocks_def by (rule Collect_cong) (metis slots)
  show "file_inv sb (V(b := D)) x" by (rule file_inv_cong [OF inv slots tk refl])
  show "file_byte (V(b := D)) x n = file_byte V x n" if "n < 2 ^ 32"
  proof -
    have "n div BLOCK_SIZE < 2 ^ 20" using that by (simp add: BLOCK_SIZE_def less_mult_imp_div_less)
    then have v: "valid_pos (fpos (n div BLOCK_SIZE))" by (rule fpos_valid(1))
    show ?thesis using slots [OF v] ne [OF v] by (auto simp: file_byte_def Let_def)
  qed
qed

section \<open>Properties\<close>

text \<open>
  Another file of the table: an inode whose map is in order and shares no block with the file written.
\<close>

definition apart :: "nat \<Rightarrow> nat \<Rightarrow> 'a inode_state_scheme \<Rightarrow> bool" where
  "apart ip jp s \<longleftrightarrow> jp \<noteq> ip \<and> file_inv (superblock s) (view s) (inode s jp) \<and>
     fblocks (view s) (inode s ip) \<inter> fblocks (view s) (inode s jp) = {}"

lemma frameS_apart:
  assumes ok: "file_ok ip s" and f: "frameS ip s s'" and a: "apart ip jp s"
  shows "inode s' jp = inode s jp" "file_inv (superblock s') (view s') (inode s' jp)"
    "n < 2 ^ 32 \<Longrightarrow> file_byte (view s') (inode s' jp) n = file_byte (view s) (inode s jp) n" "apart ip jp s'"
proof -
  note fr = f [unfolded frameS_def framed_def]
  let ?x = "inode s jp" and ?sb = "superblock s"
  have inv: "file_inv ?sb (view s) ?x" and disj: "fblocks (view s) (inode s ip) \<inter> fblocks (view s) ?x = {}" and ne: "jp \<noteq> ip"
    using a by (auto simp: apart_def)
  show same: "inode s' jp = ?x" using fr ne by (metis inode_def nth_list_update_neq)
  have keep: "view s' (slot (view s) ?x p) = view s (slot (view s) ?x p)" if "valid_pos p" "0 \<le> slot (view s) ?x p" for p
  proof -
    have "slot (view s) ?x p \<in> fblocks (view s) ?x" using that by (auto simp: fblocks_def)
    then have "slot (view s) ?x p \<notin> fblocks (view s) (inode s ip)" using disj by blast
    then show ?thesis using fr file_invD(2) [OF inv that] by blast
  qed
  have slots: "slot (view s') ?x p = slot (view s) ?x p" if "valid_pos p" for p
    by (rule slot_cong) (use keep that in auto)
  have fb: "fblocks (view s') ?x = fblocks (view s) ?x" unfolding fblocks_def by (rule Collect_cong) (metis slots)
  have sbs: "taken (superblock s') = taken ?sb" "\<And>V. file_inv (superblock s') V ?x = file_inv ?sb V ?x"
    using fr by (auto simp: same_sb_def)
  have tk: "taken ?sb (view s') b" if "taken ?sb (view s) b" for b using taken_mono [OF that] fr by blast
  have inv': "file_inv ?sb (view s') ?x"
    unfolding file_inv_def
  proof (intro conjI allI impI; (elim conjE)?)
    show "length (direct ?x) = NUM_DIRECT_BLOCKS" by (rule file_invD(1) [OF inv])
    show "taken ?sb (view s') (slot (view s') ?x p)" if "valid_pos p" "0 \<le> slot (view s') ?x p" for p
      using tk file_invD(2) [OF inv that(1)] that slots [OF that(1)] by simp
    show "p = q" if "valid_pos p" "valid_pos q" "0 \<le> slot (view s') ?x p" "slot (view s') ?x p = slot (view s') ?x q" for p q
      using file_invD(3) [OF inv that(1,2)] that slots [OF that(1)] slots [OF that(2)] by simp
  qed
  then show inv'': "file_inv (superblock s') (view s') (inode s' jp)" unfolding same sbs .
  have "fblocks (view s') (inode s' ip) \<inter> fblocks (view s) ?x = {}"
  proof -
    have "b \<notin> fblocks (view s) ?x" if "b \<in> fblocks (view s') (inode s' ip)" for b
    proof
      assume b: "b \<in> fblocks (view s) ?x"
      then have "taken ?sb (view s) b" using file_invD(2) [OF inv] by (auto simp: fblocks_def)
      then show False using fr that disj b by blast
    qed
    then show ?thesis by blast
  qed
  then show "apart ip jp s'" using inv'' ne unfolding apart_def same fb by simp
  show "file_byte (view s') (inode s' jp) n = file_byte (view s) ?x n" if "n < 2 ^ 32"
  proof -
    have "n div BLOCK_SIZE < 2 ^ 20" using that by (simp add: BLOCK_SIZE_def less_mult_imp_div_less)
    then have v: "valid_pos (fpos (n div BLOCK_SIZE))" by (rule fpos_valid(1))
    show ?thesis using slots [OF v] keep [OF v] by (auto simp: file_byte_def Let_def same)
  qed
qed

text \<open>
  C1. \<open>inode_write\<close> implements writing into a sequence of bytes, across direct, indirect and doubly
  indirect blocks: for an unlocked region that does not wrap, it returns the number of bytes written,
  which is smaller than asked only when the disk is full; exactly these bytes of the file change, the
  size becomes at least their end, the block map stays in order (no block has two places), every other
  file keeps its map and its bytes, and the inode on the disk is the one in memory.
\<close>

theorem inode_write_refines:
  assumes ok: "file_ok ip s" "3 \<le> spare s" and ty: "i_type (inode s ip) \<noteq> FS_TYPE_DEV" and lk: "acquired (inode s ip)"
    and nm: "inode_num (inode s ip) < inode_count (superblock s)" and len: "unat offset + length src < 2 ^ 32"
  shows "\<exists>n s'. inode_write ip offset src s = Some (n, s') \<and> n \<le> length src \<and>
    (n < length src \<longrightarrow> disk_full (superblock s') (view s')) \<and> file_ok ip s' \<and> pins s' = pins s \<and>
    (\<forall>j < 2 ^ 32. file_byte (view s') (inode s' ip) j = patched (file_byte (view s) (inode s ip)) (unat offset) (take n src) j) \<and>
    i_size (inode s' ip) = max (i_size (inode s ip)) (offset + of_nat n) \<and>
    (\<forall>jp. apart ip jp s \<longrightarrow> inode s' jp = inode s jp \<and> file_inv (superblock s') (view s') (inode s' jp) \<and>
       (\<forall>j < 2 ^ 32. file_byte (view s') (inode s' jp) j = file_byte (view s) (inode s jp) j)) \<and>
    (let b = INODE2BLOCK (superblock s) (inode_num (inode s ip)); k = INODE2OFFSET (inode_num (inode s ip)) in
     view s' b = put_diskinode k (inode s' ip) (view s b))"
proof -
  let ?x = "inode s ip" and ?sb = "superblock s"
  obtain n s1 where w: "inode_write_loop ip offset src s = Some (offset + of_nat n, drop n src, s1)" "n \<le> length src"
      "frameS ip s s1" "n < length src \<longrightarrow> disk_full ?sb (view s1)"
      "\<And>j. j < 2 ^ 32 \<Longrightarrow> file_byte (view s1) (inode s1 ip) j = patched (file_byte (view s) ?x) (unat offset) (take n src) j"
    using write_loop_spec [OF ok len] by blast
  note fr = w(3) [unfolded frameS_def]
  note ok1 = file_ok_frameS [OF ok(1) w(3)]
  have core: "acquired (inode s1 ip)" "inode_num (inode s1 ip) = inode_num ?x" "i_size (inode s1 ip) = i_size ?x"
    using fr lk by (auto simp: same_core_def)
  define x2 where "x2 = (if offset + of_nat n > i_size ?x then (inode s1 ip)\<lparr>i_size := offset + of_nat n\<rparr> else inode s1 ip)"
  define s2 where "s2 = (if offset + of_nat n > i_size (inode s1 ip) then set_inode ip ((inode s1 ip)\<lparr>i_size := offset + of_nat n\<rparr>) s1 else s1)"
  have l1: "ip < length (inodes s1)" using ok1 by (simp add: file_ok_def)
  have s2: "view s2 = view s1" "superblock s2 = superblock s1" "pins s2 = pins s1" "buf_inv s2 = buf_inv s1" "spare s2 = spare s1"
    "inode s2 ip = x2" "\<And>jp. jp \<noteq> ip \<Longrightarrow> inode s2 jp = inode s1 jp" "length (inodes s2) = length (inodes s1)"
    using l1 core by (simp_all add: s2_def x2_def)
  have x2: "acquired x2" "inode_num x2 = inode_num ?x" "i_size x2 = max (i_size ?x) (offset + of_nat n)"
    "direct x2 = direct (inode s1 ip)" "indirect x2 = indirect (inode s1 ip)" "double_indirect x2 = double_indirect (inode s1 ip)"
    using core by (auto simp: x2_def max_def)
  have slot2: "slot V x2 p = slot V (inode s1 ip) p" for V p using x2(4-6) by (cases p) auto
  then have f2: "file_inv sb V x2 = file_inv sb V (inode s1 ip)" "file_byte V x2 = file_byte V (inode s1 ip)" for sb V
    using x2(4) by (simp_all add: file_inv_def file_byte_def fun_eq_iff)
  let ?b = "INODE2BLOCK ?sb (inode_num ?x)" and ?k = "INODE2OFFSET (inode_num ?x)"
  have sb1: "inode_count (superblock s1) = inode_count ?sb" "INODE2BLOCK (superblock s1) = INODE2BLOCK ?sb"
    "map_block (superblock s1) = map_block ?sb" "block_count (superblock s1) = block_count ?sb" "datablock_offset (superblock s1) = datablock_offset ?sb"
    "disk_full (superblock s1) = disk_full ?sb" "sb_ok (superblock s1)"
    using fr ok(1) same_sb_simps(10) [of s s1] by (auto simp: same_sb_def INODE2BLOCK_def file_ok_def fun_eq_iff)
  have p2: "buf_inv s2" "sb_ok (superblock s2)" "0 < spare s2" "inode_num ?x < inode_count (superblock s2)"
    using ok1 s2 ok(2) nm sb1 by (auto simp: file_ok_def)
  obtain s3 where d: "write_diskinode (inode_num ?x) x2 s2 = Some s3" "dframe s2 s3" "superblock s3 = superblock s2"
    "view s3 = (view s2)(INODE2BLOCK (superblock s2) (inode_num ?x) :=
       put_diskinode ?k x2 (view s2 (INODE2BLOCK (superblock s2) (inode_num ?x))))"
    by (rule write_diskinode_spec [OF p2])
  have v3: "view s3 = (view s1)(?b := put_diskinode ?k x2 (view s1 ?b))" using d(4) s2 sb1 by simp
  have in3: "inode s3 jp = inode s2 jp" "length (inodes s3) = length (inodes s2)" for jp
    using more_inodes [of s3 s2] d(2) by (auto simp: dframe_def)
  note rg = inode_block_range [OF sb1(7), of "inode_num ?x", unfolded sb1, OF nm]
  have bx: "\<forall>k < unat (block_count (superblock s1)). ?b \<noteq> map_block (superblock s1) k" "?b < int (unat (datablock_offset (superblock s1)))"
    using rg sb1 by auto
  have f1: "file_inv (superblock s1) (view s1) (inode s1 ip)" using ok1 by (simp add: file_ok_def)
  note tb = table_block_file [OF f1 sb1(7) bx(2,1), where D = "put_diskinode ?k x2 (view s1 ?b)", folded v3]
  have e: "inode_write ip offset src s = Some (n, s3)"
  proof -
    have "inode_write ip offset src s = inode_sync ip s2 \<bind> (\<lambda>s. Some (n, s))"
      using ty w(1,2) by (simp add: inode_write_def s2_def Let_def)
    moreover have "inode_sync ip s2 = Some s3" using d(1) x2(1,2) by (simp add: inode_sync_def s2(6))
    ultimately show ?thesis by simp
  qed
  have full: "n < length src \<longrightarrow> disk_full (superblock s3) (view s3)"
  proof -
    have "disk_full (superblock s1) (view s3) = disk_full (superblock s1) (view s1)" unfolding disk_full_def using tb(5) by simp
    then show ?thesis using w(4) sb1(6) d(3) s2(2) by simp
  qed
  have fok: "file_ok ip s3"
    using ok1 d s2 in3 tb(1) f2 sb1 by (simp add: file_ok_def dframe_def)
  have bytes: "\<forall>j < 2 ^ 32. file_byte (view s3) (inode s3 ip) j = patched (file_byte (view s) ?x) (unat offset) (take n src) j"
    using tb(3) w(5) in3 s2 f2 by simp
  have others: "inode s3 jp = inode s jp \<and> file_inv (superblock s3) (view s3) (inode s3 jp) \<and>
      (\<forall>j < 2 ^ 32. file_byte (view s3) (inode s3 jp) j = file_byte (view s) (inode s jp) j)" if a: "apart ip jp s" for jp
  proof -
    note fa = frameS_apart [OF ok(1) w(3) a]
    have j: "inode s3 jp = inode s1 jp" using in3 s2 a by (simp add: apart_def)
    note tj = table_block_file [OF fa(2) sb1(7) bx(2,1), where D = "put_diskinode ?k x2 (view s1 ?b)", folded v3]
    show ?thesis using fa j tj d(3) s2 by simp
  qed
  have "view s1 ?b = view s ?b" using fr rg sb1 by (auto simp: framed_def)
  then have disk: "view s3 ?b = put_diskinode ?k (inode s3 ip) (view s ?b)" using v3 in3 s2 by simp
  have pin: "pins s3 = pins s" using d(2) s2 fr by (simp add: dframe_def)
  have sz: "i_size (inode s3 ip) = max (i_size ?x) (offset + of_nat n)" using x2(3) in3 s2 by simp
  show ?thesis unfolding Let_def using e w(2) full fok pin bytes sz others disk by blast
qed

text \<open>A state for the witnesses: an empty disk, and the first inode of the table open for file 5.\<close>

definition one_file :: inode_state where
  "one_file = disk_state.extend empty_disk \<lparr>inodes =
     blank_inode\<lparr>i_type := FS_TYPE_FILE, link_count := 1, inode_num := 5, i_valid := True, ref_count := 1, acquired := True\<rparr> #
     replicate 63 blank_inode\<rparr>"

lemma one_file_disk:
  "superblock one_file = small_sb" "blocks one_file = blocks empty_disk" "view one_file = view empty_disk"
  "pins one_file = pins empty_disk" "spare one_file = 8" "buf_inv one_file"
proof -
  show b: "superblock one_file = small_sb" "blocks one_file = blocks empty_disk"
    by (simp_all add: one_file_def empty_disk_def disk_state.defs)
  have "lower one_file = lower empty_disk"
    by (rule ext) (simp add: lower_def one_file_def empty_disk_def disk_state.defs Let_def)
  then show "view one_file = view empty_disk" by (intro view_eqI) (simp_all add: b)
  show "pins one_file = pins empty_disk" "spare one_file = 8" "buf_inv one_file"
    using empty_disk_ok by (simp_all add: pins_def spare_def buf_inv_def b)
qed

lemma one_file_ok: "file_ok 0 one_file" "i_type (inode one_file 0) = FS_TYPE_FILE" "acquired (inode one_file 0)"
  "inode_num (inode one_file 0) = 5" "i_size (inode one_file 0) = 0"
proof -
  have i: "inode one_file 0 = blank_inode\<lparr>i_type := FS_TYPE_FILE, link_count := 1, inode_num := 5, i_valid := True, ref_count := 1, acquired := True\<rparr>"
    "length (inodes one_file) = 64"
    by (simp_all add: one_file_def inode_def empty_disk_def disk_state.defs)
  then show "i_type (inode one_file 0) = FS_TYPE_FILE" "acquired (inode one_file 0)" "inode_num (inode one_file 0) = 5"
    "i_size (inode one_file 0) = 0"
    by (simp_all add: blank_inode_def)
  have "slot V (inode one_file 0) p < 0" if "valid_pos p" for V p
    using that i(1) by (cases p) (simp_all add: blank_inode_def entry_def)
  then have "file_inv small_sb V (inode one_file 0)" for V
    unfolding file_inv_def using i(1) by (auto simp: blank_inode_def dest: leD)
  then show "file_ok 0 one_file"
    using one_file_disk empty_disk_ok(3) i(2) by (simp add: file_ok_def empty_disk_def)
qed

theorem inode_write_refines_witness:
  "\<exists>n s'. inode_write 0 4094 [1, 2, 3, 4] one_file = Some (n, s') \<and> n \<le> length [1, 2, 3, 4 :: u8] \<and>
    (\<forall>j < 2 ^ 32. file_byte (view s') (inode s' 0) j =
       patched (file_byte (view one_file) (inode one_file 0)) (unat (4094 :: u32)) (take n [1, 2, 3, 4]) j)"
proof -
  have "3 \<le> spare one_file" "i_type (inode one_file 0) \<noteq> FS_TYPE_DEV" "inode_num (inode one_file 0) < inode_count (superblock one_file)"
    "unat (4094 :: u32) + length [1, 2, 3, 4 :: u8] < 2 ^ 32"
    using one_file_ok one_file_disk by (simp_all add: FS_TYPE_FILE_def FS_TYPE_DEV_def small_sb_def)
  from inode_write_refines [OF one_file_ok(1) this(1,2) one_file_ok(3) this(3,4)] show ?thesis by blast
qed

text \<open>
  C2. \<open>inode_read\<close> returns the bytes of the file: from an offset within the file it gives the bytes up
  to the end asked for or the end of the file, and fewer only if a hole could not be filled because the
  disk is full; reading changes no file. From an offset behind the end, or for a range that wraps
  around, it gives nothing.
\<close>

theorem inode_read_refines:
  assumes ok: "file_ok ip s" "3 \<le> spare s" and ty: "i_type (inode s ip) \<noteq> FS_TYPE_DEV"
  shows "\<exists>n s'. inode_read ip offset len s =
      Some (map (file_byte (view s) (inode s ip)) [unat offset..<unat offset + n], s') \<and> file_ok ip s' \<and> pins s' = pins s \<and>
      (\<forall>j < 2 ^ 32. file_byte (view s') (inode s' ip) j = file_byte (view s) (inode s ip) j) \<and>
      (if unat offset > unat (i_size (inode s ip)) \<or> unat offset + unat len \<ge> 2 ^ 32 then n = 0
       else n \<le> min (unat len) (unat (i_size (inode s ip)) - unat offset) \<and>
         (n < min (unat len) (unat (i_size (inode s ip)) - unat offset) \<longrightarrow> disk_full (superblock s) (view s')))"
proof -
  let ?x = "inode s ip"
  have wrap: "offset + len < offset \<longleftrightarrow> unat offset + unat len \<ge> 2 ^ 32"
    using unsigned_less [of len, where ?'a = nat] unsigned_less [of offset, where ?'a = nat]
    by (auto simp: word_less_nat_alt unat_word_ariths mod_if)
  show ?thesis
  proof (cases "unat offset > unat (i_size ?x) \<or> unat offset + unat len \<ge> 2 ^ 32")
    case True
    then have "offset > i_size ?x \<or> offset + len < offset" using wrap by (simp add: word_less_nat_alt)
    then have "inode_read ip offset len s = Some ([], s)" using ty by (simp add: inode_read_def)
    then show ?thesis using True ok by (intro exI [of _ 0] exI [of _ s]) simp
  next
    case False
    then have r: "\<not> (offset > i_size ?x \<or> offset + len < offset)" "unat offset \<le> unat (i_size ?x)" "unat (offset + len) = unat offset + unat len"
      using wrap by (auto simp: word_less_nat_alt unat_word_ariths)
    define l where "l = (if offset + len > i_size ?x then i_size ?x - offset else len)"
    have l: "unat l = min (unat len) (unat (i_size ?x) - unat offset)"
      using r by (auto simp: l_def word_less_nat_alt word_le_nat_alt unat_sub)
    have lt: "unat offset + unat l < 2 ^ 32" using False l by auto
    obtain n s' where w: "inode_read_loop ip offset (unat l) [] s =
        Some ([] @ map (file_byte (view s) ?x) [unat offset..<unat offset + n], s')"
      "growS ip s s'" "n \<le> unat l" "n < unat l \<longrightarrow> disk_full (superblock s) (view s')"
      using read_loop_spec [OF ok lt] by blast
    have "inode_read ip offset len s = Some (map (file_byte (view s) ?x) [unat offset..<unat offset + n], s')"
      using ty r(1) w(1) by (simp add: inode_read_def l_def [symmetric] Let_def)
    then show ?thesis using w False l file_ok_growS [OF ok(1) w(2)] growS_bytes [OF w(2)]
      by (intro exI [of _ n] exI [of _ s']) (auto simp: growS_def)
  qed
qed

theorem inode_read_refines_witness:
  "\<exists>n s'. inode_read 0 0 100 one_file =
     Some (map (file_byte (view one_file) (inode one_file 0)) [unat (0 :: u32)..<unat (0 :: u32) + n], s') \<and> file_ok 0 s'"
proof -
  have "3 \<le> spare one_file" "i_type (inode one_file 0) \<noteq> FS_TYPE_DEV"
    using one_file_ok one_file_disk by (simp_all add: FS_TYPE_FILE_def FS_TYPE_DEV_def)
  from inode_read_refines [OF one_file_ok(1) this, of 0 100] show ?thesis by blast
qed

text \<open>
  C31. The layout of an inode on the disk: writing an inode into its 64 bytes and reading them back
  gives its fields, for pointers in the range of an \<open>int\<close>, and every other inode of the block keeps
  its fields.
\<close>

theorem diskinode_codec:
  assumes "length (direct x) = NUM_DIRECT_BLOCKS" "\<forall>v \<in> set (direct x). int32 v" "int32 (indirect x)" "int32 (double_indirect x)"
  shows "diskinode_at (put_diskinode off x d) off = disk_part x \<and>
    (\<forall>off'. off' \<noteq> off \<longrightarrow> diskinode_at (put_diskinode off x d) off' = diskinode_at d off')"
  using diskinode_at_put [OF assms] diskinode_at_put_other by metis

theorem diskinode_codec_witness:
  "diskinode_at (put_diskinode 3 (blank_inode\<lparr>indirect := 77\<rparr>) (\<lambda>k. 0)) 3 = disk_part (blank_inode\<lparr>indirect := 77\<rparr>) \<and>
    diskinode_at (put_diskinode 3 (blank_inode\<lparr>indirect := 77\<rparr>) (\<lambda>k. 0)) 5 = diskinode_at (\<lambda>k. 0) 5"
  using diskinode_codec [of "blank_inode\<lparr>indirect := 77\<rparr>" 3 "\<lambda>k. 0"]
  by (simp add: blank_inode_def int32_def NUM_DIRECT_BLOCKS_def)

section \<open>The life of an inode\<close>

text \<open>
  C38. A reference that is not opened at once is lost: \<open>inode_ref\<close> takes the first entry of type 0 and
  leaves its type 0 until \<open>inode_open\<close> loads it, so that the next \<open>inode_ref\<close> of another inode that is
  not in the table returns the same entry and overwrites number and count.
\<close>

theorem inode_ref_alias:
  assumes "length (inodes s) = NINODE" "inode_ref n s = Some (i, s1)" "i_type (inode s1 i) = 0"
    "\<forall>j < NINODE. i_type (inode s j) \<noteq> 0 \<longrightarrow> inode_num (inode s j) \<noteq> n'"
  shows "\<exists>s2. inode_ref n' s1 = Some (i, s2) \<and> inode_num (inode s2 i) = n' \<and> ref_count (inode s2 i) = 1"
proof -
  let ?P = "\<lambda>i. i_type (inode s i) \<noteq> 0 \<and> inode_num (inode s i) = n \<and> ref_count (inode s i) > 0"
  let ?y = "(inode s i)\<lparr>inode_num := n, ref_count := 1, i_valid := False\<rparr>"
  have "find ?P [0..<NINODE] = None"
  proof (rule ccontr)
    assume "find ?P [0..<NINODE] \<noteq> None"
    then obtain j where j: "find ?P [0..<NINODE] = Some j" by blast
    from find_SomeD [OF j] have jl: "j < length (inodes s)" "i_type (inode s j) \<noteq> 0" using assms(1) by auto
    from j assms(2) have "i = j" "s1 = set_inode j ((inode s j)\<lparr>ref_count := ref_count (inode s j) + 1\<rparr>) s"
      by (auto simp: inode_ref_def)
    then show False using assms(3) jl by simp
  qed
  then have e: "find (\<lambda>i. i_type (inode s i) = 0) [0..<NINODE] = Some i" "s1 = set_inode i ?y s"
    using assms(2) by (auto simp: inode_ref_def split: option.splits bind_splits)
  then have i: "i < length (inodes s)" "i_type (inode s i) = 0" using find_SomeD [OF e(1)] assms(1) by auto
  have t: "i_type (inode s1 j) = i_type (inode s j)" for j using i by (simp add: e(2))
  have "find (\<lambda>i. i_type (inode s1 i) \<noteq> 0 \<and> inode_num (inode s1 i) = n' \<and> ref_count (inode s1 i) > 0) [0..<NINODE] = None"
    using assms(4) i by (auto simp: find_None_iff t e(2))
  moreover have "find (\<lambda>i. i_type (inode s1 i) = 0) [0..<NINODE] = Some i" using e(1) by (simp add: t)
  moreover have "i < length (inodes s1)" using i by (simp add: e(2))
  ultimately show ?thesis by (simp add: inode_ref_def)
qed

theorem inode_ref_alias_witness:
  "\<exists>s1 s2. inode_ref 7 one_file = Some (1, s1) \<and> inode_ref 8 s1 = Some (1, s2) \<and> inode_num (inode s2 1) = 8"
proof -
  have i: "inodes one_file = blank_inode\<lparr>i_type := FS_TYPE_FILE, link_count := 1, inode_num := 5, i_valid := True, ref_count := 1, acquired := True\<rparr> #
     replicate 63 blank_inode"
    by (simp add: one_file_def empty_disk_def disk_state.defs)
  have z: "inode one_file (Suc j) = blank_inode" if "j < 63" for j using that by (simp add: inode_def i)
  have o: "inode one_file 0 = blank_inode\<lparr>i_type := FS_TYPE_FILE, link_count := 1, inode_num := 5, i_valid := True, ref_count := 1, acquired := True\<rparr>"
    by (simp add: inode_def i)
  have none: "\<forall>j < NINODE. i_type (inode one_file j) \<noteq> 0 \<longrightarrow> inode_num (inode one_file j) \<noteq> n" if "n \<noteq> 5" for n
  proof (intro allI impI)
    fix j assume "j < NINODE" "i_type (inode one_file j) \<noteq> 0"
    then show "inode_num (inode one_file j) \<noteq> n"
      using that o z [of "j - 1"] by (cases j) (simp_all add: NINODE_def blank_inode_def)
  qed
  have u: "[0..<NINODE] = 0 # 1 # [2..<NINODE]" by (simp add: NINODE_def upt_rec)
  have "find (\<lambda>i. i_type (inode one_file i) \<noteq> 0 \<and> inode_num (inode one_file i) = 7 \<and> ref_count (inode one_file i) > 0) [0..<NINODE] = None"
    using none [of 7] by (auto simp: find_None_iff)
  moreover have "find (\<lambda>i. i_type (inode one_file i) = 0) [0..<NINODE] = Some 1"
    using o z [of 0] by (simp add: u blank_inode_def FS_TYPE_FILE_def)
  ultimately obtain s1 where r: "inode_ref 7 one_file = Some (1, s1)"
    "s1 = set_inode 1 ((inode one_file 1)\<lparr>inode_num := 7, ref_count := 1, i_valid := False\<rparr>) one_file"
    by (simp add: inode_ref_def)
  have l: "length (inodes one_file) = NINODE" by (simp add: i NINODE_def)
  have "i_type (inode s1 1) = 0" using z [of 0] l by (simp add: r(2) NINODE_def blank_inode_def)
  from inode_ref_alias [OF l r(1) this none [of 8]] r(1) show ?thesis by auto
qed

text \<open>
  C39. Deleting an inode never frees it on the disk: \<open>inode_deref\<close> of the last reference to an inode with
  no links (here of a file without blocks) clears \<open>valid\<close> before \<open>inode_clear\<close> could write the type 0,
  so that no byte of the disk changes and the number stays taken; and the nested \<open>inode_close\<close> has
  already cleared the entry, so that its count of references wraps to 65535.
\<close>

lemma free_direct_none: "\<forall>j < i + n. direct (inode s ip) ! j < 0 \<Longrightarrow> free_direct ip i n s = Some s"
proof (induction n arbitrary: i)
  case (Suc n)
  have "\<not> 0 \<le> direct (inode s ip) ! i" using Suc.prems by (simp add: not_le)
  then show ?case using Suc.IH [of "Suc i"] Suc.prems by simp
qed simp



end
