(* ===== verification/Fs_Dcache.thy ===== *)
theory Fs_Dcache
  imports Kernel_Prelude
begin

unbundle bit_operations_syntax

text \<open>
  The cache of directory entries: \<open>kernel/fs/dcache.c\<close>.

  The hash table is a list of chains, each a list of entries with the newest first; \<open>None\<close> is the
  table before \<open>init_dentry_cache\<close>. A name is the array of \<open>MAX_FILE_NAME\<close> bytes or the string it is
  compared with; a list of bytes stands for these bytes and a terminating zero. The calls of \<open>kmalloc\<close>
  that may fail are the argument \<open>mem\<close>; \<open>kfree\<close> of an entry is its disappearance. Each operation runs
  under \<open>dcache_lock\<close> and is atomic.

  The locale \<open>entry_cache\<close> is the contract of such a cache with its client \<open>dir.c\<close>; it is interpreted
  on these operations, and gives that a hit is always the entry of the directory.
\<close>

section \<open>Names\<close>

definition MAX_FILE_NAME :: nat where "MAX_FILE_NAME = 28"

definition DENTRY_CACHE_BUCKETS :: nat where "DENTRY_CACHE_BUCKETS = 256"

definition char_at :: "u8 list \<Rightarrow> nat \<Rightarrow> u8" where
  "char_at s i = (if i < length s then s ! i else 0)"

fun strncmp_from :: "u8 list \<Rightarrow> u8 list \<Rightarrow> nat \<Rightarrow> nat \<Rightarrow> int" where
  "strncmp_from a b i 0 = 0"
| "strncmp_from a b i (Suc n) =
     (if char_at a i = 0 \<or> char_at a i \<noteq> char_at b i then uint (char_at a i) - uint (char_at b i)
      else strncmp_from a b (Suc i) n)"

definition filename_cmp :: "u8 list \<Rightarrow> u8 list \<Rightarrow> int" where
  "filename_cmp path1 path2 = strncmp_from path1 path2 0 MAX_FILE_NAME"

record dentry_t =
  d_name :: "u8 list"
  d_inode :: u32

record dcache_entry_t =
  e_parent :: u32
  e_offset :: u64
  e_dentry :: dentry_t

record dcache_t =
  dcache_table :: "dcache_entry_t list list option"
  dcache_enabled :: bool

section \<open>Operations\<close>

fun hash_loop :: "u8 list \<Rightarrow> nat \<Rightarrow> nat \<Rightarrow> u32 \<Rightarrow> u32 \<times> nat" where
  "hash_loop name i 0 hash = (hash, i)"
| "hash_loop name i (Suc n) hash =
     (if char_at name i = 0 then (hash, i) else hash_loop name (Suc i) n ((hash XOR ucast (char_at name i)) * 16777619))"

definition dcache_hash :: "u32 \<Rightarrow> u8 list \<Rightarrow> u32" where
  "dcache_hash parent_inode name =
     (let (hash, i) = hash_loop name 0 MAX_FILE_NAME (2166136261 XOR parent_inode)
      in ((hash XOR of_nat i) * 16777619) AND (of_nat DENTRY_CACHE_BUCKETS - 1))"

definition same_entry :: "u32 \<Rightarrow> u8 list \<Rightarrow> dcache_entry_t \<Rightarrow> bool" where
  "same_entry parent_inode name e \<longleftrightarrow> e_parent e = parent_inode \<and> filename_cmp (d_name (e_dentry e)) name = 0"

definition dcache_reset :: "dcache_t \<Rightarrow> dcache_t" where
  "dcache_reset c = (case dcache_table c of None \<Rightarrow> c | Some t \<Rightarrow> c\<lparr>dcache_table := Some (map (\<lambda>chain. []) t)\<rparr>)"

definition init_dentry_cache :: "bool \<Rightarrow> dcache_t \<Rightarrow> dcache_t option" where
  "init_dentry_cache mem c =
     (case dcache_table c of
        None \<Rightarrow> if mem then Some (c\<lparr>dcache_table := Some (replicate DENTRY_CACHE_BUCKETS []), dcache_enabled := True\<rparr>) else None
      | Some t \<Rightarrow> Some ((dcache_reset c)\<lparr>dcache_enabled := True\<rparr>))"

definition dcache_get :: "u32 \<Rightarrow> u8 list \<Rightarrow> dcache_t \<Rightarrow> (dentry_t \<times> u64) option" where
  "dcache_get parent_inode name c =
     (case dcache_table c of
        None \<Rightarrow> None
      | Some t \<Rightarrow>
          if \<not> dcache_enabled c then None
          else map_option (\<lambda>e. (e_dentry e, e_offset e))
                 (find (same_entry parent_inode name) (t ! unat (dcache_hash parent_inode name))))"

fun chain_update :: "u32 \<Rightarrow> dentry_t \<Rightarrow> u64 \<Rightarrow> dcache_entry_t list \<Rightarrow> dcache_entry_t list option" where
  "chain_update parent_inode d offset [] = None"
| "chain_update parent_inode d offset (e # es) =
     (if same_entry parent_inode (d_name d) e then Some (e\<lparr>e_dentry := d, e_offset := offset\<rparr> # es)
      else map_option ((#) e) (chain_update parent_inode d offset es))"

definition dcache_put :: "bool \<Rightarrow> u32 \<Rightarrow> dentry_t \<Rightarrow> u64 \<Rightarrow> dcache_t \<Rightarrow> dcache_t" where
  "dcache_put mem parent_inode d offset c =
     (case dcache_table c of
        None \<Rightarrow> c
      | Some t \<Rightarrow>
          if d_inode d = 0 \<or> \<not> dcache_enabled c then c
          else let bucket = unat (dcache_hash parent_inode (d_name d)) in
            case chain_update parent_inode d offset (t ! bucket) of
              Some chain \<Rightarrow> c\<lparr>dcache_table := Some (t[bucket := chain])\<rparr>
            | None \<Rightarrow>
                if \<not> mem then c
                else c\<lparr>dcache_table := Some (t[bucket := \<lparr>e_parent = parent_inode, e_offset = offset, e_dentry = d\<rparr> # t ! bucket])\<rparr>)"

fun chain_remove :: "u32 \<Rightarrow> u8 list \<Rightarrow> dcache_entry_t list \<Rightarrow> dcache_entry_t list" where
  "chain_remove parent_inode name [] = []"
| "chain_remove parent_inode name (e # es) =
     (if same_entry parent_inode name e then es else e # chain_remove parent_inode name es)"

definition dcache_remove :: "u32 \<Rightarrow> u8 list \<Rightarrow> dcache_t \<Rightarrow> dcache_t" where
  "dcache_remove parent_inode name c =
     (case dcache_table c of
        None \<Rightarrow> c
      | Some t \<Rightarrow>
          if \<not> dcache_enabled c then c
          else let bucket = unat (dcache_hash parent_inode name) in
            c\<lparr>dcache_table := Some (t[bucket := chain_remove parent_inode name (t ! bucket)])\<rparr>)"

fun chain_invalidate :: "u32 \<Rightarrow> dcache_entry_t list \<Rightarrow> dcache_entry_t list" where
  "chain_invalidate parent_inode [] = []"
| "chain_invalidate parent_inode (e # es) =
     (if e_parent e = parent_inode then chain_invalidate parent_inode es else e # chain_invalidate parent_inode es)"

definition dcache_invalidate :: "u32 \<Rightarrow> dcache_t \<Rightarrow> dcache_t" where
  "dcache_invalidate parent_inode c =
     (case dcache_table c of
        None \<Rightarrow> c
      | Some t \<Rightarrow> if \<not> dcache_enabled c then c else c\<lparr>dcache_table := Some (map (chain_invalidate parent_inode) t)\<rparr>)"

definition dcache_set_enabled :: "bool \<Rightarrow> bool \<Rightarrow> dcache_t \<Rightarrow> dcache_t option" where
  "dcache_set_enabled mem enabled c =
     (case dcache_table c of
        None \<Rightarrow>
          let c = c\<lparr>dcache_enabled := enabled\<rparr> in
          if enabled then init_dentry_cache mem c else Some c
      | Some t \<Rightarrow>
          let changed = (dcache_enabled c \<noteq> enabled); c = c\<lparr>dcache_enabled := enabled\<rparr> in
          Some (if \<not> enabled \<or> changed then dcache_reset c else c))"

definition dcache_is_enabled :: "dcache_t \<Rightarrow> bool" where
  "dcache_is_enabled c = dcache_enabled c"

section \<open>The table as a map\<close>

text \<open>The name an array of bytes stands for, and the key of an entry.\<close>

definition cname :: "u8 list \<Rightarrow> u8 list" where
  "cname s = takeWhile (\<lambda>b. b \<noteq> 0) (take MAX_FILE_NAME s)"

definition ekey :: "dcache_entry_t \<Rightarrow> u32 \<times> u8 list" where
  "ekey e = (e_parent e, cname (d_name (e_dentry e)))"

lemma name_rest:
  "takeWhile (\<lambda>b. b \<noteq> 0) (take (Suc n) (drop i s)) =
     (if char_at s i = 0 then [] else char_at s i # takeWhile (\<lambda>b. b \<noteq> 0) (take n (drop (Suc i) s)))"
  by (cases "i < length s") (simp_all add: char_at_def Cons_nth_drop_Suc [symmetric])

lemma strncmp_from_zero:
  "strncmp_from a b i n = 0 \<longleftrightarrow>
     takeWhile (\<lambda>b. b \<noteq> 0) (take n (drop i a)) = takeWhile (\<lambda>b. b \<noteq> 0) (take n (drop i b))"
proof -
  have u: "uint x = uint y \<longleftrightarrow> x = y" for x y :: u8 by (simp add: word_uint_eq_iff)
  have z: "uint x = 0 \<longleftrightarrow> x = 0" for x :: u8 using u [of x 0] by simp
  show ?thesis by (induction a b i n rule: strncmp_from.induct) (auto simp: name_rest u z)
qed

lemma filename_cmp_zero: "filename_cmp a b = 0 \<longleftrightarrow> cname a = cname b"
  using strncmp_from_zero [of a b 0 MAX_FILE_NAME] by (simp add: filename_cmp_def cname_def)

lemma same_entry_iff: "same_entry p n e \<longleftrightarrow> ekey e = (p, cname n)"
  by (auto simp: same_entry_def ekey_def filename_cmp_zero)

lemma same_entry_eq: "same_entry p n = (\<lambda>e. ekey e = (p, cname n))"
  by (rule ext) (rule same_entry_iff)

lemma hash_loop_cong:
  "takeWhile (\<lambda>b. b \<noteq> 0) (take n (drop i a)) = takeWhile (\<lambda>b. b \<noteq> 0) (take n (drop i b)) \<Longrightarrow>
     hash_loop a i n h = hash_loop b i n h"
  by (induction a i n h rule: hash_loop.induct) (auto simp: name_rest split: if_splits)

lemma dcache_hash_cong: "cname a = cname b \<Longrightarrow> dcache_hash p a = dcache_hash p b"
  using hash_loop_cong [of MAX_FILE_NAME 0 a b] by (simp add: dcache_hash_def cname_def)

lemma cname_idem [simp]: "cname (cname s) = cname s"
proof -
  have "length (cname s) \<le> MAX_FILE_NAME"
    unfolding cname_def by (metis length_takeWhile_le length_take min.bounded_iff order_trans min.cobounded2)
  then show ?thesis by (simp add: cname_def [of "cname s"])
      (auto simp: cname_def takeWhile_eq_all_conv dest: set_takeWhileD)
qed

lemma dcache_hash_bound: "unat (dcache_hash p n) < DENTRY_CACHE_BUCKETS"
proof -
  have "unat (x AND 255 :: u32) < 256" for x :: u32
  proof -
    have "x AND 255 = take_bit 8 x" by (simp add: take_bit_eq_mask mask_numeral)
    then show ?thesis using take_bit_nat_less_exp [of 8 "unat x"] by (simp add: unsigned_take_bit_eq)
  qed
  then show ?thesis by (simp add: dcache_hash_def DENTRY_CACHE_BUCKETS_def split: prod.split)
qed

definition bucket_of :: "u32 \<times> u8 list \<Rightarrow> nat" where
  "bucket_of k = unat (dcache_hash (fst k) (snd k))"

definition dc_inv :: "dcache_t \<Rightarrow> bool" where
  "dc_inv c \<longleftrightarrow> (case dcache_table c of None \<Rightarrow> True | Some t \<Rightarrow>
     length t = DENTRY_CACHE_BUCKETS \<and>
     (\<forall>b < DENTRY_CACHE_BUCKETS. distinct (map ekey (t ! b)) \<and> (\<forall>e \<in> set (t ! b). bucket_of (ekey e) = b)))"

definition dc_map :: "dcache_t \<Rightarrow> u32 \<times> u8 list \<Rightarrow> (u32 \<times> u64) option" where
  "dc_map c k = (if cname (snd k) = snd k
     then map_option (\<lambda>(d, off). (d_inode d, off)) (dcache_get (fst k) (snd k) c) else None)"

definition chain_map :: "dcache_entry_t list \<Rightarrow> u32 \<times> u8 list \<Rightarrow> (u32 \<times> u64) option" where
  "chain_map es k = map_option (\<lambda>e. (d_inode (e_dentry e), e_offset e)) (find (\<lambda>e. ekey e = k) es)"

lemma bucket_of_cname [simp]: "bucket_of (p, cname n) = unat (dcache_hash p n)"
  using dcache_hash_cong [of "cname n" n p] by (simp add: bucket_of_def)

lemma dc_map_table:
  "dcache_table c = Some t \<Longrightarrow> dcache_enabled c \<Longrightarrow>
     dc_map c k = (if cname (snd k) = snd k then chain_map (t ! bucket_of k) k else None)"
  by (cases k) (auto simp: dc_map_def dcache_get_def chain_map_def bucket_of_def same_entry_eq option.map_comp comp_def)

lemma dc_map_off: "dcache_table c = None \<or> \<not> dcache_enabled c \<Longrightarrow> dc_map c k = None"
  by (auto simp: dc_map_def dcache_get_def split: option.splits)

lemma dcache_get_map: "map_option (\<lambda>(d, off). (d_inode d, off)) (dcache_get p n c) = dc_map c (p, cname n)"
proof -
  have "dcache_get p (cname n) c = dcache_get p n c"
    by (simp add: dcache_get_def dcache_hash_cong [of "cname n" n] same_entry_eq split: option.split)
  then show ?thesis by (simp add: dc_map_def)
qed

lemma chain_update_spec:
  "chain_update p d off es = None \<longleftrightarrow> (p, cname (d_name d)) \<notin> ekey ` set es"
  "chain_update p d off es = Some es' \<Longrightarrow> map ekey es' = map ekey es \<and>
     chain_map es' = (chain_map es)((p, cname (d_name d)) \<mapsto> (d_inode d, off))"
proof (induction es arbitrary: es')
  case (Cons e es)
  {
    case 1
    then show ?case using Cons.IH(1) by (auto simp: same_entry_iff)
  next
    case 2
    show ?case
    proof (cases "same_entry p (d_name d) e")
      case True
      then show ?thesis using 2 by (auto simp: same_entry_iff ekey_def chain_map_def fun_eq_iff)
    next
      case False
      then obtain r where "chain_update p d off es = Some r" "es' = e # r" using 2 by auto
      with Cons.IH(2) [of r] False show ?thesis by (auto simp: chain_map_def fun_eq_iff same_entry_iff)
    qed
  }
qed (simp_all add: chain_map_def)

lemma chain_remove_spec:
  assumes "distinct (map ekey es)"
  shows "chain_map (chain_remove p n es) = (chain_map es)((p, cname n) := None)"
    "distinct (map ekey (chain_remove p n es))" "set (chain_remove p n es) \<subseteq> set es"
  using assms
proof (induction es)
  case (Cons e es)
  {
    case 1
    have "same_entry p n e \<Longrightarrow> find (\<lambda>e. ekey e = (p, cname n)) es = None"
      using 1 by (auto simp: find_None_iff same_entry_iff image_iff)
    then show ?case using Cons.IH(1) 1 by (auto simp: chain_map_def fun_eq_iff same_entry_iff)
  next
    case 2
    then show ?case using Cons.IH(2,3) by (auto simp: same_entry_iff)
  next
    case 3
    then show ?case using Cons.IH(3) by auto
  }
qed (simp_all add: chain_map_def fun_eq_iff)

lemma chain_invalidate_eq: "chain_invalidate p es = filter (\<lambda>e. e_parent e \<noteq> p) es"
  by (induction es) auto

lemma chain_map_filter: "chain_map (filter (\<lambda>e. e_parent e \<noteq> p) es) k = (if fst k = p then None else chain_map es k)"
  by (induction es) (auto simp: chain_map_def ekey_def)

lemma dc_invD:
  assumes "dc_inv c" "dcache_table c = Some t"
  shows "length t = DENTRY_CACHE_BUCKETS" "b < DENTRY_CACHE_BUCKETS \<Longrightarrow> distinct (map ekey (t ! b))"
    "b < DENTRY_CACHE_BUCKETS \<Longrightarrow> e \<in> set (t ! b) \<Longrightarrow> bucket_of (ekey e) = b"
  using assms by (auto simp: dc_inv_def)

text \<open>Replacing one chain.\<close>

lemma set_bucket:
  assumes "dc_inv c" "dcache_table c = Some t" "b < DENTRY_CACHE_BUCKETS" "distinct (map ekey es)"
    "\<forall>e \<in> set es. bucket_of (ekey e) = b"
  shows "dc_inv (c\<lparr>dcache_table := Some (t[b := es])\<rparr>)"
    "dcache_enabled c \<Longrightarrow> dc_map (c\<lparr>dcache_table := Some (t[b := es])\<rparr>) k =
       (if bucket_of k = b \<and> cname (snd k) = snd k then chain_map es k else dc_map c k)"
proof -
  note d = dc_invD [OF assms(1,2)]
  show "dc_inv (c\<lparr>dcache_table := Some (t[b := es])\<rparr>)"
    using d assms(3-5) by (auto simp: dc_inv_def nth_list_update)
  assume e: "dcache_enabled c"
  have "bucket_of k < DENTRY_CACHE_BUCKETS" unfolding bucket_of_def by (rule dcache_hash_bound)
  then show "dc_map (c\<lparr>dcache_table := Some (t[b := es])\<rparr>) k =
       (if bucket_of k = b \<and> cname (snd k) = snd k then chain_map es k else dc_map c k)"
    using dc_map_table [of "c\<lparr>dcache_table := Some (t[b := es])\<rparr>" "t[b := es]" k] dc_map_table [OF assms(2) e, of k] e d(1) assms(3)
    by (auto simp: nth_list_update)
qed

text \<open>The effect of each operation on the map.\<close>

definition dc_takes :: "bool \<Rightarrow> u32 \<Rightarrow> dentry_t \<Rightarrow> dcache_t \<Rightarrow> bool" where
  "dc_takes mem p d c \<longleftrightarrow> dcache_table c \<noteq> None \<and> dcache_enabled c \<and> d_inode d \<noteq> 0 \<and>
     (mem \<or> dc_map c (p, cname (d_name d)) \<noteq> None)"

lemma chain_map_None: "chain_map es k = None \<longleftrightarrow> k \<notin> ekey ` set es"
  by (auto simp: chain_map_def find_None_iff)

lemma chain_map_Cons: "chain_map (e # es) = (chain_map es)(ekey e \<mapsto> (d_inode (e_dentry e), e_offset e))"
  by (auto simp: chain_map_def)

lemma put_chain:
  assumes "dc_inv c" "dcache_table c = Some t" "dcache_enabled c" "distinct (map ekey es)"
    "\<forall>e \<in> set es. bucket_of (ekey e) = bucket_of k" "cname (snd k) = snd k"
    "chain_map es = (chain_map (t ! bucket_of k))(k := v)"
  shows "dc_map (c\<lparr>dcache_table := Some (t[bucket_of k := es])\<rparr>) = (dc_map c)(k := v)"
proof
  fix k'
  have "bucket_of k < DENTRY_CACHE_BUCKETS" unfolding bucket_of_def by (rule dcache_hash_bound)
  from set_bucket(2) [OF assms(1,2) this assms(4,5,3), of k'] assms(6,7) dc_map_table [OF assms(2,3), of k']
  show "dc_map (c\<lparr>dcache_table := Some (t[bucket_of k := es])\<rparr>) k' = ((dc_map c)(k := v)) k'"
    by (auto split: if_splits)
qed

lemma dcache_put_spec:
  assumes i: "dc_inv c"
  shows "dc_inv (dcache_put mem p d off c) \<and>
    dc_map (dcache_put mem p d off c) =
      (if dc_takes mem p d c then (dc_map c)((p, cname (d_name d)) \<mapsto> (d_inode d, off)) else dc_map c)"
proof (cases "dcache_table c = None \<or> d_inode d = 0 \<or> \<not> dcache_enabled c")
  case True
  then have "dcache_put mem p d off c = c" by (auto simp: dcache_put_def split: option.split)
  with True i show ?thesis by (auto simp: dc_takes_def)
next
  case False
  then obtain t where t: "dcache_table c = Some t" and on: "dcache_enabled c" and d0: "d_inode d \<noteq> 0" by auto
  let ?k = "(p, cname (d_name d))" and ?e = "\<lparr>e_parent = p, e_offset = off, e_dentry = d\<rparr>"
  let ?b = "bucket_of ?k"
  have b: "?b < DENTRY_CACHE_BUCKETS" unfolding bucket_of_def by (rule dcache_hash_bound)
  note dd = dc_invD(2,3) [OF i t b]
  have m: "dc_map c ?k = chain_map (t ! ?b) ?k" by (simp add: dc_map_table [OF t on])
  show ?thesis
  proof (cases "chain_update p d off (t ! ?b)")
    case None
    then have n: "?k \<notin> ekey ` set (t ! ?b)" by (simp add: chain_update_spec(1) del: bucket_of_cname)
    have ke: "ekey ?e = ?k" by (simp add: ekey_def)
    have ok: "distinct (map ekey (?e # t ! ?b))" "\<forall>e \<in> set (?e # t ! ?b). bucket_of (ekey e) = ?b"
      using dd n ke by (auto simp del: bucket_of_cname)
    have put: "dcache_put mem p d off c = (if mem then c\<lparr>dcache_table := Some (t[?b := ?e # t ! ?b])\<rparr> else c)"
      using None t on d0 by (simp add: dcache_put_def Let_def)
    have "dc_map (c\<lparr>dcache_table := Some (t[?b := ?e # t ! ?b])\<rparr>) = (dc_map c)(?k \<mapsto> (d_inode d, off))"
      by (rule put_chain [OF i t on ok]) (simp_all add: chain_map_Cons ke)
    then show ?thesis using put i set_bucket(1) [OF i t b ok] m n t on d0
      by (auto simp: dc_takes_def chain_map_None simp del: bucket_of_cname)
  next
    case (Some es)
    note u = chain_update_spec(2) [OF Some]
    have "\<forall>k \<in> set (map ekey (t ! ?b)). bucket_of k = ?b" using dd(2) by auto
    then have "\<forall>k \<in> set (map ekey es). bucket_of k = ?b" unfolding conjunct1 [OF u] .
    then have ok2: "\<forall>e \<in> set es. bucket_of (ekey e) = ?b" by simp
    have "distinct (map ekey es)" using dd(1) conjunct1 [OF u] by simp
    note ok = this ok2
    have put: "dcache_put mem p d off c = c\<lparr>dcache_table := Some (t[?b := es])\<rparr>"
      using Some t on d0 by (simp add: dcache_put_def Let_def)
    have "chain_map (t ! ?b) ?k \<noteq> None"
      using chain_update_spec(1) [of p d off "t ! ?b"] Some by (simp add: chain_map_None del: bucket_of_cname)
    then have "dc_takes mem p d c" using m t on d0 by (simp add: dc_takes_def del: bucket_of_cname)
    moreover have "dc_map (c\<lparr>dcache_table := Some (t[?b := es])\<rparr>) = (dc_map c)(?k \<mapsto> (d_inode d, off))"
      by (rule put_chain [OF i t on ok]) (simp_all add: u)
    ultimately show ?thesis using put set_bucket(1) [OF i t b ok] by simp
  qed
qed

lemma dcache_remove_spec:
  assumes i: "dc_inv c"
  shows "dc_inv (dcache_remove p n c) \<and> dc_map (dcache_remove p n c) = (dc_map c)((p, cname n) := None)"
proof (cases "dcache_table c = None \<or> \<not> dcache_enabled c")
  case True
  then have "dcache_remove p n c = c" by (auto simp: dcache_remove_def split: option.split)
  with True i dc_map_off show ?thesis by (auto simp: fun_eq_iff)
next
  case False
  then obtain t where t: "dcache_table c = Some t" and on: "dcache_enabled c" by auto
  let ?b = "bucket_of (p, cname n)"
  have b: "?b < DENTRY_CACHE_BUCKETS" unfolding bucket_of_def by (rule dcache_hash_bound)
  note dd = dc_invD(2,3) [OF i t b] and r = chain_remove_spec [OF dc_invD(2) [OF i t b], of p n]
  have ok: "\<forall>e \<in> set (chain_remove p n (t ! ?b)). bucket_of (ekey e) = ?b" using dd r(3) by blast
  have "dcache_remove p n c = c\<lparr>dcache_table := Some (t[?b := chain_remove p n (t ! ?b)])\<rparr>"
    using t on by (simp add: dcache_remove_def Let_def)
  then show ?thesis using set_bucket(1) [OF i t b r(2) ok] put_chain [OF i t on r(2) ok _ r(1)] by simp
qed

lemma dcache_invalidate_spec:
  assumes i: "dc_inv c"
  shows "dc_inv (dcache_invalidate p c) \<and>
    dc_map (dcache_invalidate p c) = (\<lambda>k. if fst k = p then None else dc_map c k)"
proof (cases "dcache_table c = None \<or> \<not> dcache_enabled c")
  case True
  then have "dcache_invalidate p c = c" by (auto simp: dcache_invalidate_def split: option.split)
  with True i dc_map_off show ?thesis by (auto simp: fun_eq_iff)
next
  case False
  then obtain t where t: "dcache_table c = Some t" and on: "dcache_enabled c" by auto
  let ?t = "map (chain_invalidate p) t"
  note d = dc_invD [OF i t]
  have e: "dcache_invalidate p c = c\<lparr>dcache_table := Some ?t\<rparr>" using t on by (simp add: dcache_invalidate_def)
  have "dc_inv (c\<lparr>dcache_table := Some ?t\<rparr>)"
    using d by (auto simp: dc_inv_def chain_invalidate_eq distinct_map intro: inj_on_subset)
  moreover have "dc_map (c\<lparr>dcache_table := Some ?t\<rparr>) k = (if fst k = p then None else dc_map c k)" for k
  proof -
    have "bucket_of k < length t" unfolding bucket_of_def d(1) by (rule dcache_hash_bound)
    then show ?thesis using dc_map_table [of "c\<lparr>dcache_table := Some ?t\<rparr>" ?t k] dc_map_table [OF t on, of k] on
      by (simp add: chain_invalidate_eq chain_map_filter)
  qed
  ultimately show ?thesis by (auto simp: e)
qed

lemma empty_table:
  assumes "dcache_table c = Some (replicate DENTRY_CACHE_BUCKETS [])"
  shows "dc_inv c \<and> dc_map c = Map.empty"
proof -
  have "dc_map c k = None" for k
  proof (cases "dcache_enabled c")
    case True
    have "bucket_of k < DENTRY_CACHE_BUCKETS" unfolding bucket_of_def by (rule dcache_hash_bound)
    then show ?thesis by (simp add: dc_map_table [OF assms True] chain_map_def)
  qed (simp add: dc_map_off)
  then show ?thesis using assms by (auto simp: dc_inv_def)
qed

lemma dcache_reset_spec:
  assumes "dc_inv c"
  shows "dc_inv (dcache_reset c) \<and> dc_map (dcache_reset c) = Map.empty"
    "dcache_table c = Some t \<Longrightarrow> dcache_table (dcache_reset c) = Some (replicate DENTRY_CACHE_BUCKETS [])"
proof -
  show r: "dcache_table c = Some t \<Longrightarrow> dcache_table (dcache_reset c) = Some (replicate DENTRY_CACHE_BUCKETS [])" for t
    using dc_invD(1) [OF assms] by (simp add: dcache_reset_def map_replicate_const)
  show "dc_inv (dcache_reset c) \<and> dc_map (dcache_reset c) = Map.empty"
  proof (cases "dcache_table c")
    case None
    then show ?thesis using assms by (auto simp: dcache_reset_def dc_map_off)
  qed (use r empty_table in blast)
qed

lemma init_dentry_cache_spec:
  assumes "dc_inv c" "init_dentry_cache mem c = Some c'"
  shows "dc_inv c' \<and> dc_map c' = Map.empty"
proof (rule empty_table)
  show "dcache_table c' = Some (replicate DENTRY_CACHE_BUCKETS [])"
    using assms dcache_reset_spec(2) [OF assms(1)]
    by (auto simp: init_dentry_cache_def split: option.splits if_splits)
qed

lemma dcache_set_enabled_spec:
  assumes "dc_inv c" "dcache_set_enabled mem en c = Some c'"
  shows "dc_inv c' \<and> (dc_map c' = Map.empty \<or> dc_map c' = dc_map c)"
proof (cases "dcache_table c")
  case None
  have "dc_inv (c\<lparr>dcache_enabled := en\<rparr>)" using None by (simp add: dc_inv_def)
  then show ?thesis using None assms(2) init_dentry_cache_spec [of "c\<lparr>dcache_enabled := en\<rparr>" mem c']
    by (auto simp: dcache_set_enabled_def dc_map_off Let_def fun_eq_iff split: if_splits)
next
  case (Some t)
  have i: "dc_inv (c\<lparr>dcache_enabled := en\<rparr>)" using assms(1) by (simp add: dc_inv_def)
  show ?thesis
  proof (cases "\<not> en \<or> dcache_enabled c \<noteq> en")
    case True
    then have "c' = dcache_reset (c\<lparr>dcache_enabled := en\<rparr>)"
      using Some assms(2) by (auto simp: dcache_set_enabled_def Let_def split: if_splits)
    then show ?thesis using dcache_reset_spec(1) [OF i] by simp
  next
    case False
    then have "c' = c" using Some assms(2) by (cases c) (auto simp: dcache_set_enabled_def Let_def)
    then show ?thesis using assms(1) by simp
  qed
qed

section \<open>The contract with the directory operations\<close>

text \<open>
  \<open>lookup\<close> is what the cache answers. A hit has to be an entry of the directories \<open>D\<close>, that is
  \<open>lookup c\<close> has to be a part of the map \<open>D\<close>. \<open>put\<close> and \<open>remove\<close> may forget, never invent.
\<close>

locale entry_cache =
  fixes lookup :: "'c \<Rightarrow> 'k \<Rightarrow> 'v option"
    and inv :: "'c \<Rightarrow> bool"
    and put :: "'e \<Rightarrow> 'c \<Rightarrow> 'c"
    and remove :: "'n \<Rightarrow> 'c \<Rightarrow> 'c"
    and valid :: "'e \<Rightarrow> bool"
    and entry_key :: "'e \<Rightarrow> 'k"
    and entry_val :: "'e \<Rightarrow> 'v"
    and name_key :: "'n \<Rightarrow> 'k"
  assumes put_inv: "inv c \<Longrightarrow> inv (put e c)"
    and remove_inv: "inv c \<Longrightarrow> inv (remove n c)"
    and lookup_put: "inv c \<Longrightarrow> valid e \<Longrightarrow> lookup (put e c) \<subseteq>\<^sub>m (lookup c)(entry_key e \<mapsto> entry_val e)"
    and lookup_remove: "inv c \<Longrightarrow> lookup (remove n c) \<subseteq>\<^sub>m (lookup c)(name_key n := None)"
begin

lemma link_agrees:
  assumes "inv c" "lookup c \<subseteq>\<^sub>m D" "valid e"
  shows "lookup (put e c) \<subseteq>\<^sub>m D(entry_key e \<mapsto> entry_val e)"
  using map_le_trans [OF lookup_put [OF assms(1,3)]] assms(2) by (simp add: map_le_upd)

lemma scan_agrees:
  assumes "inv c" "lookup c \<subseteq>\<^sub>m D" "valid e" "D (entry_key e) = Some (entry_val e)"
  shows "lookup (put e c) \<subseteq>\<^sub>m D"
  using link_agrees [OF assms(1-3)] assms(4) by (simp add: fun_upd_idem)

lemma unlink_agrees:
  assumes "inv c" "lookup c \<subseteq>\<^sub>m D"
  shows "lookup (remove n c) \<subseteq>\<^sub>m D(name_key n := None)"
  by (rule map_le_trans [OF lookup_remove [OF assms(1)]]) (use assms(2) in \<open>auto simp: map_le_def\<close>)

end

locale dir_cache = entry_cache lookup inv put remove valid entry_key entry_val name_key
  for lookup :: "'c \<Rightarrow> 'k \<Rightarrow> 'v option" and inv put remove valid
    and entry_key :: "'e \<Rightarrow> 'k" and entry_val and name_key :: "'n \<Rightarrow> 'k" +
  fixes drop_dir :: "'p \<Rightarrow> 'c \<Rightarrow> 'c"
    and dir_of :: "'k \<Rightarrow> 'p"
  assumes drop_inv: "inv c \<Longrightarrow> inv (drop_dir p c)"
    and lookup_drop: "inv c \<Longrightarrow> lookup (drop_dir p c) k = (if dir_of k = p then None else lookup c k)"
begin

lemma rmdir_agrees:
  assumes "inv c" "lookup c \<subseteq>\<^sub>m D"
  shows "lookup (drop_dir p c) \<subseteq>\<^sub>m (\<lambda>k. if dir_of k = p then None else D k)"
  using assms(2) by (auto simp: map_le_def lookup_drop [OF assms(1)] dom_def)

end

interpretation dcache: dir_cache dc_map dc_inv
    "\<lambda>(p, d, off). dcache_put mem p d off" "\<lambda>(p, n). dcache_remove p n"
    "\<lambda>(p, d, off). d_inode d \<noteq> 0" "\<lambda>(p, d, off). (p, cname (d_name d))" "\<lambda>(p, d, off). (d_inode d, off)"
    "\<lambda>(p, n). (p, cname n)" dcache_invalidate fst
  for mem
proof unfold_locales
  fix c and e :: "u32 \<times> dentry_t \<times> u64"
  assume i: "dc_inv c"
  obtain p d off where e: "e = (p, d, off)" by (cases e) auto
  note s = dcache_put_spec [OF i, of mem p d off]
  show "dc_inv ((case e of (p, d, off) \<Rightarrow> dcache_put mem p d off) c)" using s e by simp
  assume v: "case e of (p, d, off) \<Rightarrow> d_inode d \<noteq> 0"
  show "dc_map ((case e of (p, d, off) \<Rightarrow> dcache_put mem p d off) c) \<subseteq>\<^sub>m
      (dc_map c)((case e of (p, d, off) \<Rightarrow> (p, cname (d_name d))) \<mapsto> (case e of (p, d, off) \<Rightarrow> (d_inode d, off)))"
    using s e v dc_map_off [of c] by (auto simp: map_le_def dc_takes_def)
next
  fix c and n :: "u32 \<times> u8 list"
  assume i: "dc_inv c"
  show "dc_inv ((case n of (p, n) \<Rightarrow> dcache_remove p n) c)"
    using dcache_remove_spec [OF i] by (cases n) auto
  show "dc_map ((case n of (p, n) \<Rightarrow> dcache_remove p n) c) \<subseteq>\<^sub>m (dc_map c)((case n of (p, n) \<Rightarrow> (p, cname n)) := None)"
    using dcache_remove_spec [OF i] by (cases n) auto
next
  fix c p k
  assume "dc_inv c"
  then show "dc_inv (dcache_invalidate p c)" "dc_map (dcache_invalidate p c) k = (if fst k = p then None else dc_map c k)"
    using dcache_invalidate_spec by auto
qed

section \<open>Runs of the kernel\<close>

text \<open>A table with one entry, for the examples below.\<close>

definition demo_entry :: dentry_t where "demo_entry = \<lparr>d_name = [97, 0], d_inode = 5\<rparr>"

definition demo_table :: dcache_t where
  "demo_table = \<lparr>dcache_table = Some (replicate DENTRY_CACHE_BUCKETS []), dcache_enabled = True\<rparr>"

lemma demo_hit: "dcache_get 1 [97] (dcache_put True 1 demo_entry 64 demo_table) = Some (demo_entry, 64)"
proof -
  have h: "dcache_hash 1 (d_name demo_entry) = dcache_hash 1 [97]"
    by (rule dcache_hash_cong) (simp add: cname_def demo_entry_def MAX_FILE_NAME_def)
  have b: "unat (dcache_hash 1 [97]) < 256" using dcache_hash_bound by (simp add: DENTRY_CACHE_BUCKETS_def)
  have e: "same_entry 1 [97] \<lparr>e_parent = 1, e_offset = 64, e_dentry = demo_entry\<rparr>"
    by (simp add: same_entry_iff ekey_def cname_def demo_entry_def MAX_FILE_NAME_def)
  have n: "d_inode demo_entry \<noteq> 0" by (simp add: demo_entry_def)
  show ?thesis
    by (simp add: dcache_get_def dcache_put_def demo_table_def Let_def DENTRY_CACHE_BUCKETS_def h b e n)
qed

lemma demo_table_inv: "dc_inv demo_table"
  using empty_table [of demo_table] by (simp add: demo_table_def)

text \<open>
  The entries of all directories, by the inode number of the directory and the name, with the offset of
  the entry; and the cache beside them. \<open>scan\<close> is the loop of \<open>dir_lookup\<close>, \<open>link\<close> the end of
  \<open>dir_link\<close>, \<open>unlink\<close> that of \<open>dir_unlink\<close> and \<open>dir_rmdir\<close>, \<open>rmdir\<close> the call of
  \<open>dcache_invalidate\<close>, \<open>format\<close> \<open>do_mkfs\<close>, and \<open>toggle\<close> the write of \<open>/etc/fs\<close>.
\<close>

inductive cache_run :: "(u32 \<times> u8 list \<Rightarrow> (u32 \<times> u64) option) \<Rightarrow> dcache_t \<Rightarrow> bool" where
  boot: "cache_run D \<lparr>dcache_table = None, dcache_enabled = en\<rparr>"
| init: "cache_run D c \<Longrightarrow> init_dentry_cache mem c = Some c' \<Longrightarrow> cache_run D c'"
| scan: "cache_run D c \<Longrightarrow> d_inode d \<noteq> 0 \<Longrightarrow> D (p, cname (d_name d)) = Some (d_inode d, off) \<Longrightarrow>
    cache_run D (dcache_put mem p d off c)"
| link: "cache_run D c \<Longrightarrow> d_inode d \<noteq> 0 \<Longrightarrow>
    cache_run (D((p, cname (d_name d)) \<mapsto> (d_inode d, off))) (dcache_put mem p d off c)"
| unlink: "cache_run D c \<Longrightarrow> cache_run (D((p, cname n) := None)) (dcache_remove p n c)"
| rmdir: "cache_run D c \<Longrightarrow> cache_run (\<lambda>k. if fst k = p then None else D k) (dcache_invalidate p c)"
| format: "cache_run D c \<Longrightarrow> cache_run D' (dcache_reset c)"
| toggle: "cache_run D c \<Longrightarrow> dcache_set_enabled mem en c = Some c' \<Longrightarrow> cache_run D c'"

lemma cache_run_agrees: "cache_run D c \<Longrightarrow> dc_inv c \<and> dc_map c \<subseteq>\<^sub>m D"
proof (induction rule: cache_run.induct)
  case (boot D en)
  show ?case by (auto simp: dc_inv_def map_le_def dc_map_off)
next
  case (init D c mem c')
  then show ?case using init_dentry_cache_spec [of c mem c'] by auto
next
  case (scan D c d p off mem)
  then show ?case using dcache.scan_agrees [of c D "(p, d, off)" mem] dcache.put_inv [of c mem "(p, d, off)"] by simp
next
  case (link D c d p off mem)
  then show ?case using dcache.link_agrees [of c D "(p, d, off)" mem] dcache.put_inv [of c mem "(p, d, off)"]
    by (simp add: fun_upd_def)
next
  case (unlink D c p n)
  then show ?case using dcache.unlink_agrees [of c D "(p, n)"] dcache.remove_inv [of c "(p, n)"]
    by (simp add: fun_upd_def)
next
  case (rmdir D c p)
  then show ?case using dcache.rmdir_agrees [of c D p] dcache.drop_inv [of c p] by simp
next
  case (format D c D')
  then show ?case using dcache_reset_spec(1) [of c] by auto
next
  case (toggle D c mem en c')
  then show ?case using dcache_set_enabled_spec [of c mem en c'] by auto
qed



text \<open>
  C32. Refinement. The chained hash table implements a finite map from directory and name to inode number
  and offset: a lookup reads the map, \<open>dcache_put\<close> updates it when the entry is taken, and
  \<open>dcache_remove\<close>, \<open>dcache_invalidate\<close> and \<open>dcache_reset\<close> delete one key, one directory and all keys.
\<close>

theorem dcache_refines:
  assumes "dc_inv c"
  shows "map_option (\<lambda>(d, off). (d_inode d, off)) (dcache_get p n c) = dc_map c (p, cname n) \<and>
    dc_map (dcache_put mem p d off c) =
      (if dc_takes mem p d c then (dc_map c)((p, cname (d_name d)) \<mapsto> (d_inode d, off)) else dc_map c) \<and>
    dc_map (dcache_remove p n c) = (dc_map c)((p, cname n) := None) \<and>
    dc_map (dcache_invalidate p c) = (\<lambda>k. if fst k = p then None else dc_map c k) \<and>
    dc_map (dcache_reset c) = Map.empty"
  by (intro conjI dcache_get_map conjunct2 [OF dcache_put_spec] conjunct2 [OF dcache_remove_spec]
      conjunct2 [OF dcache_invalidate_spec] conjunct2 [OF dcache_reset_spec(1)] assms)

theorem dcache_refines_witness:
  "dc_inv (dcache_put True 1 demo_entry 64 demo_table) \<and>
    dc_map (dcache_put True 1 demo_entry 64 demo_table) (1, cname [97]) = Some (5, 64) \<and>
    dc_map (dcache_remove 1 [97] (dcache_put True 1 demo_entry 64 demo_table)) (1, cname [97]) = None"
proof -
  have i: "dc_inv (dcache_put True 1 demo_entry 64 demo_table)" using dcache_put_spec [OF demo_table_inv] by blast
  note r = dcache_refines [OF i, of 1 "[97]" True demo_entry 64]
  have "dc_map (dcache_put True 1 demo_entry 64 demo_table) (1, cname [97]) = Some (d_inode demo_entry, 64)"
    by (subst conjunct1 [OF r, symmetric]) (simp only: demo_hit option.map prod.case)
  moreover have "dc_map (dcache_remove 1 [97] (dcache_put True 1 demo_entry 64 demo_table)) (1, cname [97]) = None"
    by (simp only: conjunct1 [OF conjunct2 [OF conjunct2 [OF r]]] fun_upd_same)
  moreover have "d_inode demo_entry = 5" by (simp add: demo_entry_def)
  ultimately show ?thesis using i by (simp only:)
qed

section \<open>Well-formedness\<close>

datatype dc_op = Init bool | Reset | Put bool u32 dentry_t u64 | Remove u32 "u8 list" | Invalidate u32 | Set_enabled bool bool

fun dc_exec :: "dc_op \<Rightarrow> dcache_t \<Rightarrow> dcache_t option" where
  "dc_exec (Init mem) c = init_dentry_cache mem c"
| "dc_exec Reset c = Some (dcache_reset c)"
| "dc_exec (Put mem p d off) c = Some (dcache_put mem p d off c)"
| "dc_exec (Remove p n) c = Some (dcache_remove p n c)"
| "dc_exec (Invalidate p) c = Some (dcache_invalidate p c)"
| "dc_exec (Set_enabled mem en) c = dcache_set_enabled mem en c"

fun dc_execs :: "dc_op list \<Rightarrow> dcache_t \<Rightarrow> dcache_t option" where
  "dc_execs [] c = Some c"
| "dc_execs (x # xs) c = Option.bind (dc_exec x c) (dc_execs xs)"

lemma dc_exec_inv: "dc_inv c \<Longrightarrow> dc_exec x c = Some c' \<Longrightarrow> dc_inv c'"
  by (cases x) (auto simp: dcache_reset_spec(1) dcache_put_spec dcache_remove_spec dcache_invalidate_spec
      dest: init_dentry_cache_spec dcache_set_enabled_spec)

text \<open>
  C33. Well-formedness. After any sequence of calls on the table of a booting kernel, the table has
  \<open>DENTRY_CACHE_BUCKETS\<close> chains, every entry is in the chain its directory and name hash to, and no chain
  holds two entries of one name.
\<close>

theorem dcache_well_formed:
  "dc_execs ops \<lparr>dcache_table = None, dcache_enabled = en\<rparr> = Some c \<Longrightarrow> dc_inv c"
proof -
  have "dc_inv c0 \<Longrightarrow> dc_execs ops c0 = Some c \<Longrightarrow> dc_inv c" for c0
    by (induction ops arbitrary: c0) (auto dest: dc_exec_inv split: Option.bind_splits)
  moreover have "dc_inv \<lparr>dcache_table = None, dcache_enabled = en\<rparr>" by (simp add: dc_inv_def)
  ultimately show "dc_execs ops \<lparr>dcache_table = None, dcache_enabled = en\<rparr> = Some c \<Longrightarrow> dc_inv c" by blast
qed

theorem dcache_well_formed_witness:
  "dc_execs [Init True, Put True 1 demo_entry 64] \<lparr>dcache_table = None, dcache_enabled = False\<rparr> =
      Some (dcache_put True 1 demo_entry 64 demo_table) \<and> dc_inv (dcache_put True 1 demo_entry 64 demo_table)"
proof -
  have "dc_execs [Init True, Put True 1 demo_entry 64] \<lparr>dcache_table = None, dcache_enabled = False\<rparr> =
      Some (dcache_put True 1 demo_entry 64 demo_table)"
    by (simp add: init_dentry_cache_def demo_table_def)
  then show ?thesis using dcache_well_formed by blast
qed

end
