(* ===== verification/Fs_Dir.thy ===== *)
theory Fs_Dir
  imports Fs_Content Fs_Dcache
begin

text \<open>
  Directories and paths: \<open>kernel/fs/dir.c\<close>.

  \<^item> \<open>fs_state\<close> extends the disk and the inode table with the entry cache, the stream of answers of
    \<open>kmalloc\<close> for its entries, the descriptors, and of each process its working directory and its
    descriptor table; \<open>current_running\<close> is the index of a process.
  \<^item> A path is a list of bytes without the terminating zero. A name is what stands in the array of
    \<open>MAX_FILE_NAME\<close> bytes, up to the terminating zero if there is one.
  \<^item> An \<open>inode_t*\<close> is an index into \<open>inodes\<close>; a null pointer is \<open>None\<close> in the result, while a panic or
    a wait for a lock that is never released is \<open>None\<close> of the whole call.
  \<^item> \<open>dir_lookup\<close> gives the reference together with \<open>*poff\<close>.
\<close>

definition NUM_FDESCS :: nat where "NUM_FDESCS = 32"

definition NUM_MAX_PROC_FD :: nat where "NUM_MAX_PROC_FD = 8"

definition DENTRY_SIZE :: nat where "DENTRY_SIZE = 32"

record fdesc_t =
  f_inode :: nat
  f_valid :: bool
  wpos :: u32
  rpos :: u32
  readable :: bool
  writable :: bool

record proc_fs =
  cwd_inode :: u32
  fd_table :: "nat option list"

record fs_state = inode_state +
  dcache :: dcache_t
  kmem :: "nat \<Rightarrow> bool"
  fdesc_array :: "fdesc_t list"
  procs :: "nat \<Rightarrow> proc_fs"
  current_running :: nat

definition ERR_OPERATION_FAILED :: int where "ERR_OPERATION_FAILED = -1"
definition ERR_FILE_NOT_EXISTS :: int where "ERR_FILE_NOT_EXISTS = 1"
definition ERR_FILE_EXISTS :: int where "ERR_FILE_EXISTS = 2"
definition ERR_FILE_NO_PERMISSION :: int where "ERR_FILE_NO_PERMISSION = 3"
definition ERR_FILE_TYPE_MISMATCH :: int where "ERR_FILE_TYPE_MISMATCH = 4"
definition ERR_DIRECTORY_NOT_EMPTY :: int where "ERR_DIRECTORY_NOT_EMPTY = 5"
definition ERR_FD_INVALID :: int where "ERR_FD_INVALID = 6"

section \<open>Entries\<close>

definition dentry_at :: "u8 list \<Rightarrow> dentry_t" where
  "dentry_at bs = \<lparr>d_name = take MAX_FILE_NAME bs, d_inode = get32 (char_at bs) MAX_FILE_NAME\<rparr>"

definition dentry_bytes :: "dentry_t \<Rightarrow> u8 list" where
  "dentry_bytes d = map (put32 MAX_FILE_NAME (d_inode d) (char_at (d_name d))) [0..<DENTRY_SIZE]"

definition filename_cpy :: "u8 list \<Rightarrow> u8 list" where
  "filename_cpy src =
     (let cs = takeWhile (\<lambda>b. b \<noteq> 0) (take MAX_FILE_NAME src) in cs @ replicate (MAX_FILE_NAME - length cs) 0)"

definition null_dentry :: dentry_t where
  "null_dentry = \<lparr>d_name = replicate MAX_FILE_NAME 0, d_inode = 0\<rparr>"

definition read_dentry :: "nat \<Rightarrow> nat \<Rightarrow> 'a inode_state_scheme \<Rightarrow> (dentry_t \<times> 'a inode_state_scheme) option" where
  "read_dentry dir offset s = do {
     (bs, s) \<leftarrow> inode_read dir (of_nat offset) (of_nat DENTRY_SIZE) s;
     if length bs = DENTRY_SIZE then Some (dentry_at bs, s) else None }"

definition fs_dcache_put :: "u32 \<Rightarrow> dentry_t \<Rightarrow> nat \<Rightarrow> 'a fs_state_scheme \<Rightarrow> 'a fs_state_scheme" where
  "fs_dcache_put parent d offset s =
     s\<lparr>dcache := dcache_put (kmem s 0) parent d (of_nat offset) (dcache s), kmem := (\<lambda>i. kmem s (Suc i))\<rparr>"

section \<open>Directories\<close>

lemma offset_below_size: "offset < unat (x :: u32) \<Longrightarrow> offset < 2 ^ 32"
  using unsigned_less [of x, where ?'a = nat] by simp

function dir_scan :: "nat \<Rightarrow> u8 list \<Rightarrow> nat \<Rightarrow> 'a fs_state_scheme \<Rightarrow> (nat option \<times> nat \<times> 'a fs_state_scheme) option" where
  "dir_scan dir filename offset s =
     (if offset < unat (i_size (inode s dir)) then do {
        (d, s) \<leftarrow> read_dentry dir offset s;
        if d_inode d = 0 then dir_scan dir filename (offset + DENTRY_SIZE) s
        else do {
          let s = fs_dcache_put (inode_num (inode s dir)) d offset s;
          if filename_cmp (d_name d) filename = 0 then do {
            (ip, s) \<leftarrow> inode_ref (d_inode d) s;
            Some (Some ip, offset, s) }
          else dir_scan dir filename (offset + DENTRY_SIZE) s } }
      else Some (None, 0, s))"
  by pat_completeness auto
termination
  by (relation "measure (\<lambda>(dir, filename, offset, s). 2 ^ 32 - offset)")
    (auto simp: DENTRY_SIZE_def dest!: offset_below_size)

declare dir_scan.simps [simp del]

definition dir_lookup :: "nat \<Rightarrow> u8 list \<Rightarrow> 'a fs_state_scheme \<Rightarrow> (nat option \<times> nat \<times> 'a fs_state_scheme) option" where
  "dir_lookup dir filename s =
     (if i_type (inode s dir) \<noteq> FS_TYPE_DIR then None
      else case dcache_get (inode_num (inode s dir)) filename (dcache s) of
        Some (cached, cached_offset) \<Rightarrow> do {
          (ip, s) \<leftarrow> inode_ref (d_inode cached) s;
          Some (Some ip, unat cached_offset, s) }
      | None \<Rightarrow> dir_scan dir filename 0 s)"

function free_slot :: "nat \<Rightarrow> nat \<Rightarrow> 'a inode_state_scheme \<Rightarrow> (nat \<times> 'a inode_state_scheme) option" where
  "free_slot dir offset s =
     (if offset < unat (i_size (inode s dir)) then do {
        (d, s) \<leftarrow> read_dentry dir offset s;
        if d_inode d = 0 then Some (offset, s) else free_slot dir (offset + DENTRY_SIZE) s }
      else Some (offset, s))"
  by pat_completeness auto
termination
  by (relation "measure (\<lambda>(dir, offset, s). 2 ^ 32 - offset)") (auto simp: DENTRY_SIZE_def dest!: offset_below_size)

declare free_slot.simps [simp del]

definition dir_link :: "nat \<Rightarrow> u8 list \<Rightarrow> u32 \<Rightarrow> 'a fs_state_scheme \<Rightarrow> (int \<times> 'a fs_state_scheme) option" where
  "dir_link dir filename n s =
     (if i_type (inode s dir) \<noteq> FS_TYPE_DIR then None
      else do {
        (child, _, s) \<leftarrow> dir_lookup dir filename s;
        case child of
          Some c \<Rightarrow> do { s \<leftarrow> inode_deref c s; Some (ERR_FILE_EXISTS, s) }
        | None \<Rightarrow> do {
            (offset, s) \<leftarrow> free_slot dir 0 s;
            let dentry = \<lparr>d_name = filename_cpy filename, d_inode = n\<rparr>;
            (len, s) \<leftarrow> inode_write dir (of_nat offset) (dentry_bytes dentry) s;
            if len \<noteq> DENTRY_SIZE then Some (ERR_OPERATION_FAILED, s)
            else Some (0, fs_dcache_put (inode_num (inode s dir)) dentry offset s) } })"

definition dot :: "u8 list" where "dot = [46]"
definition dotdot :: "u8 list" where "dotdot = [46, 46]"

definition dir_unlink :: "nat \<Rightarrow> u8 list \<Rightarrow> 'a fs_state_scheme \<Rightarrow> (int \<times> 'a fs_state_scheme) option" where
  "dir_unlink dir filename s =
     (if i_type (inode s dir) \<noteq> FS_TYPE_DIR then None
      else if filename_cmp filename dot = 0 \<or> filename_cmp filename dotdot = 0 then Some (ERR_FILE_NO_PERMISSION, s)
      else do {
        (child, offset, s) \<leftarrow> dir_lookup dir filename s;
        case child of
          None \<Rightarrow> Some (ERR_FILE_NOT_EXISTS, s)
        | Some c \<Rightarrow> do {
            s \<leftarrow> inode_open c s;
            if i_type (inode s c) = FS_TYPE_DIR then do { s \<leftarrow> inode_close c s; Some (ERR_FILE_TYPE_MISMATCH, s) }
            else do {
              let s = set_inode c ((inode s c)\<lparr>link_count := link_count (inode s c) - 1\<rparr>) s;
              (len, s) \<leftarrow> inode_write dir (of_nat offset) (dentry_bytes null_dentry) s;
              if len \<noteq> DENTRY_SIZE then do { s \<leftarrow> inode_close c s; Some (ERR_OPERATION_FAILED, s) }
              else do {
                let s = s\<lparr>dcache := dcache_remove (inode_num (inode s dir)) filename (dcache s)\<rparr>;
                s \<leftarrow> inode_close c s;
                Some (0, s) } } } })"

function empty_from :: "nat \<Rightarrow> nat \<Rightarrow> 'a inode_state_scheme \<Rightarrow> (bool \<times> 'a inode_state_scheme) option" where
  "empty_from dir off s =
     (if off < unat (i_size (inode s dir)) then do {
        (d, s) \<leftarrow> read_dentry dir off s;
        if d_inode d \<noteq> 0 then Some (False, s) else empty_from dir (off + DENTRY_SIZE) s }
      else Some (True, s))"
  by pat_completeness auto
termination
  by (relation "measure (\<lambda>(dir, off, s). 2 ^ 32 - off)") (auto simp: DENTRY_SIZE_def dest!: offset_below_size)

declare empty_from.simps [simp del]

definition dir_isempty :: "nat \<Rightarrow> 'a inode_state_scheme \<Rightarrow> (bool \<times> 'a inode_state_scheme) option" where
  "dir_isempty dir s = empty_from dir (DENTRY_SIZE * 2) s"

text \<open>When the write of \<open>dir_rmdir\<close> falls short, the child stays locked and referenced.\<close>

definition dir_rmdir :: "nat \<Rightarrow> u8 list \<Rightarrow> 'a fs_state_scheme \<Rightarrow> (int \<times> 'a fs_state_scheme) option" where
  "dir_rmdir dir dirname s =
     (if i_type (inode s dir) \<noteq> FS_TYPE_DIR then None
      else if filename_cmp dirname dot = 0 \<or> filename_cmp dirname dotdot = 0 then Some (ERR_FILE_NO_PERMISSION, s)
      else do {
        (child, offset, s) \<leftarrow> dir_lookup dir dirname s;
        case child of
          None \<Rightarrow> Some (ERR_FILE_NOT_EXISTS, s)
        | Some c \<Rightarrow> do {
            s \<leftarrow> inode_open c s;
            if i_type (inode s c) \<noteq> FS_TYPE_DIR then do { s \<leftarrow> inode_close c s; Some (ERR_FILE_TYPE_MISMATCH, s) }
            else do {
              (empty, s) \<leftarrow> dir_isempty c s;
              if \<not> empty then do { s \<leftarrow> inode_close c s; Some (ERR_DIRECTORY_NOT_EMPTY, s) }
              else do {
                (len, s) \<leftarrow> inode_write dir (of_nat offset) (dentry_bytes null_dentry) s;
                if len \<noteq> DENTRY_SIZE then Some (ERR_OPERATION_FAILED, s)
                else do {
                  let s = s\<lparr>dcache := dcache_remove (inode_num (inode s dir)) dirname (dcache s)\<rparr>;
                  let s = s\<lparr>dcache := dcache_invalidate (inode_num (inode s c)) (dcache s)\<rparr>;
                  let s = (if i_type (inode s c) = FS_TYPE_DIR
                           then set_inode dir ((inode s dir)\<lparr>link_count := link_count (inode s dir) - 1\<rparr>) s else s);
                  let s = set_inode c ((inode s c)\<lparr>link_count := link_count (inode s c) - 1\<rparr>) s;
                  s \<leftarrow> inode_close c s;
                  Some (0, s) } } } } })"

section \<open>Paths\<close>

definition slash :: u8 where "slash = 47"

definition path_shift :: "u8 list \<Rightarrow> (u8 list \<times> u8 list) option" where
  "path_shift path =
     (let s = dropWhile (\<lambda>c. c = slash) path in
      if s = [] then None
      else let component = takeWhile (\<lambda>c. c \<noteq> slash) s; len = length component;
               name = (if len \<ge> MAX_FILE_NAME then take MAX_FILE_NAME s else take len s)
        in Some (dropWhile (\<lambda>c. c = slash) (drop len s), name))"

lemma path_shift_shorter: "path_shift path = Some (rest, name) \<Longrightarrow> length rest < length path"
proof -
  assume a: "path_shift path = Some (rest, name)"
  let ?s = "dropWhile (\<lambda>c. c = slash) path" and ?t = "\<lambda>s. takeWhile (\<lambda>c. c \<noteq> slash) s"
  have s: "?s \<noteq> []" and r: "rest = dropWhile (\<lambda>c. c = slash) (drop (length (?t ?s)) ?s)"
    using a by (auto simp: path_shift_def Let_def split: if_splits)
  have "?t ?s \<noteq> []" using s hd_dropWhile [OF s] by (cases ?s) auto
  then have "length (drop (length (?t ?s)) ?s) < length ?s" using s by (simp add: length_takeWhile_le)
  moreover have "length (dropWhile P xs) \<le> length xs" for P :: "u8 \<Rightarrow> bool" and xs
    by (rule length_dropWhile_le)
  ultimately show ?thesis unfolding r by (meson le_less_trans less_le_trans)
qed

function path_walk :: "nat \<Rightarrow> u8 list \<Rightarrow> bool \<Rightarrow> u8 list \<Rightarrow> 'a fs_state_scheme \<Rightarrow> (nat option \<times> u8 list \<times> 'a fs_state_scheme) option" where
  "path_walk cur path skip_last name s =
     (case path_shift path of
        None \<Rightarrow>
          if skip_last then do { s \<leftarrow> inode_deref cur s; Some (None, name, s) }
          else Some (Some cur, name, s)
      | Some (path', name) \<Rightarrow> do {
          s \<leftarrow> inode_open cur s;
          if i_type (inode s cur) \<noteq> FS_TYPE_DIR then do { s \<leftarrow> inode_close cur s; Some (None, name, s) }
          else if skip_last \<and> path' = [] then do { s \<leftarrow> inode_unlock cur s; Some (Some cur, name, s) }
          else do {
            (child, _, s) \<leftarrow> dir_lookup cur name s;
            case child of
              None \<Rightarrow> do { s \<leftarrow> inode_close cur s; Some (None, name, s) }
            | Some c \<Rightarrow> do { s \<leftarrow> inode_close cur s; path_walk c path' skip_last name s } } })"
  by pat_completeness auto
termination
  by (relation "measure (\<lambda>(cur, path, skip_last, name, s). length path)") (auto dest: path_shift_shorter)

declare path_walk.simps [simp del]

definition path_resolve :: "u8 list \<Rightarrow> bool \<Rightarrow> 'a fs_state_scheme \<Rightarrow> (nat option \<times> u8 list \<times> 'a fs_state_scheme) option" where
  "path_resolve path skip_last s = do {
     (cur, s) \<leftarrow> inode_ref (if char_at path 0 = slash then root_inode (superblock s)
                            else cwd_inode (procs s (current_running s))) s;
     if path = [] then Some (Some cur, [], s) else path_walk cur path skip_last [] s }"

definition path_resolve_entry :: "u8 list \<Rightarrow> 'a fs_state_scheme \<Rightarrow> (nat option \<times> 'a fs_state_scheme) option" where
  "path_resolve_entry path s = do { (ip, _, s) \<leftarrow> path_resolve path False s; Some (ip, s) }"

definition path_resolve_parent :: "u8 list \<Rightarrow> 'a fs_state_scheme \<Rightarrow> (nat option \<times> u8 list \<times> 'a fs_state_scheme) option" where
  "path_resolve_parent path s = path_resolve path True s"

definition create_fail :: "nat \<Rightarrow> nat \<Rightarrow> 'a fs_state_scheme \<Rightarrow> (nat option \<times> 'a fs_state_scheme) option" where
  "create_fail c parent s = do {
     let s = set_inode c ((inode s c)\<lparr>link_count := 0\<rparr>) s;
     s \<leftarrow> inode_close c s;
     s \<leftarrow> inode_close parent s;
     Some (None, s) }"

definition link_dots :: "nat \<Rightarrow> nat \<Rightarrow> 'a fs_state_scheme \<Rightarrow> (bool \<times> 'a fs_state_scheme) option" where
  "link_dots c parent s = do {
     (r, s) \<leftarrow> dir_link c dot (inode_num (inode s c)) s;
     if r \<noteq> 0 then Some (False, s)
     else do {
       (r, s) \<leftarrow> dir_link c dotdot (inode_num (inode s parent)) s;
       Some (r = 0, s) } }"

definition path_create :: "u8 list \<Rightarrow> u16 \<Rightarrow> 'a fs_state_scheme \<Rightarrow> (nat option \<times> 'a fs_state_scheme) option" where
  "path_create path type s = do {
     (p, name, s) \<leftarrow> path_resolve_parent path s;
     case p of
       None \<Rightarrow> Some (None, s)
     | Some parent \<Rightarrow> do {
         s \<leftarrow> inode_open parent s;
         (c, _, s) \<leftarrow> dir_lookup parent name s;
         case c of
           Some chp \<Rightarrow> do {
             s \<leftarrow> inode_open chp s;
             if i_type (inode s chp) \<noteq> type then do {
               s \<leftarrow> inode_close chp s;
               s \<leftarrow> inode_close parent s;
               Some (None, s) }
             else do {
               s \<leftarrow> inode_unlock chp s;
               s \<leftarrow> inode_close parent s;
               Some (Some chp, s) } }
         | None \<Rightarrow> do {
             (chp, s) \<leftarrow> inode_alloc type s;
             s \<leftarrow> inode_open chp s;
             let s = set_inode chp ((inode s chp)\<lparr>link_count := 1\<rparr>) s;
             (ok, s) \<leftarrow> (if type = FS_TYPE_DIR then link_dots chp parent s else Some (True, s));
             if \<not> ok then create_fail chp parent s
             else do {
               (r, s) \<leftarrow> dir_link parent name (inode_num (inode s chp)) s;
               if r \<noteq> 0 then create_fail chp parent s
               else do {
                 let s = (if type = FS_TYPE_DIR
                          then set_inode parent ((inode s parent)\<lparr>link_count := link_count (inode s parent) + 1\<rparr>) s else s);
                 s \<leftarrow> inode_close parent s;
                 s \<leftarrow> inode_unlock chp s;
                 Some (Some chp, s) } } } } }"

definition path_remove :: "u8 list \<Rightarrow> bool \<Rightarrow> 'a fs_state_scheme \<Rightarrow> (int \<times> 'a fs_state_scheme) option" where
  "path_remove path isdir s = do {
     (p, name, s) \<leftarrow> path_resolve_parent path s;
     case p of
       None \<Rightarrow> Some (ERR_FILE_NOT_EXISTS, s)
     | Some parent \<Rightarrow> do {
         s \<leftarrow> inode_open parent s;
         (ret, s) \<leftarrow> (if isdir then dir_rmdir parent name s else dir_unlink parent name s);
         s \<leftarrow> inode_close parent s;
         Some (ret, s) } }"

section \<open>What a directory holds\<close>

definition dir_entry :: "nat \<Rightarrow> 'a inode_state_scheme \<Rightarrow> nat \<Rightarrow> dentry_t" where
  "dir_entry dir s k =
     dentry_at (map (file_byte (view s) (inode s dir)) [DENTRY_SIZE * k..<DENTRY_SIZE * k + DENTRY_SIZE])"

definition dir_count :: "nat \<Rightarrow> 'a inode_state_scheme \<Rightarrow> nat" where
  "dir_count dir s = unat (i_size (inode s dir)) div DENTRY_SIZE"

definition dir_live :: "nat \<Rightarrow> 'a inode_state_scheme \<Rightarrow> u8 list \<Rightarrow> nat \<Rightarrow> bool" where
  "dir_live dir s name k \<longleftrightarrow> d_inode (dir_entry dir s k) \<noteq> 0 \<and> cname (d_name (dir_entry dir s k)) = cname name"

text \<open>A directory: whole entries, and no name twice.\<close>

definition dir_ok :: "nat \<Rightarrow> 'a inode_state_scheme \<Rightarrow> bool" where
  "dir_ok dir s \<longleftrightarrow> file_ok dir s \<and> 3 \<le> spare s \<and> i_type (inode s dir) = FS_TYPE_DIR \<and>
     DENTRY_SIZE dvd unat (i_size (inode s dir)) \<and>
     (\<forall>i < dir_count dir s. \<forall>j < dir_count dir s. \<forall>name. dir_live dir s name i \<and> dir_live dir s name j \<longrightarrow> i = j)"

text \<open>The cache is right about this directory.\<close>

definition cache_ok :: "nat \<Rightarrow> 'a fs_state_scheme \<Rightarrow> bool" where
  "cache_ok dir s \<longleftrightarrow> dc_inv (dcache s) \<and>
     (\<forall>name ino off. dc_map (dcache s) (inode_num (inode s dir), cname name) = Some (ino, off) \<longrightarrow>
        (\<exists>k < dir_count dir s. dir_live dir s name k \<and> d_inode (dir_entry dir s k) = ino \<and> off = of_nat (DENTRY_SIZE * k)))"

text \<open>What a scan changes of the state: only the map of the directory may have grown.\<close>

definition scanned :: "nat \<Rightarrow> 'a inode_state_scheme \<Rightarrow> 'b inode_state_scheme \<Rightarrow> bool" where
  "scanned dir s s' \<longleftrightarrow> file_ok dir s' \<and> spare s' = spare s \<and> same_sb s s' \<and> same_core (inode s dir) (inode s' dir) \<and>
     inodes s' = (inodes s)[dir := inode s' dir] \<and>
     (\<forall>j < 2 ^ 32. file_byte (view s') (inode s' dir) j = file_byte (view s) (inode s dir) j)"

lemma scanned_trans: "scanned dir s s' \<Longrightarrow> scanned dir s' s'' \<Longrightarrow> scanned dir s s''"
  by (auto simp: scanned_def same_core_def intro: same_sb_trans)

lemma growS_scanned: "file_ok dir s \<Longrightarrow> growS dir s s' \<Longrightarrow> scanned dir s s'"
  using file_ok_growS [of dir s s'] by (simp add: scanned_def growS_def grown_def)

lemma scanned_refl: "file_ok dir s \<Longrightarrow> scanned dir s s"
  using growS_scanned growS_refl by blast

lemma fs_dcache_put_simps [simp]:
  fixes s :: "'a fs_state_scheme"
  shows "view (fs_dcache_put p d off s) = view s" "inodes (fs_dcache_put p d off s) = inodes s"
    "inode (fs_dcache_put p d off s) ip = inode s ip" "superblock (fs_dcache_put p d off s) = superblock s"
    "spare (fs_dcache_put p d off s) = spare s" "file_ok dir (fs_dcache_put p d off s) = file_ok dir s"
    "dcache (fs_dcache_put p d off s) = dcache_put (kmem s 0) p d (of_nat off) (dcache s)"
proof -
  let ?s = "fs_dcache_put p d off s"
  have l: "lower ?s = lower s" by (rule ext) (simp add: lower_def fs_dcache_put_def Let_def split: page_slot.split)
  have b: "blocks ?s = blocks s" "superblock ?s = superblock s" "inodes ?s = inodes s" "policy ?s = policy s"
    "cache_pages ?s = cache_pages s" by (simp_all add: fs_dcache_put_def)
  show v: "view ?s = view s" by (rule view_eqI) (simp_all add: l b)
  have bi: "buf_inv ?s = buf_inv s" by (simp add: buf_inv_def b)
  show "inodes ?s = inodes s" "inode ?s ip = inode s ip" "superblock ?s = superblock s" "spare ?s = spare s"
    "file_ok dir ?s = file_ok dir s"
    by (simp_all add: inode_def b spare_def pins_def file_ok_def v bi)
  show "dcache ?s = dcache_put (kmem s 0) p d (of_nat off) (dcache s)" by (simp add: fs_dcache_put_def)
qed

lemma scanned_put: "file_ok dir s \<Longrightarrow> scanned dir s (fs_dcache_put p d off s)"
  using scanned_refl [of dir s] by (simp add: scanned_def same_sb_def)

lemma scanned_dir:
  assumes "scanned dir s s'"
  shows "dir_count dir s' = dir_count dir s" "k < dir_count dir s \<Longrightarrow> dir_entry dir s' k = dir_entry dir s k"
    "k < dir_count dir s \<Longrightarrow> dir_live dir s' name k = dir_live dir s name k" "inode_num (inode s' dir) = inode_num (inode s dir)"
    "unat (i_size (inode s' dir)) = unat (i_size (inode s dir))" "dir_ok dir s \<Longrightarrow> dir_ok dir s'"
proof -
  note a = assms [unfolded scanned_def same_core_def]
  show c: "dir_count dir s' = dir_count dir s" and "inode_num (inode s' dir) = inode_num (inode s dir)"
    "unat (i_size (inode s' dir)) = unat (i_size (inode s dir))"
    using a by (simp_all add: dir_count_def)
  show e: "dir_entry dir s' k = dir_entry dir s k" if k: "k < dir_count dir s" for k
  proof -
    have "DENTRY_SIZE * k + DENTRY_SIZE \<le> unat (i_size (inode s dir))"
      using k by (simp add: dir_count_def DENTRY_SIZE_def)
    also have "\<dots> < 2 ^ 32" using unsigned_less [of "i_size (inode s dir)", where ?'a = nat] by simp
    finally have "map (file_byte (view s') (inode s' dir)) [DENTRY_SIZE * k..<DENTRY_SIZE * k + DENTRY_SIZE] =
      map (file_byte (view s) (inode s dir)) [DENTRY_SIZE * k..<DENTRY_SIZE * k + DENTRY_SIZE]"
      using a by (intro map_cong) auto
    then show ?thesis by (simp only: dir_entry_def)
  qed
  then show l: "dir_live dir s' name k = dir_live dir s name k" if "k < dir_count dir s" for k name
    using that by (simp add: dir_live_def)
  show "dir_ok dir s \<Longrightarrow> dir_ok dir s'" using a l c by (auto simp: dir_ok_def)
qed

lemma read_dentry_cases:
  fixes s :: "'a inode_state_scheme"
  assumes d: "dir_ok dir s" and k: "k < dir_count dir s"
  obtains s' where "read_dentry dir (DENTRY_SIZE * k) s = Some (dir_entry dir s k, s')" "scanned dir s s'"
      "inode_state.more s' = inode_state.more s"
  | s' :: "'a inode_state_scheme" where "read_dentry dir (DENTRY_SIZE * k) s = None" "scanned dir s s'" "disk_full (superblock s) (view s')"
proof -
  let ?x = "inode s dir" and ?off = "of_nat (DENTRY_SIZE * k) :: u32" and ?len = "of_nat DENTRY_SIZE :: u32"
  have le: "DENTRY_SIZE * k + DENTRY_SIZE \<le> unat (i_size ?x)" using k by (simp add: dir_count_def DENTRY_SIZE_def)
  have lt: "unat (i_size ?x) < 2 ^ 32" using unsigned_less [of "i_size ?x", where ?'a = nat] by simp
  have o: "unat ?off = DENTRY_SIZE * k" using le lt by (simp add: unat_of_nat take_bit_nat_eq_self del: of_nat_mult)
  have n: "unat ?len = DENTRY_SIZE" by (simp add: DENTRY_SIZE_def)
  have sum: "unat (?off + ?len) = DENTRY_SIZE * k + DENTRY_SIZE"
    using o n le lt by (simp add: unat_word_ariths)
  have rd: "inode_read dir ?off ?len s = inode_read_loop dir ?off DENTRY_SIZE [] s"
    using d le sum o n by (simp add: inode_read_def dir_ok_def word_less_nat_alt FS_TYPE_DIR_def FS_TYPE_DEV_def Let_def)
  have fok: "file_ok dir s" "3 \<le> spare s" using d by (simp_all add: dir_ok_def)
  obtain m s' where r: "inode_read_loop dir ?off DENTRY_SIZE [] s =
        Some ([] @ map (file_byte (view s) ?x) [unat ?off..<unat ?off + m], s')"
      "growS dir s s'" "m \<le> DENTRY_SIZE" "m < DENTRY_SIZE \<longrightarrow> disk_full (superblock s) (view s')"
    using read_loop_spec [OF fok, of ?off DENTRY_SIZE "[]"] o le lt by auto
  have sc: "scanned dir s s'" by (rule growS_scanned [OF fok(1) r(2)])
  show thesis
  proof (cases "m = DENTRY_SIZE")
    case True
    then have "read_dentry dir (DENTRY_SIZE * k) s = Some (dir_entry dir s k, s')"
      unfolding read_dentry_def rd r(1) o by (simp add: dir_entry_def)
    then show thesis using that(1) sc r(2) by (simp add: growS_def)
  next
    case False
    then have "read_dentry dir (DENTRY_SIZE * k) s = None" unfolding read_dentry_def rd r(1) by simp
    then show thesis using that(2) sc r(3,4) False by simp
  qed
qed

text \<open>
  The specification of a lookup: the first live entry of that name, if there is one, and a reference to
  its inode, taken in a state in which the directory is as before and the cache right about it.
\<close>

definition found :: "nat \<Rightarrow> 'a fs_state_scheme \<Rightarrow> u8 list \<Rightarrow> nat option \<Rightarrow> nat \<Rightarrow> 'a fs_state_scheme \<Rightarrow> bool" where
  "found dir s name r off s' \<longleftrightarrow>
     (case find (dir_live dir s name) [0..<dir_count dir s] of
        None \<Rightarrow> r = None \<and> off = 0 \<and> scanned dir s s' \<and> cache_ok dir s'
      | Some k \<Rightarrow> \<exists>ip s1. r = Some ip \<and> off = DENTRY_SIZE * k \<and> scanned dir s s1 \<and> cache_ok dir s1 \<and>
          inode_ref (d_inode (dir_entry dir s k)) s1 = Some (ip, s') \<and>
          inode_num (inode s' ip) = d_inode (dir_entry dir s k))"

definition ref_room :: "'a inode_state_scheme \<Rightarrow> bool" where
  "ref_room s \<longleftrightarrow> length (inodes s) = NINODE \<and> (\<exists>i < NINODE. i_type (inode s i) = 0)"

lemma inode_ref_total:
  assumes "ref_room s"
  shows "\<exists>ip s'. inode_ref n s = Some (ip, s') \<and> inode_num (inode s' ip) = n"
proof (cases "find (\<lambda>i. i_type (inode s i) \<noteq> 0 \<and> inode_num (inode s i) = n \<and> ref_count (inode s i) > 0) [0..<NINODE]")
  case None
  obtain i where i: "find (\<lambda>i. i_type (inode s i) = 0) [0..<NINODE] = Some i"
    using assms by (cases "find (\<lambda>i. i_type (inode s i) = 0) [0..<NINODE]") (auto simp: ref_room_def find_None_iff)
  then have "i < NINODE" by (auto simp: find_Some_iff)
  then show ?thesis using None i assms by (simp add: inode_ref_def ref_room_def)
next
  case (Some i)
  then have "i < NINODE" "inode_num (inode s i) = n" by (auto simp: find_Some_iff)
  then show ?thesis using Some assms by (simp add: inode_ref_def ref_room_def)
qed

lemma scanned_room: "scanned dir s s' \<Longrightarrow> ref_room s \<Longrightarrow> ref_room s'"
proof -
  assume sc: "scanned dir s s'" and r: "ref_room s"
  have i: "inodes s' = (inodes s)[dir := inode s' dir]" "i_type (inode s' dir) = i_type (inode s dir)"
    using sc by (auto simp: scanned_def same_core_def)
  have "i_type (inode s' i) = i_type (inode s i)" for i
  proof (cases "i = dir")
    case False
    have "inodes s' ! i = (inodes s)[dir := inode s' dir] ! i" by (rule arg_cong [OF i(1)])
    then show ?thesis using False by (simp add: inode_def)
  qed (simp add: i(2))
  then show ?thesis using r i(1) by (simp add: ref_room_def)
qed

lemma scanned_cache:
  assumes "scanned dir s s'" "dcache s' = dcache s" "cache_ok dir s"
  shows "cache_ok dir s'"
  unfolding cache_ok_def
proof (intro conjI allI impI)
  show "dc_inv (dcache s')" using assms by (simp add: cache_ok_def)
next
  fix name ino off
  assume "dc_map (dcache s') (inode_num (inode s' dir), cname name) = Some (ino, off)"
  then have "dc_map (dcache s) (inode_num (inode s dir), cname name) = Some (ino, off)"
    using assms(2) scanned_dir(4) [OF assms(1)] by simp
  then obtain k where "k < dir_count dir s" "dir_live dir s name k" "d_inode (dir_entry dir s k) = ino" "off = of_nat (DENTRY_SIZE * k)"
    using assms(3) unfolding cache_ok_def by blast
  then show "\<exists>k < dir_count dir s'. dir_live dir s' name k \<and> d_inode (dir_entry dir s' k) = ino \<and> off = of_nat (DENTRY_SIZE * k)"
    using scanned_dir(1-3) [OF assms(1)] by (intro exI [of _ k]) simp
qed

lemma scanned_found:
  assumes sc: "scanned dir s s1" and f: "found dir s1 name r off s'"
  shows "found dir s name r off s'"
proof -
  have e: "find (dir_live dir s1 name) [0..<dir_count dir s1] = find (dir_live dir s name) [0..<dir_count dir s]"
    using scanned_dir(1,3) [OF sc] by (intro find_cong) auto
  have "k < dir_count dir s" if "find (dir_live dir s name) [0..<dir_count dir s] = Some k" for k
    using that by (auto simp: find_Some_iff)
  then show ?thesis using f e scanned_dir(2) [OF sc] scanned_trans [OF sc]
    by (auto simp: found_def split: option.splits)
qed

lemma cache_ok_put:
  fixes s :: "'a fs_state_scheme"
  assumes c: "cache_ok dir s" and k: "k < dir_count dir s" and d: "d = dir_entry dir s k" "d_inode d \<noteq> 0" and ok: "file_ok dir s"
  shows "cache_ok dir (fs_dcache_put (inode_num (inode s dir)) d (DENTRY_SIZE * k) s)"
proof -
  let ?n = "inode_num (inode s dir)" and ?s = "fs_dcache_put (inode_num (inode s dir)) d (DENTRY_SIZE * k) s"
  have i: "dc_inv (dcache s)" using c by (simp add: cache_ok_def)
  note p = dcache_put_spec [OF i, of "kmem s 0" ?n d "of_nat (DENTRY_SIZE * k)"]
  note sd = scanned_dir [OF scanned_put [OF ok, of ?n d "DENTRY_SIZE * k"]]
  have h: "\<exists>j < dir_count dir s. dir_live dir s name j \<and> d_inode (dir_entry dir s j) = ino \<and> off = of_nat (DENTRY_SIZE * j)"
    if m: "dc_map (dcache ?s) (?n, cname name) = Some (ino, off)" for name ino off
  proof (cases "dc_map (dcache s) (?n, cname name) = Some (ino, off)")
    case True
    then show ?thesis using c unfolding cache_ok_def by blast
  next
    case False
    then have "cname name = cname (d_name d)" "ino = d_inode d" "off = of_nat (DENTRY_SIZE * k)"
      using m p by (auto simp del: of_nat_mult split: if_splits)
    then show ?thesis using k d by (intro exI [of _ k]) (simp add: dir_live_def)
  qed
  show ?thesis unfolding cache_ok_def
  proof (intro conjI allI impI)
    show "dc_inv (dcache ?s)" using p by simp
  next
    fix name ino off
    assume "dc_map (dcache ?s) (inode_num (inode ?s dir), cname name) = Some (ino, off)"
    then obtain j where "j < dir_count dir s" "dir_live dir s name j" "d_inode (dir_entry dir s j) = ino" "off = of_nat (DENTRY_SIZE * j)"
      using h by (metis fs_dcache_put_simps(3))
    then show "\<exists>k < dir_count dir ?s. dir_live dir ?s name k \<and> d_inode (dir_entry dir ?s k) = ino \<and> off = of_nat (DENTRY_SIZE * k)"
      using sd(1-3) by (intro exI [of _ j]) simp
  qed
qed

lemma find_skip:
  "\<forall>i < j. \<not> P i \<Longrightarrow> j < n \<Longrightarrow> P j \<Longrightarrow> find P [0..<n] = Some j"
  by (auto simp: find_Some_iff intro!: exI [of _ j])

definition lookup_post :: "nat \<Rightarrow> 'a fs_state_scheme \<Rightarrow> u8 list \<Rightarrow> (nat option \<times> nat \<times> 'a fs_state_scheme) option \<Rightarrow> bool" where
  "lookup_post dir s name res \<longleftrightarrow>
     (case res of
        None \<Rightarrow> \<exists>s' :: 'a fs_state_scheme. scanned dir s s' \<and> disk_full (superblock s) (view s')
      | Some (r, off, s') \<Rightarrow> found dir s name r off s')"

lemma scanned_post:
  fixes s s1 :: "'a fs_state_scheme"
  assumes "scanned dir s s1" "lookup_post dir s1 name res"
  shows "lookup_post dir s name res"
proof (cases res)
  case None
  then obtain s' :: "'a fs_state_scheme" where "scanned dir s1 s'" "disk_full (superblock s1) (view s')" using assms(2) by (auto simp: lookup_post_def)
  moreover have "disk_full (superblock s1) = disk_full (superblock s)"
    using assms(1) same_sb_simps(10) [of s s1] by (simp add: scanned_def)
  ultimately show ?thesis using None scanned_trans [OF assms(1)] by (auto simp: lookup_post_def)
next
  case (Some x)
  then show ?thesis using assms scanned_found [OF assms(1)] by (auto simp: lookup_post_def)
qed

lemma dir_scan_spec:
  fixes s :: "'a fs_state_scheme"
  assumes "dir_ok dir s" "cache_ok dir s" "ref_room s" "j \<le> dir_count dir s" "\<forall>i < j. \<not> dir_live dir s name i"
  shows "lookup_post dir s name (dir_scan dir name (DENTRY_SIZE * j) s)"
  using assms
proof (induction "dir_count dir s - j" arbitrary: j s rule: less_induct)
  case less
  note IH = less(1) and ok = less(2) and c = less(3) and room = less(4) and j = less(5) and none = less(6)
  have sz: "unat (i_size (inode s dir)) = DENTRY_SIZE * dir_count dir s" using ok by (simp add: dir_ok_def dir_count_def)
  have pos: "0 < DENTRY_SIZE" by (simp add: DENTRY_SIZE_def)
  show ?case
  proof (cases "j < dir_count dir s")
    case False
    then have "find (dir_live dir s name) [0..<dir_count dir s] = None" using j none by (auto simp: find_None_iff)
    moreover have "dir_scan dir name (DENTRY_SIZE * j) s = Some (None, 0, s)"
      using False j sz by (subst dir_scan.simps) simp
    ultimately show ?thesis using c scanned_refl [of dir s] ok by (simp add: lookup_post_def found_def dir_ok_def)
  next
    case True
    then have g: "DENTRY_SIZE * j < unat (i_size (inode s dir))" using sz pos by simp
    show ?thesis
    proof (cases rule: read_dentry_cases [OF ok True])
      case (2 s')
      then have "dir_scan dir name (DENTRY_SIZE * j) s = None" using g by (subst dir_scan.simps) simp
      then show ?thesis using 2(2,3) by (auto simp: lookup_post_def)
    next
      case (1 s1)
      let ?d = "dir_entry dir s j"
      have d1: "dcache s1 = dcache s" using 1(3) by (cases s, cases s1) simp
      note sd = scanned_dir [OF 1(2)] and c1 = scanned_cache [OF 1(2) d1 c] and room1 = scanned_room [OF 1(2) room]
      have ok1: "dir_ok dir s1" by (rule sd(6) [OF ok])
      have f1: "file_ok dir s1" using ok1 by (simp add: dir_ok_def)
      show ?thesis
      proof (cases "d_inode ?d = 0")
        case z: True
        then have e: "dir_scan dir name (DENTRY_SIZE * j) s = dir_scan dir name (DENTRY_SIZE * Suc j) s1"
          using g 1(1) by (subst dir_scan.simps) (simp add: add.commute)
        have "lookup_post dir s1 name (dir_scan dir name (DENTRY_SIZE * Suc j) s1)"
          by (rule IH [OF _ ok1 c1 room1]) (use True sd none z in \<open>auto simp: less_Suc_eq dir_live_def\<close>)
        then show ?thesis unfolding e by (rule scanned_post [OF 1(2)])
      next
        case nz: False
        let ?s2 = "fs_dcache_put (inode_num (inode s1 dir)) ?d (DENTRY_SIZE * j) s1"
        have sc2: "scanned dir s1 ?s2" by (rule scanned_put [OF f1])
        have k1: "j < dir_count dir s1" and de: "?d = dir_entry dir s1 j" using True sd by simp_all
        have c2: "cache_ok dir ?s2" by (rule cache_ok_put [OF c1 k1 de nz f1])
        have sc: "scanned dir s ?s2" by (rule scanned_trans [OF 1(2) sc2])
        note sd2 = scanned_dir [OF sc] and room2 = scanned_room [OF sc room]
        show ?thesis
        proof (cases "dir_live dir s name j")
          case live: True
          obtain ip s3 where r: "inode_ref (d_inode ?d) ?s2 = Some (ip, s3)" "inode_num (inode s3 ip) = d_inode ?d"
            using inode_ref_total [OF room2] by blast
          have "filename_cmp (d_name ?d) name = 0" using live by (simp add: filename_cmp_zero dir_live_def)
          then have "dir_scan dir name (DENTRY_SIZE * j) s = Some (Some ip, DENTRY_SIZE * j, s3)"
            using g 1(1) nz r(1) by (subst dir_scan.simps) simp
          then show ?thesis using find_skip [OF none True live] r sc c2 by (auto simp: lookup_post_def found_def)
        next
          case dead: False
          then have "filename_cmp (d_name ?d) name \<noteq> 0" using nz by (simp add: filename_cmp_zero dir_live_def)
          then have e: "dir_scan dir name (DENTRY_SIZE * j) s = dir_scan dir name (DENTRY_SIZE * Suc j) ?s2"
            using g 1(1) nz by (subst dir_scan.simps) (simp add: add.commute)
          have "lookup_post dir ?s2 name (dir_scan dir name (DENTRY_SIZE * Suc j) ?s2)"
            by (rule IH [OF _ sd2(6) [OF ok] c2 room2]) (use True sd2(1,3) none dead in \<open>auto simp: less_Suc_eq\<close>)
          then show ?thesis unfolding e by (rule scanned_post [OF sc])
        qed
      qed
    qed
  qed
qed


text \<open>A directory with one entry, of the name \<open>a\<close> for inode 5; its block and the block map are in buffers.\<close>

definition one_dir :: fs_state where
  "one_dir = \<lparr>superblock = small_sb, sd = (\<lambda>t k. 0), policy = POLICY_WRITE_BACK, write_back_freq = 10,
     cache_pages = (\<lambda>t. Unmapped),
     blocks = \<lparr>b_valid = True, b_num = 1, b_refcnt = 0, b_data = (\<lambda>k. if k = 0 then 1 else 0)\<rparr> #
       \<lparr>b_valid = True, b_num = 3, b_refcnt = 0, b_data = char_at (dentry_bytes demo_entry)\<rparr> # replicate 6 empty_block,
     inodes = blank_inode\<lparr>i_type := FS_TYPE_DIR, link_count := 1, inode_num := 2, i_size := 32, direct := 3 # replicate 9 (-1),
       i_valid := True, ref_count := 1, acquired := True\<rparr> # replicate 63 blank_inode,
     dcache = demo_table, kmem = (\<lambda>i. True), fdesc_array = [], procs = (\<lambda>p. \<lparr>cwd_inode = 2, fd_table = []\<rparr>), current_running = 0\<rparr>"

lemma one_dir_disk:
  "buf_inv one_dir" "spare one_dir = 8" "sb_ok (superblock one_dir)" "superblock one_dir = small_sb"
  "view one_dir 3 = block_clip (char_at (dentry_bytes demo_entry))" "used_in small_sb (view one_dir) 0"
proof -
  let ?bs = "blocks one_dir"
  have b: "?bs = \<lparr>b_valid = True, b_num = 1, b_refcnt = 0, b_data = (\<lambda>k. if k = 0 then 1 else 0)\<rparr> #
       \<lparr>b_valid = True, b_num = 3, b_refcnt = 0, b_data = char_at (dentry_bytes demo_entry)\<rparr> # replicate 6 empty_block"
    by (simp add: one_dir_def)
  have v: "b_valid (?bs ! i) = (i = 0 \<or> i = 1)" if "i < 8" for i
    using that by (cases i; cases "i - 1") (simp_all add: b empty_block_def)
  have n: "b_num (?bs ! 0) = 1" "b_num (?bs ! 1) = 3" "b_refcnt (?bs ! 0) = 0" "b_refcnt (?bs ! 1) = 0" by (simp_all add: b)
  show "buf_inv one_dir"
    unfolding buf_inv_def BLOCK_CONCURRENCY_def using v n by (auto simp: b blkno_def)
  show "spare one_dir = 8" by (simp add: spare_def pins_def b pin_of_def empty_block_def)
  show s: "superblock one_dir = small_sb" by (simp add: one_dir_def)
  show "sb_ok (superblock one_dir)" using empty_disk_ok(3) s by (simp add: empty_disk_def)
  have f: "block_find 1 ?bs = Some 0" "block_find 3 ?bs = Some 1"
    unfolding block_find_def b by (simp_all add: BLOCK_CONCURRENCY_def numeral_eq_Suc upt_rec)
  show "view one_dir 3 = block_clip (char_at (dentry_bytes demo_entry))" by (simp add: view_def blkno_def f) (simp add: b)
  have "view one_dir 1 = block_clip (\<lambda>k. if k = 0 then 1 else 0)" by (simp add: view_def blkno_def f) (simp add: b)
  then show "used_in small_sb (view one_dir) 0"
    by (simp add: used_in_def map_block_def small_sb_def map_bit_def block_clip_def BLOCK_SIZE_def)
qed

lemma one_dir_ok: "dir_ok 0 one_dir" "cache_ok 0 one_dir" "ref_room one_dir" "dir_count 0 one_dir = 1"
  "d_inode (dir_entry 0 one_dir 0) = 5" "dir_live 0 one_dir [97] 0"
proof -
  have i: "inodes one_dir = blank_inode\<lparr>i_type := FS_TYPE_DIR, link_count := 1, inode_num := 2, i_size := 32, direct := 3 # replicate 9 (-1),
       i_valid := True, ref_count := 1, acquired := True\<rparr> # replicate 63 blank_inode" by (simp add: one_dir_def)
  then have x: "inode one_dir 0 = blank_inode\<lparr>i_type := FS_TYPE_DIR, link_count := 1, inode_num := 2, i_size := 32, direct := 3 # replicate 9 (-1),
       i_valid := True, ref_count := 1, acquired := True\<rparr>" by (simp add: inode_def)
  have neg: "slot V (inode one_dir 0) p < 0" if "valid_pos p" "p \<noteq> Direct 0" for V p
    using that by (cases p) (auto simp: x blank_inode_def entry_def nth_Cons' NUM_DIRECT_BLOCKS_def)
  have pos: "slot V (inode one_dir 0) (Direct 0) = 3" for V by (simp add: x)
  have tk: "taken small_sb (view one_dir) 3"
    unfolding taken_def using one_dir_disk(6) by (intro exI [of _ 0]) (simp add: data_block_def small_sb_def)
  then have "valid_pos p \<Longrightarrow> 0 \<le> slot V (inode one_dir 0) p \<Longrightarrow> p = Direct 0" for V p using neg [of p V] by (meson leD)
  then have only: "valid_pos p \<and> 0 \<le> slot V (inode one_dir 0) p \<longrightarrow> p = Direct 0" for V p by blast
  have "length (direct (inode one_dir 0)) = NUM_DIRECT_BLOCKS" by (simp add: x NUM_DIRECT_BLOCKS_def)
  then have "file_inv small_sb (view one_dir) (inode one_dir 0)"
    unfolding file_inv_def using tk pos only by metis
  then have fok: "file_ok 0 one_dir" using one_dir_disk(1,3,4) i by (simp add: file_ok_def)
  show cnt: "dir_count 0 one_dir = 1" by (simp add: dir_count_def x DENTRY_SIZE_def)
  have "map (file_byte (view one_dir) (inode one_dir 0)) [0..<DENTRY_SIZE] = map (char_at (dentry_bytes demo_entry)) [0..<DENTRY_SIZE]"
  proof (rule map_cong)
    fix k
    assume "k \<in> set [0..<DENTRY_SIZE]"
    then have "k div BLOCK_SIZE = 0" "k mod BLOCK_SIZE = k" "k < BLOCK_SIZE" by (simp_all add: DENTRY_SIZE_def BLOCK_SIZE_def)
    moreover have "fpos 0 = Direct 0" by (simp add: fpos_def NUM_DIRECT_BLOCKS_def)
    ultimately show "file_byte (view one_dir) (inode one_dir 0) k = char_at (dentry_bytes demo_entry) k"
      unfolding file_byte_def Let_def by (simp only: pos one_dir_disk(5)) (simp add: block_clip_def)
  qed simp
  then have e: "dir_entry 0 one_dir 0 = dentry_at (map (char_at (dentry_bytes demo_entry)) [0..<DENTRY_SIZE])"
    by (simp only: dir_entry_def mult_0_right add_0)
  show ino: "d_inode (dir_entry 0 one_dir 0) = 5" unfolding e by code_simp
  have "cname (d_name (dir_entry 0 one_dir 0)) = cname [97]" unfolding e by code_simp
  then show "dir_live 0 one_dir [97] 0" using ino by (simp add: dir_live_def)
  show "dir_ok 0 one_dir" using fok one_dir_disk(2) cnt by (simp add: dir_ok_def x DENTRY_SIZE_def)
  have "dcache one_dir = demo_table" by (simp add: one_dir_def)
  moreover have "dc_map demo_table = Map.empty" using empty_table [of demo_table] by (simp add: demo_table_def)
  ultimately show "cache_ok 0 one_dir" using demo_table_inv by (simp add: cache_ok_def)
  have "inode one_dir 1 = blank_inode" by (simp add: inode_def i)
  then show "ref_room one_dir" using i by (auto simp: ref_room_def NINODE_def blank_inode_def intro!: exI [of _ 1])
qed


end
