(* ===== verification/Fs_Syscall.thy ===== *)
theory Fs_Syscall
  imports Fs_Dir Printf
begin

text \<open>
  The file system calls: \<open>kernel/fs/fs.cpp\<close>.

  \<^item> The calls of the BIOS succeed; the superblock is written to and read from its own sector, past
    the page cache.
  \<^item> The buffer of \<open>do_read\<close> is a result, the bytes that \<open>do_write\<close> is to write an argument, \<open>length\<close>
    being their number.
  \<^item> \<open>do_ls\<close> gives what it prints: texts and moves of the cursor to a column. \<open>do_statfs\<close> gives the
    numbers it prints.
  \<^item> A C++ \<open>dir[i]\<close> reads the entry anew at every use, and so does the model.
\<close>

section \<open>Making a file system\<close>

definition SUPERBLOCK_MAGIC :: u32 where "SUPERBLOCK_MAGIC = 0xDF4C4459"
definition FS_END_SECTOR :: u32 where "FS_END_SECTOR = 0x200000"
definition ROOT_INODE :: u32 where "ROOT_INODE = 1"
definition NBLOCK_INODE_MAP :: u32 where "NBLOCK_INODE_MAP = 1"
definition NUM_INODES :: u32 where "NUM_INODES = NBLOCK_INODE_MAP * of_nat BLOCK_SIZE * 8"
definition NBLOCK_INODE_TABLE :: u32 where "NBLOCK_INODE_TABLE = 64 * NUM_INODES div of_nat BLOCK_SIZE"
definition NBLOCK_BLOCK_MAP :: u32 where "NBLOCK_BLOCK_MAP = 32"

definition superblock_bytes :: "superblock_t \<Rightarrow> nat \<Rightarrow> u8" where
  "superblock_bytes sb =
     put32 0 (magic sb) (put32 4 (fs_size sb) (put32 8 (start_sector sb) (put32 12 (root_inode sb)
       (put32 16 (block_map_offset sb) (put32 20 (inode_offset sb) (put32 24 (datablock_offset sb)
         (put32 28 (inode_count sb) (put32 32 (block_count sb) (put32 36 (used_inode sb)
           (put32 40 (used_block sb) (\<lambda>i. 0)))))))))))"

definition superblock_at :: "(nat \<Rightarrow> u8) \<Rightarrow> superblock_t" where
  "superblock_at d =
     \<lparr>magic = get32 d 0, fs_size = get32 d 4, start_sector = get32 d 8, root_inode = get32 d 12,
      block_map_offset = get32 d 16, inode_offset = get32 d 20, datablock_offset = get32 d 24,
      inode_count = get32 d 28, block_count = get32 d 32, used_inode = get32 d 36, used_block = get32 d 40\<rparr>"

definition write_superblock :: "'a disk_state_scheme \<Rightarrow> 'a disk_state_scheme" where
  "write_superblock s = s\<lparr>sd := (sd s)(FS_START_SECTOR := superblock_bytes (superblock s))\<rparr>"

definition new_superblock :: superblock_t where
  "new_superblock =
     (let block_map = 1; inode_map = block_map + NBLOCK_BLOCK_MAP; inode_table = inode_map + NBLOCK_INODE_MAP;
          data = inode_table + NBLOCK_INODE_TABLE; fs_size = FS_END_SECTOR - FS_START_SECTOR
      in \<lparr>magic = SUPERBLOCK_MAGIC, fs_size = fs_size, start_sector = FS_START_SECTOR, root_inode = ROOT_INODE,
          block_map_offset = block_map, inode_offset = inode_table, datablock_offset = data,
          inode_count = NUM_INODES, block_count = fs_size div of_nat NSECTOR_BLOCK - data,
          used_inode = 0, used_block = 0\<rparr>)"

fun clear_blocks :: "nat \<Rightarrow> nat \<Rightarrow> 'a disk_state_scheme \<Rightarrow> 'a disk_state_scheme option" where
  "clear_blocks b 0 s = Some s"
| "clear_blocks b (Suc n) s = do { s \<leftarrow> block_memset (int b) 0 s; clear_blocks (Suc b) n s }"

definition clear_tables :: "'a disk_state_scheme \<Rightarrow> 'a disk_state_scheme option" where
  "clear_tables s =
     clear_blocks (unat (block_map_offset (superblock s)))
       (unat (datablock_offset (superblock s) - block_map_offset (superblock s))) s"

definition do_mkfs :: "'a fs_state_scheme \<Rightarrow> (int \<times> 'a fs_state_scheme) option" where
  "do_mkfs s = do {
     let s = s\<lparr>dcache := dcache_reset (dcache s)\<rparr>;
     let s = s\<lparr>superblock := new_superblock\<rparr>;
     let s = write_superblock s;
     s \<leftarrow> clear_tables s;
     (root, s) \<leftarrow> inode_alloc FS_TYPE_DIR s;
     asserts (inode_num (inode s root) = ROOT_INODE);
     s \<leftarrow> inode_open root s;
     let s = set_inode root ((inode s root)\<lparr>link_count := 1\<rparr>) s;
     (r, s) \<leftarrow> dir_link root dot ROOT_INODE s;
     asserts (r = 0);
     (r, s) \<leftarrow> dir_link root dotdot ROOT_INODE s;
     asserts (r = 0);
     let s = set_inode root ((inode s root)\<lparr>link_count := link_count (inode s root) + 1\<rparr>) s;
     s \<leftarrow> inode_close root s;
     Some (0, s) }"

text \<open>The used blocks of one block of the map, bit by bit; \<open>k\<close> counts \<open>8 j\<close> and the bit.\<close>

fun clean_bits :: "nat \<Rightarrow> u32 \<Rightarrow> nat \<Rightarrow> nat \<Rightarrow> 'a disk_state_scheme \<Rightarrow> 'a disk_state_scheme option" where
  "clean_bits blk i k 0 s = Some s"
| "clean_bits blk i k (Suc n) s = do {
     s \<leftarrow> (if map_bit (block_data_of blk s) k
           then let bnum = (i - block_map_offset (superblock s)) * of_nat BLOCK_SIZE * 8 + of_nat k
                in block_memset (sint (datablock_offset (superblock s) + bnum)) 0 s
           else Some s);
     clean_bits blk i (Suc k) n s }"

fun clean_maps :: "u32 \<Rightarrow> nat \<Rightarrow> 'a disk_state_scheme \<Rightarrow> 'a disk_state_scheme option" where
  "clean_maps i 0 s = Some s"
| "clean_maps i (Suc n) s = do {
     (blk, s) \<leftarrow> block_open (sint i) s;
     s \<leftarrow> clean_bits blk i 0 MAP_BITS s;
     s \<leftarrow> block_close blk s;
     clean_maps (i + 1) n s }"

definition do_cleanfs :: "'a disk_state_scheme \<Rightarrow> (int \<times> 'a disk_state_scheme) option" where
  "do_cleanfs s = do {
     s \<leftarrow> clean_maps (block_map_offset (superblock s))
            (unat (inode_offset (superblock s)) - unat (block_map_offset (superblock s))) s;
     s \<leftarrow> clear_tables s;
     Some (0, s) }"

definition flush_filesystem :: "u32 list \<Rightarrow> 'a disk_state_scheme \<Rightarrow> 'a disk_state_scheme" where
  "flush_filesystem sectors s = flush_fs_cache sectors (flush_block_cache (write_superblock s))"

definition shutdown_fs :: "u32 list \<Rightarrow> 'a disk_state_scheme \<Rightarrow> 'a disk_state_scheme" where
  "shutdown_fs sectors s = flush_filesystem sectors s"

text \<open>\<open>do_statfs\<close> fails on a disk without file system; a division by zero gives all bits set.\<close>

definition percent :: "u32 \<Rightarrow> u32 \<Rightarrow> u32" where
  "percent part whole = (if whole = 0 then -1 else part * 100 div whole)"

definition do_statfs :: "'a fs_state_scheme \<Rightarrow> int \<times> u32 list \<times> (cache_policy \<times> int \<times> bool) option" where
  "do_statfs s =
     (let sb = superblock s in
      if magic sb \<noteq> SUPERBLOCK_MAGIC then (1, [], None)
      else (0, [fs_size sb, start_sector sb, NBLOCK_BLOCK_MAP, block_map_offset sb,
                NUM_INODES, NBLOCK_INODE_TABLE, inode_offset sb, used_inode sb, percent (used_inode sb) (inode_count sb),
                block_count sb, datablock_offset sb, used_block sb, percent (used_block sb) (block_count sb)],
            Some (policy s, write_back_freq s, dcache_is_enabled (dcache s))))"

section \<open>Directories\<close>

definition proc_of :: "'a fs_state_scheme \<Rightarrow> proc_fs" where
  "proc_of s = procs s (current_running s)"

definition do_cd :: "u8 list \<Rightarrow> 'a fs_state_scheme \<Rightarrow> (int \<times> 'a fs_state_scheme) option" where
  "do_cd path s = do {
     (t, s) \<leftarrow> path_resolve_entry path s;
     case t of
       None \<Rightarrow> Some (ERR_FILE_NOT_EXISTS, s)
     | Some target \<Rightarrow> do {
         let s = s\<lparr>procs := (procs s)(current_running s := (proc_of s)\<lparr>cwd_inode := inode_num (inode s target)\<rparr>)\<rparr>;
         s \<leftarrow> inode_deref target s;
         Some (0, s) } }"

definition do_mkdir :: "u8 list \<Rightarrow> 'a fs_state_scheme \<Rightarrow> (int \<times> 'a fs_state_scheme) option" where
  "do_mkdir path s = do {
     (t, s) \<leftarrow> path_create path FS_TYPE_DIR s;
     case t of
       None \<Rightarrow> Some (ERR_FILE_NOT_EXISTS, s)
     | Some ip \<Rightarrow> do { s \<leftarrow> inode_deref ip s; Some (0, s) } }"

definition do_rmdir :: "u8 list \<Rightarrow> 'a fs_state_scheme \<Rightarrow> (int \<times> 'a fs_state_scheme) option" where
  "do_rmdir path s = path_remove path True s"

definition bytes_of :: "string \<Rightarrow> u8 list" where
  "bytes_of cs = map of_char cs"

datatype ls_out = Text "u8 list" | Column nat

definition dir_size :: "nat \<Rightarrow> 'a inode_state_scheme \<Rightarrow> nat" where
  "dir_size ip s = unat (i_size (inode s ip)) div DENTRY_SIZE"

definition dir_at :: "nat \<Rightarrow> nat \<Rightarrow> 'a inode_state_scheme \<Rightarrow> (dentry_t \<times> 'a inode_state_scheme) option" where
  "dir_at ip index s = (if index < dir_size ip s then read_dentry ip (index * DENTRY_SIZE) s else None)"

text \<open>A name of \<open>MAX_FILE_NAME\<close> bytes has no terminating zero; \<open>%s\<close> goes on into the inode number.\<close>

definition name_text :: "dentry_t \<Rightarrow> u8 list option" where
  "name_text d =
     (let bs = dentry_bytes d in if 0 \<in> set bs then Some (takeWhile (\<lambda>b. b \<noteq> 0) bs) else None)"

definition number_text :: "u32 \<Rightarrow> u8 list option" where
  "number_text n = mini_vsnprintf (\<lambda>a. 0) 256 (bytes_of ''%d'') (\<lambda>i. scast n)"

definition ls_ref :: "nat \<Rightarrow> u32 \<Rightarrow> 'a inode_state_scheme \<Rightarrow> (nat \<times> 'a inode_state_scheme) option" where
  "ls_ref dir n s = do {
     (ind, s) \<leftarrow> inode_ref n s;
     s \<leftarrow> (if ind \<noteq> dir then inode_open ind s else Some s);
     Some (ind, s) }"

definition ls_close :: "nat \<Rightarrow> nat \<Rightarrow> 'a inode_state_scheme \<Rightarrow> 'a inode_state_scheme option" where
  "ls_close dir ind s = (if ind \<noteq> dir then inode_close ind s else Some s)"

definition ls_number :: "nat \<Rightarrow> dentry_t \<Rightarrow> 'a inode_state_scheme \<Rightarrow> (ls_out list \<times> 'a inode_state_scheme) option" where
  "ls_number dir d s = do { t \<leftarrow> number_text (d_inode d); Some ([Text t], s) }"

definition ls_size :: "nat \<Rightarrow> dentry_t \<Rightarrow> 'a inode_state_scheme \<Rightarrow> (ls_out list \<times> 'a inode_state_scheme) option" where
  "ls_size dir d s = do {
     (ind, s) \<leftarrow> ls_ref dir (d_inode d) s;
     t \<leftarrow> number_text (i_size (inode s ind));
     s \<leftarrow> ls_close dir ind s;
     Some ([Text t], s) }"

definition ls_type :: "nat \<Rightarrow> dentry_t \<Rightarrow> 'a inode_state_scheme \<Rightarrow> (ls_out list \<times> 'a inode_state_scheme) option" where
  "ls_type dir d s = do {
     (ind, s) \<leftarrow> ls_ref dir (d_inode d) s;
     let t = (if i_type (inode s ind) = FS_TYPE_DIR then ''DIR''
              else if i_type (inode s ind) = FS_TYPE_DEV then ''DEV'' else ''FILE'');
     s \<leftarrow> ls_close dir ind s;
     Some ([Text (bytes_of t)], s) }"

definition ls_name :: "nat \<Rightarrow> dentry_t \<Rightarrow> 'a inode_state_scheme \<Rightarrow> (ls_out list \<times> 'a inode_state_scheme) option" where
  "ls_name dir d s = do {
     (ind, s) \<leftarrow> ls_ref dir (d_inode d) s;
     t \<leftarrow> name_text d;
     let t = t @ (if i_type (inode s ind) = FS_TYPE_DIR then bytes_of ''/'' else []);
     s \<leftarrow> ls_close dir ind s;
     Some ([Text t], s) }"

text \<open>
  \<open>display_table\<close> of \<open>tui.hpp\<close>: the widths become positions, then the header, then for each entry that
  passes the filter its columns.
\<close>

fun calculate_positions :: "nat \<Rightarrow> ('n \<times> nat \<times> 'f) list \<Rightarrow> ('n \<times> nat \<times> 'f) list" where
  "calculate_positions position [] = []"
| "calculate_positions position ((name, len, action) # es) =
     (name, position + len, action) # calculate_positions (position + len) es"

definition display_header :: "(string \<times> nat \<times> 'f) list \<Rightarrow> ls_out list" where
  "display_header entries =
     concat (map (\<lambda>(name, len, action). [Text (bytes_of name), Column len]) entries) @ [Text (bytes_of ''\<newline>'')]"

fun display_row ::
  "('a inode_state_scheme \<Rightarrow> ('i \<times> 'a inode_state_scheme) option) \<Rightarrow>
   (string \<times> nat \<times> ('i \<Rightarrow> 'a inode_state_scheme \<Rightarrow> (ls_out list \<times> 'a inode_state_scheme) option)) list \<Rightarrow>
   'a inode_state_scheme \<Rightarrow> (ls_out list \<times> 'a inode_state_scheme) option" where
  "display_row item [] s = Some ([Text (bytes_of ''\<newline>'')], s)"
| "display_row item ((name, len, action) # es) s = do {
     (x, s) \<leftarrow> item s;
     (out1, s) \<leftarrow> action x s;
     (out2, s) \<leftarrow> display_row item es s;
     Some (out1 @ Column len # out2, s) }"

fun display_rows ::
  "(nat \<Rightarrow> 'a inode_state_scheme \<Rightarrow> ('i \<times> 'a inode_state_scheme) option) \<Rightarrow> nat \<Rightarrow> nat \<Rightarrow> ('i \<Rightarrow> bool) \<Rightarrow>
   (string \<times> nat \<times> ('i \<Rightarrow> 'a inode_state_scheme \<Rightarrow> (ls_out list \<times> 'a inode_state_scheme) option)) list \<Rightarrow>
   'a inode_state_scheme \<Rightarrow> (nat \<times> ls_out list \<times> 'a inode_state_scheme) option" where
  "display_rows array i 0 filt entries s = Some (0, [], s)"
| "display_rows array i (Suc n) filt entries s = do {
     (x, s) \<leftarrow> array i s;
     if \<not> filt x then display_rows array (Suc i) n filt entries s
     else do {
       (out1, s) \<leftarrow> display_row (array i) entries s;
       (count, out2, s) \<leftarrow> display_rows array (Suc i) n filt entries s;
       Some (Suc count, out1 @ out2, s) } }"

definition display_table ::
  "(nat \<Rightarrow> 'a inode_state_scheme \<Rightarrow> ('i \<times> 'a inode_state_scheme) option) \<Rightarrow> nat \<Rightarrow> ('i \<Rightarrow> bool) \<Rightarrow>
   (string \<times> nat \<times> ('i \<Rightarrow> 'a inode_state_scheme \<Rightarrow> (ls_out list \<times> 'a inode_state_scheme) option)) list \<Rightarrow>
   'a inode_state_scheme \<Rightarrow> (nat \<times> ls_out list \<times> 'a inode_state_scheme) option" where
  "display_table array n filt entries s = do {
     let entries = calculate_positions 0 entries;
     (count, rows, s) \<leftarrow> display_rows array 0 n filt entries s;
     Some (count, display_header entries @ rows, s) }"

lemma dir_size_step: "i < dir_size ip s \<Longrightarrow> 2 ^ 32 - Suc i < 2 ^ 32 - i"
proof (rule diff_less_mono2)
  assume "i < dir_size ip s"
  also have "dir_size ip s \<le> unat (i_size (inode s ip))" by (simp add: dir_size_def)
  also have "\<dots> < 2 ^ 32" using unsigned_less [of "i_size (inode s ip)", where ?'a = nat] by simp
  finally show "i < 2 ^ 32" .
qed simp

function ls_plain :: "nat \<Rightarrow> nat \<Rightarrow> 'a inode_state_scheme \<Rightarrow> (ls_out list \<times> 'a inode_state_scheme) option" where
  "ls_plain dir i s =
     (if i < dir_size dir s then do {
        (d, s) \<leftarrow> dir_at dir i s;
        if d_inode d = 0 then ls_plain dir (Suc i) s
        else do {
          (d, s) \<leftarrow> dir_at dir i s;
          (ind, s) \<leftarrow> ls_ref dir (d_inode d) s;
          (d, s) \<leftarrow> dir_at dir i s;
          t \<leftarrow> name_text d;
          let t = t @ (if i_type (inode s ind) = FS_TYPE_DIR then bytes_of ''/'' else []) @ bytes_of ''  '';
          s \<leftarrow> ls_close dir ind s;
          (outs, s) \<leftarrow> ls_plain dir (Suc i) s;
          Some (Text t # outs, s) } }
      else Some ([], s))"
  by pat_completeness auto
termination
  by (relation "measure (\<lambda>(dir, i, s). 2 ^ 32 - i)") (simp_all only: wf_measure in_measure prod.case dir_size_step)

declare ls_plain.simps [simp del]

definition LS_VERBOSE :: u32 where "LS_VERBOSE = 1"

definition do_ls :: "u8 list \<Rightarrow> u32 \<Rightarrow> 'a fs_state_scheme \<Rightarrow> (int \<times> ls_out list \<times> 'a fs_state_scheme) option" where
  "do_ls path ls_option s = do {
     (t, s) \<leftarrow> path_resolve_entry path s;
     case t of
       None \<Rightarrow> Some (ERR_FILE_NOT_EXISTS, [], s)
     | Some dir \<Rightarrow> do {
         s \<leftarrow> inode_open dir s;
         if i_type (inode s dir) \<noteq> FS_TYPE_DIR then do { s \<leftarrow> inode_close dir s; Some (ERR_FILE_TYPE_MISMATCH, [], s) }
         else do {
           (outs, s) \<leftarrow>
             (if ls_option AND LS_VERBOSE \<noteq> 0 then do {
                (_, outs, s) \<leftarrow> display_table (dir_at dir) (dir_size dir s) (\<lambda>d. d_inode d \<noteq> 0)
                   [(''INODE'', 7, ls_number dir), (''SIZE'', 10, ls_size dir),
                    (''TYPE'', 6, ls_type dir), (''NAME'', 24, ls_name dir)] s;
                Some (outs, s) }
              else do {
                (outs, s) \<leftarrow> ls_plain dir 0 s;
                Some (outs @ [Text (bytes_of ''\<newline>'')], s) });
           s \<leftarrow> inode_close dir s;
           Some (0, outs, s) } } }"

section \<open>Descriptors\<close>

definition O_RDONLY :: u32 where "O_RDONLY = 1"
definition O_WRONLY :: u32 where "O_WRONLY = 2"
definition O_RDWR :: u32 where "O_RDWR = 3"

definition fd_slot :: "int \<Rightarrow> 'a fs_state_scheme \<Rightarrow> nat option" where
  "fd_slot fd s = fd_table (proc_of s) ! nat fd"

definition fd_range :: "int \<Rightarrow> bool" where
  "fd_range fd \<longleftrightarrow> \<not> (fd < 0 \<or> fd \<ge> int NUM_MAX_PROC_FD)"

definition set_fdesc :: "nat \<Rightarrow> fdesc_t \<Rightarrow> 'a fs_state_scheme \<Rightarrow> 'a fs_state_scheme" where
  "set_fdesc i f s = s\<lparr>fdesc_array := (fdesc_array s)[i := f]\<rparr>"

definition set_fd :: "nat \<Rightarrow> nat \<Rightarrow> nat option \<Rightarrow> 'a fs_state_scheme \<Rightarrow> 'a fs_state_scheme" where
  "set_fd p fd v s = s\<lparr>procs := (procs s)(p := (procs s p)\<lparr>fd_table := (fd_table (procs s p))[fd := v]\<rparr>)\<rparr>"

definition install_fd :: "nat \<Rightarrow> bool \<Rightarrow> bool \<Rightarrow> 'a fs_state_scheme \<Rightarrow> (int \<times> 'a fs_state_scheme) option" where
  "install_fd ip rd wr s =
     (case find (\<lambda>i. fd_table (proc_of s) ! i = None) [0..<NUM_MAX_PROC_FD] of
        None \<Rightarrow> do { s \<leftarrow> inode_close ip s; Some (-1, s) }
      | Some fd \<Rightarrow>
          case find (\<lambda>i. \<not> f_valid (fdesc_array s ! i)) [0..<NUM_FDESCS] of
            None \<Rightarrow> do { s \<leftarrow> inode_close ip s; Some (-1, s) }
          | Some i \<Rightarrow> do {
              let s = set_fdesc i \<lparr>f_inode = ip, f_valid = True, wpos = 0, rpos = 0, readable = rd, writable = wr\<rparr> s;
              let s = set_fd (current_running s) fd (Some i) s;
              s \<leftarrow> inode_unlock ip s;
              Some (int fd, s) })"

definition do_open :: "u8 list \<Rightarrow> u32 \<Rightarrow> 'a fs_state_scheme \<Rightarrow> (int \<times> 'a fs_state_scheme) option" where
  "do_open path mode s = do {
     let wr = (mode AND O_WRONLY \<noteq> 0 \<or> mode AND O_RDWR \<noteq> 0);
     let rd = (mode AND O_RDONLY \<noteq> 0 \<or> mode AND O_RDWR \<noteq> 0);
     (t, s) \<leftarrow> (if wr then path_create path FS_TYPE_FILE s else Some (None, s));
     (t, s) \<leftarrow> (if t = None then path_resolve_entry path s else Some (t, s));
     case t of
       None \<Rightarrow> Some (-1, s)
     | Some ip \<Rightarrow> do {
         s \<leftarrow> inode_open ip s;
         if i_type (inode s ip) = FS_TYPE_DIR then do { s \<leftarrow> inode_close ip s; Some (-1, s) }
         else install_fd ip rd wr s } }"

definition do_read :: "int \<Rightarrow> u32 \<Rightarrow> 'a fs_state_scheme \<Rightarrow> (int \<times> u8 list \<times> 'a fs_state_scheme) option" where
  "do_read fd len s =
     (if \<not> fd_range fd then Some (0, [], s)
      else case fd_slot fd s of
        None \<Rightarrow> Some (0, [], s)
      | Some i \<Rightarrow> do {
          let ip = f_inode (fdesc_array s ! i);
          s \<leftarrow> inode_open ip s;
          (bs, s) \<leftarrow> inode_read ip (rpos (fdesc_array s ! i)) len s;
          let s = set_fdesc i ((fdesc_array s ! i)\<lparr>rpos := rpos (fdesc_array s ! i) + of_nat (length bs)\<rparr>) s;
          s \<leftarrow> inode_unlock ip s;
          Some (int (length bs), bs, s) })"

definition do_write :: "int \<Rightarrow> u8 list \<Rightarrow> 'a fs_state_scheme \<Rightarrow> (int \<times> 'a fs_state_scheme) option" where
  "do_write fd src s =
     (if \<not> fd_range fd then Some (0, s)
      else case fd_slot fd s of
        None \<Rightarrow> Some (0, s)
      | Some i \<Rightarrow> do {
          let ip = f_inode (fdesc_array s ! i);
          s \<leftarrow> inode_open ip s;
          (n, s) \<leftarrow> inode_write ip (wpos (fdesc_array s ! i)) src s;
          let s = set_fdesc i ((fdesc_array s ! i)\<lparr>wpos := wpos (fdesc_array s ! i) + of_nat n\<rparr>) s;
          s \<leftarrow> inode_unlock ip s;
          Some (int n, s) })"

definition do_close :: "int \<Rightarrow> 'a fs_state_scheme \<Rightarrow> (int \<times> 'a fs_state_scheme) option" where
  "do_close fd s =
     (if \<not> fd_range fd then Some (0, s)
      else case fd_slot fd s of
        None \<Rightarrow> Some (ERR_FD_INVALID, s)
      | Some i \<Rightarrow> do {
          s \<leftarrow> inode_deref (f_inode (fdesc_array s ! i)) s;
          let s = set_fdesc i ((fdesc_array s ! i)\<lparr>f_valid := False\<rparr>) s;
          let s = set_fd (current_running s) (nat fd) None s;
          Some (0, s) })"

definition do_ln :: "u8 list \<Rightarrow> u8 list \<Rightarrow> 'a fs_state_scheme \<Rightarrow> (int \<times> 'a fs_state_scheme) option" where
  "do_ln src_path dst_path s = do {
     (t, s) \<leftarrow> path_resolve_entry src_path s;
     case t of
       None \<Rightarrow> Some (ERR_FILE_NOT_EXISTS, s)
     | Some src \<Rightarrow> do {
         s \<leftarrow> inode_open src s;
         if i_type (inode s src) = FS_TYPE_DIR then do { s \<leftarrow> inode_close src s; Some (ERR_FILE_TYPE_MISMATCH, s) }
         else do {
           (p, name, s) \<leftarrow> path_resolve_parent dst_path s;
           case p of
             None \<Rightarrow> do { s \<leftarrow> inode_close src s; Some (ERR_FILE_NOT_EXISTS, s) }
           | Some parent \<Rightarrow> do {
               s \<leftarrow> inode_open parent s;
               (ret, s) \<leftarrow> dir_link parent name (inode_num (inode s src)) s;
               s \<leftarrow> inode_close parent s;
               s \<leftarrow> inode_close src s;
               Some (ret, s) } } } }"

definition do_rm :: "u8 list \<Rightarrow> 'a fs_state_scheme \<Rightarrow> (int \<times> 'a fs_state_scheme) option" where
  "do_rm path s = do {
     (p, name, s) \<leftarrow> path_resolve_parent path s;
     case p of
       None \<Rightarrow> Some (ERR_FILE_NOT_EXISTS, s)
     | Some dir \<Rightarrow> do {
         s \<leftarrow> inode_open dir s;
         (ret, s) \<leftarrow> dir_unlink dir name s;
         s \<leftarrow> inode_close dir s;
         Some (ret, s) } }"

text \<open>\<open>target\<close> is an \<open>int\<close>: the sum of the size and the offset is formed modulo \<open>2 ^ 32\<close> and read signed.\<close>

definition seek_target :: "int \<Rightarrow> u32 \<Rightarrow> u32 \<Rightarrow> u32 \<Rightarrow> int" where
  "seek_target whence offset position len =
     (let target = sint (if whence = 0 then offset else if whence = 1 then position + offset
                         else if whence = 2 then len + offset else position)
      in if target < 0 then 0 else target)"

definition do_lseek :: "int \<Rightarrow> u32 \<Rightarrow> int \<Rightarrow> 'a fs_state_scheme \<Rightarrow> (int \<times> 'a fs_state_scheme) option" where
  "do_lseek fd offset whence s =
     (if \<not> fd_range fd then Some (ERR_FD_INVALID, s)
      else case fd_slot fd s of
        None \<Rightarrow> Some (ERR_FD_INVALID, s)
      | Some i \<Rightarrow> do {
          let fp = fdesc_array s ! i;
          s \<leftarrow> inode_open (f_inode fp) s;
          let target = seek_target whence offset (max (rpos fp) (wpos fp)) (i_size (inode s (f_inode fp)));
          s \<leftarrow> inode_unlock (f_inode fp) s;
          let s = set_fdesc i ((fdesc_array s ! i)\<lparr>wpos := of_int target,
                    rpos := min (of_int target) (i_size (inode s (f_inode fp)))\<rparr>) s;
          Some (target, s) })"

fun cleanup_loop :: "nat \<Rightarrow> nat list \<Rightarrow> 'a fs_state_scheme \<Rightarrow> 'a fs_state_scheme option" where
  "cleanup_loop proc [] s = Some s"
| "cleanup_loop proc (i # is) s = do {
     s \<leftarrow> (case fd_table (procs s proc) ! i of
             None \<Rightarrow> Some s
           | Some f \<Rightarrow> do {
               let ip = f_inode (fdesc_array s ! f);
               s \<leftarrow> (if acquired (inode s ip) then inode_unlock ip s else Some s);
               s \<leftarrow> inode_deref ip s;
               let s = set_fdesc f ((fdesc_array s ! f)\<lparr>f_valid := False\<rparr>) s;
               Some (set_fd proc i None s) });
     cleanup_loop proc is s }"

definition cleanup_fd :: "nat \<Rightarrow> 'a fs_state_scheme \<Rightarrow> 'a fs_state_scheme option" where
  "cleanup_fd proc s = cleanup_loop proc [0..<NUM_MAX_PROC_FD] s"

end
