(* ===== verification/Fs_Etc.thy ===== *)
theory Fs_Etc
  imports Fs_Syscall
begin

text \<open>
  The configuration files: \<open>kernel/fs/etc.c\<close>, and the start of the file system in
  \<open>kernel/fs/fs.cpp\<close> that needs them.

  \<^item> \<open>vm_buffer\<close> is the static buffer of \<open>etc_vm_parse\<close>, which keeps what an earlier, longer file left
    in it. A scan for a terminating zero that leaves the buffer is \<open>None\<close>.
  \<^item> A daemon is an endless loop around \<open>do_sleep\<close>; \<open>etc_vm_step\<close> and \<open>etc_fs_step\<close> are one round of it.
    The processes are started by \<open>do_exec\<close>, which is not part of this model.
\<close>

record etc_state = fs_state +
  running :: bool
  vm_buffer :: "u8 list"

section \<open>Numbers\<close>

definition etc_isspace :: "u8 \<Rightarrow> bool" where
  "etc_isspace ch \<longleftrightarrow> ch = 0x20 \<or> ch = 0x0a \<or> ch = 0x09 \<or> ch = 0x0b \<or> ch = 0x0c \<or> ch = 0x0d"

definition etc_isdigit :: "u8 \<Rightarrow> bool" where
  "etc_isdigit ch \<longleftrightarrow> 0x30 \<le> ch \<and> ch \<le> 0x39"

fun etc_atol_loop :: "u64 \<Rightarrow> u64 \<Rightarrow> bool \<Rightarrow> u8 list \<Rightarrow> u64" where
  "etc_atol_loop base ret negative [] = (if negative then - ret else ret)"
| "etc_atol_loop base ret negative (c # cs) =
     (if etc_isdigit c then etc_atol_loop base (ret * base + (ucast c - 0x30)) negative cs
      else if base = 16 then
        if 0x61 \<le> c \<and> c \<le> 0x66 then etc_atol_loop base (ret * base + (ucast c - 0x61 + 10)) negative cs
        else if 0x41 \<le> c \<and> c \<le> 0x46 then etc_atol_loop base (ret * base + (ucast c - 0x41 + 10)) negative cs
        else 0
      else 0)"

text \<open>The string is given without its terminating zero. The loop over blanks never advances.\<close>

definition etc_atol :: "u8 list \<Rightarrow> u64 option" where
  "etc_atol str =
     (if etc_isspace (char_at str 0) then None
      else let c = char_at str 0 in
        if c \<noteq> 0x2b \<and> c \<noteq> 0x2d \<and> \<not> etc_isdigit c then Some 0
        else let negative = (c = 0x2d); str = (if c = 0x2b \<or> c = 0x2d then tl str else str) in
          if (char_at str 0 = 0x30 \<and> char_at str 1 = 0x78) \<or> (char_at str 0 = 0x30 \<and> char_at str 1 = 0x58)
          then Some (etc_atol_loop 16 0 negative (drop 2 str))
          else Some (etc_atol_loop 10 0 negative str))"

definition etc_atoi :: "u8 list \<Rightarrow> int option" where
  "etc_atoi str = map_option (\<lambda>x. sint (ucast x :: u32)) (etc_atol str)"

section \<open>The file \<open>/proc/sys/vm\<close>\<close>

definition cache_policy_name :: "cache_policy \<Rightarrow> u8 list" where
  "cache_policy_name p =
     (case p of POLICY_WRITE_BACK \<Rightarrow> bytes_of ''write back'' | POLICY_WRITE_THROUGH \<Rightarrow> bytes_of ''write through'')"

text \<open>A memory with a string at address 4096, for the arguments of \<open>snprintf\<close>.\<close>

definition string_mem :: "u8 list \<Rightarrow> mem" where
  "string_mem cs = (\<lambda>a. if a < 4096 then 0 else char_at cs (unat (a - 4096)))"

definition etc_vm_text :: "cache_policy \<Rightarrow> int \<Rightarrow> u8 list option" where
  "etc_vm_text p freq =
     mini_vsnprintf (string_mem (cache_policy_name p)) 1024
       (bytes_of ''page_cache_policy = %s\<newline>write_back_freq = %d\<newline>'')
       (\<lambda>i. if i = 0 then 4096 else of_int freq)"

definition etc_vm_reset :: "nat \<Rightarrow> 'a etc_state_scheme \<Rightarrow> 'a etc_state_scheme option" where
  "etc_vm_reset ip s = do {
     text \<leftarrow> etc_vm_text (policy s) (write_back_freq s);
     (_, s) \<leftarrow> inode_write ip 0 text s;
     Some s }"

definition cstring :: "u8 list \<Rightarrow> nat \<Rightarrow> u8 list option" where
  "cstring buffer i =
     (if 0 \<in> set (drop i buffer) then Some (takeWhile (\<lambda>b. b \<noteq> 0) (drop i buffer)) else None)"

definition split_lines :: "nat \<Rightarrow> u8 list \<Rightarrow> u8 list" where
  "split_lines n buffer =
     map (\<lambda>i. if 1 \<le> i \<and> i < n \<and> (buffer ! i = 0x0a \<or> buffer ! i = 0) then 0 else buffer ! i) [0..<length buffer]"

definition starts :: "u8 list \<Rightarrow> string \<Rightarrow> nat \<Rightarrow> bool" where
  "starts str text n \<longleftrightarrow> strncmp_from str (bytes_of text) 0 n = 0"

text \<open>The result is \<open>None\<close> for the return value \<open>-1\<close>.\<close>

definition etc_vm_parse ::
  "nat \<Rightarrow> 'a etc_state_scheme \<Rightarrow> ((cache_policy \<times> int) option \<times> 'a etc_state_scheme) option" where
  "etc_vm_parse ip s = do {
     (bs, s) \<leftarrow> inode_read ip 0 1024 s;
     let size = length bs;
     let buffer = split_lines size (bs @ drop size (vm_buffer s));
     let s = s\<lparr>vm_buffer := buffer\<rparr>;
     line0 \<leftarrow> cstring buffer 0;
     let line1 = min (length line0 + 1) size;
     let p = (if starts line0 ''page_cache_policy = write back'' 30 then Some POLICY_WRITE_BACK
              else if starts line0 ''page_cache_policy = write through'' 33 then Some POLICY_WRITE_THROUGH
              else None);
     case p of
       None \<Rightarrow> Some (None, s)
     | Some p \<Rightarrow>
         if starts (drop line1 buffer) ''write_back_freq = '' 18 then do {
           str \<leftarrow> cstring buffer (line1 + 18);
           freq \<leftarrow> etc_atoi str;
           Some (Some (p, freq), s) }
         else Some (None, s) }"

definition etc_vm_step :: "'a etc_state_scheme \<Rightarrow> 'a etc_state_scheme option" where
  "etc_vm_step s =
     (if \<not> running s then Some s
      else do {
        (t, s) \<leftarrow> path_resolve_entry (bytes_of ''/proc/sys/vm'') s;
        ip \<leftarrow> t;
        s \<leftarrow> inode_open ip s;
        (config, s) \<leftarrow> etc_vm_parse ip s;
        s \<leftarrow> (case config of
                Some (p, freq) \<Rightarrow> Some (s\<lparr>policy := p, write_back_freq := freq\<rparr>)
              | None \<Rightarrow> etc_vm_reset ip s);
        inode_close ip s })"

section \<open>The file \<open>/proc/sys/fs/dentry\<close>\<close>

definition etc_fs_text :: "bool \<Rightarrow> u8 list option" where
  "etc_fs_text enabled =
     mini_vsnprintf (string_mem (bytes_of (if enabled then ''on'' else ''off''))) 128
       (bytes_of ''dentry_cache = %s\<newline>flush = 0\<newline>'') (\<lambda>i. 4096)"

definition etc_fs_reset :: "nat \<Rightarrow> 'a etc_state_scheme \<Rightarrow> 'a etc_state_scheme option" where
  "etc_fs_reset ip s = do {
     text \<leftarrow> etc_fs_text (dcache_is_enabled (dcache s));
     (_, s) \<leftarrow> inode_write ip 0 text s;
     Some s }"

text \<open>The first line and what follows the end of it; the text ends at the first zero.\<close>

definition second_line :: "u8 list \<Rightarrow> u8 list \<times> u8 list" where
  "second_line text =
     (let first = takeWhile (\<lambda>c. c \<noteq> 0x0a) text
      in (first, dropWhile (\<lambda>c. c = 0x0a) (drop (length first) text)))"

definition etc_fs_parse :: "nat \<Rightarrow> 'a etc_state_scheme \<Rightarrow> (int \<times> 'a etc_state_scheme) option" where
  "etc_fs_parse ip s = do {
     (bs, s) \<leftarrow> inode_read ip 0 127 s;
     if length bs \<le> 0 then Some (-1, s)
     else do {
       let (line1, line2) = second_line (takeWhile (\<lambda>b. b \<noteq> 0) bs);
       let enable = (if starts line1 ''dentry_cache = on'' 17 then Some True
                     else if starts line1 ''dentry_cache = off'' 18 then Some False else None);
       case enable of
         None \<Rightarrow> Some (-1, s)
       | Some enable \<Rightarrow> do {
           c \<leftarrow> dcache_set_enabled (kmem s 0) enable (dcache s);
           let s = s\<lparr>dcache := c, kmem := (\<lambda>i. kmem s (Suc i))\<rparr>;
           if line2 \<noteq> [] \<and> \<not> starts line2 ''flush = 1'' 9 \<and> \<not> starts line2 ''flush = 0'' 9 then Some (-1, s)
           else do {
             let flush = (line2 \<noteq> [] \<and> starts line2 ''flush = 1'' 9);
             let s = (if flush then s\<lparr>dcache := dcache_reset (dcache s)\<rparr> else s);
             s \<leftarrow> etc_fs_reset ip s;
             Some (0, s) } } } }"

definition etc_fs_step :: "'a etc_state_scheme \<Rightarrow> 'a etc_state_scheme option" where
  "etc_fs_step s =
     (if \<not> running s then Some s
      else do {
        (t, s) \<leftarrow> path_resolve_entry (bytes_of ''/proc/sys/fs/dentry'') s;
        case t of
          None \<Rightarrow> Some s
        | Some ip \<Rightarrow> do {
            s \<leftarrow> inode_open ip s;
            s \<leftarrow> (if i_type (inode s ip) \<noteq> FS_TYPE_FILE then Some s
                  else do {
                    (r, s) \<leftarrow> etc_fs_parse ip s;
                    if r \<noteq> 0 then etc_fs_reset ip s else Some s });
            inode_close ip s } })"

section \<open>Start of the file system\<close>

definition init_fs_etc :: "'a etc_state_scheme \<Rightarrow> 'a etc_state_scheme option" where
  "init_fs_etc s = do {
     (_, s) \<leftarrow> do_mkdir (bytes_of ''/proc'') s;
     (_, s) \<leftarrow> do_mkdir (bytes_of ''/proc/sys'') s;
     (_, s) \<leftarrow> do_mkdir (bytes_of ''/proc/sys/fs'') s;
     (vm_node, s) \<leftarrow> path_create (bytes_of ''/proc/sys/vm'') FS_TYPE_FILE s;
     s \<leftarrow> (case vm_node of
             None \<Rightarrow> Some s
           | Some ip \<Rightarrow> do { s \<leftarrow> inode_open ip s; s \<leftarrow> etc_vm_reset ip s; inode_close ip s });
     (fs_node, s) \<leftarrow> path_create (bytes_of ''/proc/sys/fs/dentry'') FS_TYPE_FILE s;
     case fs_node of
       None \<Rightarrow> Some s
     | Some ip \<Rightarrow> do { s \<leftarrow> inode_open ip s; s \<leftarrow> etc_fs_reset ip s; inode_close ip s } }"

definition pause_fs_daemon :: "'a etc_state_scheme \<Rightarrow> 'a etc_state_scheme" where
  "pause_fs_daemon s = s\<lparr>running := False\<rparr>"

definition resume_fs_daemon :: "'a etc_state_scheme \<Rightarrow> 'a etc_state_scheme" where
  "resume_fs_daemon s = s\<lparr>running := True\<rparr>"

definition do_remakefs :: "u32 list \<Rightarrow> 'a etc_state_scheme \<Rightarrow> (int \<times> 'a etc_state_scheme) option" where
  "do_remakefs sectors s = do {
     let s = pause_fs_daemon s;
     (_, s) \<leftarrow> do_cleanfs s;
     let s = flush_filesystem sectors s;
     (_, s) \<leftarrow> do_mkfs s;
     s \<leftarrow> init_fs_etc s;
     Some (0, resume_fs_daemon s) }"

text \<open>\<open>init_fs_cache\<close>: an empty cache directory and the default frequency.\<close>

definition init_fs_cache :: "'a disk_state_scheme \<Rightarrow> 'a disk_state_scheme" where
  "init_fs_cache s = s\<lparr>cache_pages := (\<lambda>_. Unmapped), write_back_freq := 10\<rparr>"

definition init_fs :: "'a etc_state_scheme \<Rightarrow> 'a etc_state_scheme option" where
  "init_fs s = do {
     s \<leftarrow> init_inodes s;
     c \<leftarrow> init_dentry_cache (kmem s 0) (dcache s);
     let s = s\<lparr>dcache := c, kmem := (\<lambda>i. kmem s (Suc i))\<rparr>;
     let s = init_fs_cache s;
     let s = s\<lparr>superblock := superblock_at (sd s FS_START_SECTOR)\<rparr>;
     s \<leftarrow> (if magic (superblock s) \<noteq> SUPERBLOCK_MAGIC then do { (_, s) \<leftarrow> do_mkfs s; Some s } else Some s);
     s \<leftarrow> init_fs_etc s;
     Some (resume_fs_daemon s) }"

end
