(* ===== verification/Fs_Descriptor.thy ===== *)
theory Fs_Descriptor
  imports Fs_Syscall
begin

text \<open>
  The descriptor tables of the processes. The theory first shows that the operations on blocks, inodes,
  directories and paths leave the descriptors and the tables alone, layer by layer, and then that the
  system calls keep every open descriptor valid and in one table only.
\<close>

section \<open>What the lower layers leave alone\<close>

named_theorems disk_keeps
named_theorems inode_keeps
named_theorems fs_keeps

lemma swapin_keeps [simp]: "disk_state.more (cache_swapin t l s) = disk_state.more s"
  by (simp add: cache_swapin_def split: page_slot.split)

lemma block_write_keeps [simp]: "disk_state.more (block_write b d s) = disk_state.more s"
  by (simp add: block_write_def cached_block_write_def Let_def)

lemma block_store_keeps [simp]: "disk_state.more (block_store i d s) = disk_state.more s"
  by (simp add: block_store_def)

lemma block_read_keeps [disk_keeps]: "block_read b s = Some (d, s') \<Longrightarrow> disk_state.more s' = disk_state.more s"
  by (auto simp: block_read_def cached_block_read_def Let_def split: if_splits page_slot.splits)

lemma block_open_keeps [disk_keeps]: "block_open b s = Some (i, s') \<Longrightarrow> disk_state.more s' = disk_state.more s"
  by (auto simp: block_open_def Let_def elim!: bind_SomeE dest!: disk_keeps split: option.splits if_splits)

lemma block_close_keeps [disk_keeps]: "block_close i s = Some s' \<Longrightarrow> disk_state.more s' = disk_state.more s"
  by (auto simp: block_close_def split: if_splits)

lemma block_memset_keeps [disk_keeps]: "block_memset b v s = Some s' \<Longrightarrow> disk_state.more s' = disk_state.more s"
  by (auto simp: block_memset_def elim!: bind_SomeE dest!: disk_keeps)

lemma block_alloc_loop_keeps: "block_alloc_loop n b s = Some (r, s') \<Longrightarrow> disk_state.more s' = disk_state.more s"
proof (induction "n - b" arbitrary: b s rule: less_induct)
  case less
  show ?case
  proof (cases "b < n")
    case True
    then have IH: "block_alloc_loop n (b + MAP_BITS) x = Some (r, s') \<Longrightarrow> disk_state.more s' = disk_state.more x" for x
      by (intro less(1)) (simp_all add: MAP_BITS_def BLOCK_SIZE_def)
    show ?thesis using less(2) True by (subst (asm) block_alloc_loop.simps)
      (auto elim!: bind_SomeE dest!: disk_keeps IH split: option.splits)
  next
    case False
    then show ?thesis using less(2) by (subst (asm) block_alloc_loop.simps) simp
  qed
qed

lemma block_allocset_keeps [disk_keeps]: "block_allocset v s = Some (r, s') \<Longrightarrow> disk_state.more s' = disk_state.more s"
  by (auto simp: block_allocset_def block_alloc_def elim!: bind_SomeE dest!: disk_keeps block_alloc_loop_keeps split: if_splits)

lemma block_free_keeps [disk_keeps]: "block_free b s = Some s' \<Longrightarrow> disk_state.more s' = disk_state.more s"
  by (auto simp: block_free_def Let_def elim!: bind_SomeE dest!: disk_keeps split: if_splits)

lemma alloc_entry_keeps [disk_keeps]: "alloc_entry i k v s = Some (r, s') \<Longrightarrow> disk_state.more s' = disk_state.more s"
  by (auto simp: alloc_entry_def elim!: bind_SomeE dest!: disk_keeps split: if_splits)

lemma map_leaf_keeps [disk_keeps]: "map_leaf b k s = Some (r, s') \<Longrightarrow> disk_state.more s' = disk_state.more s"
  by (auto simp: map_leaf_def elim!: bind_SomeE dest!: disk_keeps)

lemma free_entries_keeps [disk_keeps]: "free_entries blk i n s = Some s' \<Longrightarrow> disk_state.more s' = disk_state.more s"
  by (induction n arbitrary: i s) (auto elim!: bind_SomeE dest!: disk_keeps split: if_splits)

lemma free_array_keeps [disk_keeps]: "free_array b s = Some s' \<Longrightarrow> disk_state.more s' = disk_state.more s"
  by (auto simp: free_array_def elim!: bind_SomeE dest!: disk_keeps)

lemma free_arrays_keeps [disk_keeps]: "free_arrays root i n s = Some s' \<Longrightarrow> disk_state.more s' = disk_state.more s"
  by (induction n arbitrary: i s) (auto elim!: bind_SomeE dest!: disk_keeps split: if_splits)

text \<open>Inodes: everything beyond the table is kept.\<close>

lemma disk_keeps_inode: "disk_state.more s' = disk_state.more s \<Longrightarrow> inode_state.more s' = inode_state.more (s :: 'a inode_state_scheme)"
  by (rule more_inodes)

lemma block_store_inode_keeps [simp]: "inode_state.more (block_store i d s) = inode_state.more (s :: 'a inode_state_scheme)"
  by (rule disk_keeps_inode) simp

lemma read_diskinode_keeps [inode_keeps]: "read_diskinode n s = Some (x, s') \<Longrightarrow> inode_state.more s' = inode_state.more s"
  by (rule disk_keeps_inode) (auto simp: read_diskinode_def elim!: bind_SomeE dest!: disk_keeps)

lemma write_diskinode_keeps [inode_keeps]: "write_diskinode n x s = Some s' \<Longrightarrow> inode_state.more s' = inode_state.more s"
  by (rule disk_keeps_inode) (auto simp: write_diskinode_def elim!: bind_SomeE dest!: disk_keeps)

lemma inode_clear_keeps [inode_keeps]: "inode_clear ip s = Some s' \<Longrightarrow> inode_state.more s' = inode_state.more s"
  by (auto simp: inode_clear_def elim!: bind_SomeE dest!: inode_keeps split: if_splits)

lemma inode_ref_keeps [inode_keeps]: "inode_ref n s = Some (ip, s') \<Longrightarrow> inode_state.more s' = inode_state.more s"
  by (auto simp: inode_ref_def elim!: bind_SomeE split: option.splits)

lemma inode_open_keeps [inode_keeps]: "inode_open ip s = Some s' \<Longrightarrow> inode_state.more s' = inode_state.more s"
  by (auto simp: inode_open_def Let_def elim!: bind_SomeE dest!: inode_keeps split: if_splits)

lemma inode_unlock_keeps [inode_keeps]: "inode_unlock ip s = Some s' \<Longrightarrow> inode_state.more s' = inode_state.more s"
  by (auto simp: inode_unlock_def split: if_splits)

lemma inode_sync_keeps [inode_keeps]: "inode_sync ip s = Some s' \<Longrightarrow> inode_state.more s' = inode_state.more s"
  by (auto simp: inode_sync_def dest!: inode_keeps split: if_splits)

lemma allocset_inode_keeps: "block_allocset v s = Some (r, s') \<Longrightarrow> inode_state.more s' = inode_state.more s"
  by (rule disk_keeps_inode) (rule block_allocset_keeps)

lemma inode_mapblock_keeps [inode_keeps]: "inode_mapblock ip k s = Some (b, s') \<Longrightarrow> inode_state.more s' = inode_state.more s"
  by (auto simp: inode_mapblock_def Let_def elim!: bind_SomeE dest!: disk_keeps [THEN disk_keeps_inode] split: if_splits)

lemma free_direct_keeps: "free_direct ip i n s = Some s' \<Longrightarrow> inode_state.more s' = inode_state.more s"
  by (induction n arbitrary: i s) (auto elim!: bind_SomeE dest!: disk_keeps [THEN disk_keeps_inode] split: if_splits)

lemma superblock_update_keeps [simp]: "inode_state.more (s\<lparr>superblock := sb\<rparr>) = inode_state.more s"
  by (cases s) simp

lemma inode_delete_keeps [inode_keeps]: "inode_delete ip s = Some s' \<Longrightarrow> inode_state.more s' = inode_state.more s"
  by (auto simp: inode_delete_def Let_def elim!: bind_SomeE
      dest!: disk_keeps [THEN disk_keeps_inode] free_direct_keeps split: if_splits)

lemma inode_deref_keeps [inode_keeps]: "inode_deref ip s = Some s' \<Longrightarrow> inode_state.more s' = inode_state.more s"
proof -
  assume a: "inode_deref ip s = Some s'"
  show ?thesis
  proof (rule inode_deref.raw_induct [of "\<lambda>ip s s'. inode_state.more s' = inode_state.more s", OF _ a])
    fix f :: "nat \<Rightarrow> 'a inode_state_scheme \<Rightarrow> 'a inode_state_scheme option" and ip s s'
    assume IH: "\<And>ip s s'. f ip s = Some s' \<Longrightarrow> inode_state.more s' = inode_state.more s"
    assume "(if ref_count (inode s ip) = 0 then None
      else do {
        s \<leftarrow> (if ref_count (inode s ip) = 1 \<and> i_valid (inode s ip) \<and> link_count (inode s ip) = 0 then do {
                 s \<leftarrow> inode_open ip s;
                 s \<leftarrow> inode_delete ip s;
                 s \<leftarrow> inode_unlock ip s;
                 f ip s }
               else Some s);
        let s = set_inode ip ((inode s ip)\<lparr>ref_count := ref_count (inode s ip) - 1\<rparr>) s;
        if ref_count (inode s ip) = 0 then inode_clear ip s else Some s }) = Some s'"
    then show "inode_state.more s' = inode_state.more s"
      by (auto simp: Let_def elim!: bind_SomeE dest!: inode_keeps IH split: if_splits)
  qed
qed

lemma inode_close_keeps [inode_keeps]: "inode_close ip s = Some s' \<Longrightarrow> inode_state.more s' = inode_state.more s"
  by (auto simp: inode_close_def elim!: bind_SomeE dest!: inode_keeps)

lemma inode_alloc_loop_keeps: "inode_alloc_loop ty i n s = Some (ip, s') \<Longrightarrow> inode_state.more s' = inode_state.more s"
  by (induction n arbitrary: i s)
    (auto simp: Let_def elim!: bind_SomeE dest!: disk_keeps [THEN disk_keeps_inode] inode_keeps split: if_splits)

lemma inode_alloc_keeps [inode_keeps]: "inode_alloc ty s = Some (ip, s') \<Longrightarrow> inode_state.more s' = inode_state.more s"
  by (auto simp: inode_alloc_def dest!: inode_alloc_loop_keeps split: if_splits)

lemma inode_read_loop_keeps: "inode_read_loop ip off n acc s = Some (bs, s') \<Longrightarrow> inode_state.more s' = inode_state.more s"
proof (induction n arbitrary: off acc s rule: less_induct)
  case (less n)
  show ?case using less(2) by (subst (asm) inode_read_loop.simps)
    (auto simp: Let_def elim!: bind_SomeE dest!: disk_keeps [THEN disk_keeps_inode] inode_keeps less(1) [rotated] split: if_splits)
qed

lemma inode_read_keeps [inode_keeps]: "inode_read ip off n s = Some (bs, s') \<Longrightarrow> inode_state.more s' = inode_state.more s"
  by (auto simp: inode_read_def Let_def dest!: inode_read_loop_keeps split: if_splits)

lemma inode_write_loop_keeps: "inode_write_loop ip off src s = Some (off', rest, s') \<Longrightarrow> inode_state.more s' = inode_state.more s"
proof (induction "length src" arbitrary: off src s rule: less_induct)
  case less
  show ?case using less(2) by (subst (asm) inode_write_loop.simps)
    (auto simp: Let_def elim!: bind_SomeE dest!: disk_keeps [THEN disk_keeps_inode] inode_keeps less(1) [rotated] split: if_splits)
qed

lemma inode_write_keeps [inode_keeps]: "inode_write ip off src s = Some (n, s') \<Longrightarrow> inode_state.more s' = inode_state.more s"
  by (auto simp: inode_write_def Let_def elim!: bind_SomeE dest!: inode_write_loop_keeps inode_keeps split: if_splits)

text \<open>Directories and paths: descriptors and tables are kept.\<close>

definition fds :: "'a fs_state_scheme \<Rightarrow> fdesc_t list \<times> (nat \<Rightarrow> proc_fs) \<times> nat" where
  "fds s = (fdesc_array s, procs s, current_running s)"

lemma more_fds: "inode_state.more s' = inode_state.more s \<Longrightarrow> fds s' = fds (s :: 'a fs_state_scheme)"
  by (cases s, cases s') (simp add: fds_def)

lemma fds_simps [simp]:
  "fds (s\<lparr>dcache := c\<rparr>) = fds s" "fds (set_inode ip x s) = fds s" "fds (fs_dcache_put p d off s) = fds s"
  by (simp_all add: fds_def set_inode_def fs_dcache_put_def)

lemma read_dentry_keeps [inode_keeps]: "read_dentry dir off s = Some (d, s') \<Longrightarrow> inode_state.more s' = inode_state.more s"
  by (auto simp: read_dentry_def elim!: bind_SomeE dest!: inode_keeps split: if_splits)

lemma offset_step: "off < unat (x :: u32) \<Longrightarrow> 2 ^ 32 - (off + DENTRY_SIZE) < 2 ^ 32 - off"
  by (drule offset_below_size) (rule diff_less_mono2, simp_all add: DENTRY_SIZE_def)

lemma free_slot_keeps [inode_keeps]: "free_slot dir off s = Some (off', s') \<Longrightarrow> inode_state.more s' = inode_state.more s"
proof (induction "2 ^ 32 - off" arbitrary: off s rule: less_induct)
  case less
  show ?case
  proof (cases "off < unat (i_size (inode s dir))")
    case True
    have IH: "free_slot dir (off + DENTRY_SIZE) x = Some (off', s') \<Longrightarrow> inode_state.more s' = inode_state.more x" for x
      by (rule less(1) [OF offset_step [OF True]])
    show ?thesis using less(2) True by (subst (asm) free_slot.simps)
      (auto simp: Let_def elim!: bind_SomeE dest!: inode_keeps IH split: if_splits)
  next
    case False
    then show ?thesis using less(2) by (subst (asm) free_slot.simps) simp
  qed
qed

lemma empty_from_keeps: "empty_from dir off s = Some (r, s') \<Longrightarrow> inode_state.more s' = inode_state.more s"
proof (induction "2 ^ 32 - off" arbitrary: off s rule: less_induct)
  case less
  show ?case
  proof (cases "off < unat (i_size (inode s dir))")
    case True
    have IH: "empty_from dir (off + DENTRY_SIZE) x = Some (r, s') \<Longrightarrow> inode_state.more s' = inode_state.more x" for x
      by (rule less(1) [OF offset_step [OF True]])
    show ?thesis using less(2) True by (subst (asm) empty_from.simps)
      (auto simp: Let_def elim!: bind_SomeE dest!: inode_keeps IH split: if_splits)
  next
    case False
    then show ?thesis using less(2) by (subst (asm) empty_from.simps) simp
  qed
qed

lemma dir_isempty_keeps [inode_keeps]: "dir_isempty dir s = Some (r, s') \<Longrightarrow> inode_state.more s' = inode_state.more s"
  by (auto simp: dir_isempty_def dest: empty_from_keeps)

lemma dir_scan_keeps: "dir_scan dir name off s = Some (r, off', s') \<Longrightarrow> fds s' = fds s"
proof (induction "2 ^ 32 - off" arbitrary: off s rule: less_induct)
  case less
  show ?case
  proof (cases "off < unat (i_size (inode s dir))")
    case True
    have IH: "dir_scan dir name (off + DENTRY_SIZE) x = Some (r, off', s') \<Longrightarrow> fds s' = fds x" for x
      by (rule less(1) [OF offset_step [OF True]])
    show ?thesis using less(2) True by (subst (asm) dir_scan.simps)
      (auto simp: Let_def elim!: bind_SomeE dest!: inode_keeps [THEN more_fds] IH split: if_splits)
  next
    case False
    then show ?thesis using less(2) by (subst (asm) dir_scan.simps) simp
  qed
qed

lemma dir_lookup_keeps [fs_keeps]: "dir_lookup dir name s = Some (r, off, s') \<Longrightarrow> fds s' = fds s"
  by (auto simp: dir_lookup_def elim!: bind_SomeE dest!: inode_keeps [THEN more_fds] dir_scan_keeps split: if_splits option.splits)

lemmas path_keeps = inode_keeps [THEN more_fds]

lemma dir_link_keeps [fs_keeps]: "dir_link dir name n s = Some (r, s') \<Longrightarrow> fds s' = fds s"
  by (auto simp: dir_link_def Let_def elim!: bind_SomeE dest!: path_keeps fs_keeps split: if_splits option.splits)

lemma dir_unlink_keeps [fs_keeps]: "dir_unlink dir name s = Some (r, s') \<Longrightarrow> fds s' = fds s"
  by (auto simp: dir_unlink_def Let_def elim!: bind_SomeE dest!: path_keeps fs_keeps split: if_splits option.splits)

lemma dir_rmdir_keeps [fs_keeps]: "dir_rmdir dir name s = Some (r, s') \<Longrightarrow> fds s' = fds s"
  by (auto simp: dir_rmdir_def Let_def elim!: bind_SomeE dest!: path_keeps fs_keeps split: if_splits option.splits)

lemma path_walk_keeps: "path_walk cur path sl name s = Some (r, name', s') \<Longrightarrow> fds s' = fds s"
proof (induction "length path" arbitrary: cur path sl name s rule: less_induct)
  case less
  show ?case
  proof (cases "path_shift path")
    case None
    then show ?thesis using less(2) by (subst (asm) path_walk.simps) (auto elim!: bind_SomeE dest!: path_keeps split: if_splits)
  next
    case (Some a)
    obtain path' nm where a: "a = (path', nm)" by (cases a)
    then have IH: "path_walk c path' l nm x = Some (r, name', s') \<Longrightarrow> fds s' = fds x" for c l x
      using less(1) path_shift_shorter Some by blast
    show ?thesis using less(2) Some a by (subst (asm) path_walk.simps)
      (auto elim!: bind_SomeE dest!: path_keeps fs_keeps IH split: if_splits option.splits)
  qed
qed

lemma path_resolve_keeps [fs_keeps]: "path_resolve path sl s = Some (r, name, s') \<Longrightarrow> fds s' = fds s"
  by (auto simp: path_resolve_def elim!: bind_SomeE dest!: path_keeps path_walk_keeps split: if_splits)

lemma path_resolve_entry_keeps [fs_keeps]: "path_resolve_entry path s = Some (r, s') \<Longrightarrow> fds s' = fds s"
  by (auto simp: path_resolve_entry_def elim!: bind_SomeE dest!: fs_keeps)

lemma path_resolve_parent_keeps [fs_keeps]: "path_resolve_parent path s = Some (r, name, s') \<Longrightarrow> fds s' = fds s"
  by (auto simp: path_resolve_parent_def dest!: fs_keeps)

lemma create_fail_keeps [fs_keeps]: "create_fail c p s = Some (r, s') \<Longrightarrow> fds s' = fds s"
  by (auto simp: create_fail_def Let_def elim!: bind_SomeE dest!: path_keeps)

lemma link_dots_keeps [fs_keeps]: "link_dots c p s = Some (r, s') \<Longrightarrow> fds s' = fds s"
  by (auto simp: link_dots_def elim!: bind_SomeE dest!: fs_keeps split: if_splits)

lemma path_create_keeps [fs_keeps]: "path_create path ty s = Some (r, s') \<Longrightarrow> fds s' = fds s"
  by (auto simp: path_create_def Let_def elim!: bind_SomeE dest!: path_keeps fs_keeps split: if_splits option.splits)

lemma path_remove_keeps [fs_keeps]: "path_remove path isdir s = Some (r, s') \<Longrightarrow> fds s' = fds s"
  by (auto simp: path_remove_def elim!: bind_SomeE dest!: path_keeps fs_keeps split: if_splits option.splits)

text \<open>The listing of a directory.\<close>

lemma dir_at_keeps [inode_keeps]: "dir_at ip k s = Some (d, s') \<Longrightarrow> inode_state.more s' = inode_state.more s"
  by (auto simp: dir_at_def dest!: inode_keeps split: if_splits)

lemma ls_ref_keeps [inode_keeps]: "ls_ref dir n s = Some (ip, s') \<Longrightarrow> inode_state.more s' = inode_state.more s"
  by (auto simp: ls_ref_def elim!: bind_SomeE dest!: inode_keeps split: if_splits)

lemma ls_close_keeps [inode_keeps]: "ls_close dir ip s = Some s' \<Longrightarrow> inode_state.more s' = inode_state.more s"
  by (auto simp: ls_close_def dest!: inode_keeps split: if_splits)

lemma ls_column_keeps [inode_keeps]:
  "ls_number dir d s = Some (out1, s') \<Longrightarrow> inode_state.more s' = inode_state.more s"
  "ls_size dir d s = Some (out1, s') \<Longrightarrow> inode_state.more s' = inode_state.more s"
  "ls_type dir d s = Some (out1, s') \<Longrightarrow> inode_state.more s' = inode_state.more s"
  "ls_name dir d s = Some (out1, s') \<Longrightarrow> inode_state.more s' = inode_state.more s"
  by (auto simp: ls_number_def ls_size_def ls_type_def ls_name_def Let_def elim!: bind_SomeE dest!: inode_keeps)

lemma ls_plain_keeps [inode_keeps]: "ls_plain dir i s = Some (outs, s') \<Longrightarrow> inode_state.more s' = inode_state.more s"
proof (induction "2 ^ 32 - i" arbitrary: i s outs rule: less_induct)
  case less
  show ?case
  proof (cases "i < dir_size dir s")
    case True
    have IH: "ls_plain dir (Suc i) x = Some (o1, s') \<Longrightarrow> inode_state.more s' = inode_state.more x" for x o1
      by (rule less(1) [OF dir_size_step [OF True]])
    show ?thesis using less(2) True by (subst (asm) ls_plain.simps)
      (auto simp: Let_def elim!: bind_SomeE dest!: inode_keeps IH split: if_splits)
  next
    case False
    then show ?thesis using less(2) by (subst (asm) ls_plain.simps) simp
  qed
qed

definition action_keeps :: "('i \<Rightarrow> 'a inode_state_scheme \<Rightarrow> (ls_out list \<times> 'a inode_state_scheme) option) \<Rightarrow> bool" where
  "action_keeps act \<longleftrightarrow> (\<forall>x s o1 s'. act x s = Some (o1, s') \<longrightarrow> inode_state.more s' = inode_state.more s)"

definition column_keeps :: "('n \<times> nat \<times> ('i \<Rightarrow> 'a inode_state_scheme \<Rightarrow> (ls_out list \<times> 'a inode_state_scheme) option)) \<Rightarrow> bool" where
  "column_keeps e \<longleftrightarrow> action_keeps (snd (snd e))"

lemma positions_keep: "\<forall>e \<in> set es. column_keeps e \<Longrightarrow> \<forall>e \<in> set (calculate_positions k es). column_keeps e"
  by (induction k es rule: calculate_positions.induct) (simp_all add: column_keeps_def)

lemma display_row_keeps:
  assumes item: "\<And>s x s'. item s = Some (x, s') \<Longrightarrow> inode_state.more s' = inode_state.more s"
  shows "\<forall>e \<in> set es. column_keeps e \<Longrightarrow> display_row item es s = Some (o1, s') \<Longrightarrow> inode_state.more s' = inode_state.more s"
proof (induction es arbitrary: s o1)
  case (Cons e es)
  obtain name len action where e: "e = (name, len, action)" by (cases e) auto
  have act: "action x s = Some (o1, s') \<Longrightarrow> inode_state.more s' = inode_state.more s" for x s o1 s'
    using Cons(2) by (simp add: column_keeps_def action_keeps_def e)
  show ?case using Cons(2,3) by (auto simp: e elim!: bind_SomeE dest!: item act Cons(1) [rotated])
qed simp

lemma display_rows_keeps:
  assumes item: "\<And>i s x s'. array i s = Some (x, s') \<Longrightarrow> inode_state.more s' = inode_state.more s"
    and cols: "\<forall>e \<in> set es. column_keeps e"
  shows "display_rows array i n filt es s = Some (k, o1, s') \<Longrightarrow> inode_state.more s' = inode_state.more s"
proof (induction n arbitrary: i s k o1)
  case (Suc n)
  have row: "display_row (array i) es s = Some (o1, s') \<Longrightarrow> inode_state.more s' = inode_state.more s" for i s o1 s'
    by (rule display_row_keeps [OF item cols])
  show ?case using Suc(2) by (auto elim!: bind_SomeE dest!: item row Suc(1) split: if_splits)
qed simp

lemma display_table_keeps:
  assumes "\<And>i s x s'. array i s = Some (x, s') \<Longrightarrow> inode_state.more s' = inode_state.more s" "\<forall>e \<in> set es. column_keeps e"
    "display_table array n filt es s = Some (k, o1, s')"
  shows "inode_state.more s' = inode_state.more s"
proof -
  obtain o2 where r: "display_rows array 0 n filt (calculate_positions 0 es) s = Some (k, o2, s')"
    using assms(3) by (auto simp: display_table_def Let_def elim!: bind_SomeE)
  show ?thesis by (rule display_rows_keeps [OF _ positions_keep [OF assms(2)] r]) (rule assms(1))
qed

lemma do_ls_keeps [fs_keeps]: "do_ls path opt s = Some (r, outs, s') \<Longrightarrow> fds s' = fds s"
proof -
  have cols: "\<forall>e \<in> set [(''INODE'', 7, ls_number dir), (''SIZE'', 10, ls_size dir), (''TYPE'', 6, ls_type dir), (''NAME'', 24, ls_name dir)].
      column_keeps e" for dir
    by (simp add: column_keeps_def action_keeps_def) (blast dest: ls_column_keeps)
  have "display_table (dir_at dir) n filt
      [(''INODE'', 7, ls_number dir), (''SIZE'', 10, ls_size dir), (''TYPE'', 6, ls_type dir), (''NAME'', 24, ls_name dir)] s =
      Some (k, o1, s') \<Longrightarrow> fds s' = fds s" for dir n filt and s s' :: "'a fs_state_scheme" and k o1
    by (rule more_fds, rule display_table_keeps [OF dir_at_keeps cols])
  then show "do_ls path opt s = Some (r, outs, s') \<Longrightarrow> fds s' = fds s"
    by (auto simp: do_ls_def elim!: bind_SomeE dest!: inode_keeps [THEN more_fds] fs_keeps split: if_splits option.splits)
qed

section \<open>Descriptors\<close>

definition fd_at :: "'a fs_state_scheme \<Rightarrow> nat \<Rightarrow> nat \<Rightarrow> nat option" where
  "fd_at s p fd = (if fd < NUM_MAX_PROC_FD then fd_table (procs s p) ! fd else None)"

text \<open>Every open descriptor is valid and in one place of one table.\<close>

definition fd_inv :: "'a fs_state_scheme \<Rightarrow> bool" where
  "fd_inv s \<longleftrightarrow> length (fdesc_array s) = NUM_FDESCS \<and> (\<forall>p. length (fd_table (procs s p)) = NUM_MAX_PROC_FD) \<and>
     (\<forall>p fd i. fd_at s p fd = Some i \<longrightarrow> i < NUM_FDESCS \<and> f_valid (fdesc_array s ! i)) \<and>
     (\<forall>p q fd gd i. fd_at s p fd = Some i \<longrightarrow> fd_at s q gd = Some i \<longrightarrow> p = q \<and> fd = gd)"

lemma fd_invD:
  assumes "fd_inv s"
  shows "length (fdesc_array s) = NUM_FDESCS" "length (fd_table (procs s p)) = NUM_MAX_PROC_FD"
    "fd_at s p fd = Some i \<Longrightarrow> i < NUM_FDESCS" "fd_at s p fd = Some i \<Longrightarrow> f_valid (fdesc_array s ! i)"
    "fd_at s p fd = Some i \<Longrightarrow> fd_at s q gd = Some i \<Longrightarrow> p = q \<and> fd = gd"
  using assms unfolding fd_inv_def by blast+

lemma fd_inv_fds: "fds s' = fds s \<Longrightarrow> fd_inv s' = fd_inv s"
  by (simp add: fds_def fd_inv_def fd_at_def)

lemma fd_at_set:
  assumes "fd_inv s"
  shows "fd_at (set_fdesc i f s) q gd = fd_at s q gd"
    "fd_at (set_fd p fd v s) q gd = (if q = p \<and> gd = fd \<and> fd < NUM_MAX_PROC_FD then v else fd_at s q gd)"
    "i < NUM_FDESCS \<Longrightarrow> fdesc_array (set_fdesc i f s) ! j = (if j = i then f else fdesc_array s ! j)"
    "fdesc_array (set_fd p fd v s) = fdesc_array s" "length (fdesc_array (set_fdesc i f s)) = NUM_FDESCS"
    "procs (set_fdesc i f s) = procs s" "length (fd_table (procs (set_fd p fd v s) q)) = NUM_MAX_PROC_FD"
  using fd_invD(1,2) [OF assms] by (auto simp: fd_at_def set_fdesc_def set_fd_def nth_list_update)

lemma fd_inv_valid:
  assumes "fd_inv s" "f_valid f" "i < NUM_FDESCS"
  shows "fd_inv (set_fdesc i f s)"
  unfolding fd_inv_def using fd_invD [OF assms(1)] assms(2,3) by (simp add: fd_at_set [OF assms(1)])

lemma fd_inv_close:
  assumes "fd_inv s" "fd_at s p fd = Some i"
  shows "fd_inv (set_fd p fd None (set_fdesc i f s))"
proof -
  let ?s = "set_fd p fd None (set_fdesc i f s)"
  have fd: "fd < NUM_MAX_PROC_FD" using assms(2) by (simp add: fd_at_def split: if_splits)
  have at: "fd_at ?s q gd = (if q = p \<and> gd = fd then None else fd_at s q gd)" for q gd
    using fd fd_invD(2) [OF assms(1)] by (auto simp: fd_at_def set_fdesc_def set_fd_def nth_list_update)
  have ar: "fdesc_array ?s = (fdesc_array s)[i := f]" by (simp add: set_fdesc_def set_fd_def)
  have other: "fd_at ?s q gd = Some j \<Longrightarrow> j \<noteq> i \<and> fd_at s q gd = Some j" for q gd j
    using at fd_invD(5) [OF assms(1,2)] by (auto split: if_splits)
  have tab: "length (fd_table (procs ?s q)) = NUM_MAX_PROC_FD" for q
    using fd_invD(2) [OF assms(1)] by (simp add: set_fdesc_def set_fd_def)
  have valid: "j < NUM_FDESCS \<and> f_valid ((fdesc_array s)[i := f] ! j)" if "fd_at ?s q gd = Some j" for q gd j
    using other [OF that] fd_invD(3,4) [OF assms(1)] by (auto simp: nth_list_update_neq)
  have inj: "q = q' \<and> gd = gd'" if "fd_at ?s q gd = Some j" "fd_at ?s q' gd' = Some j" for q q' gd gd' j
    using other [OF that(1)] other [OF that(2)] fd_invD(5) [OF assms(1)] by blast
  show ?thesis unfolding fd_inv_def ar using fd_invD(1) [OF assms(1)] tab valid inj by (metis length_list_update)
qed

lemma fd_inv_install:
  assumes "fd_inv s" "fd < NUM_MAX_PROC_FD" "i < NUM_FDESCS" "\<not> f_valid (fdesc_array s ! i)" "f_valid f"
  shows "fd_inv (set_fd p fd (Some i) (set_fdesc i f s))"
proof -
  let ?s = "set_fd p fd (Some i) (set_fdesc i f s)"
  have at: "fd_at ?s q gd = (if q = p \<and> gd = fd then Some i else fd_at s q gd)" for q gd
    using assms(2) fd_invD(2) [OF assms(1)] by (auto simp: fd_at_def set_fdesc_def set_fd_def nth_list_update)
  have ar: "fdesc_array ?s = (fdesc_array s)[i := f]" by (simp add: set_fdesc_def set_fd_def)
  have other: "fd_at s q gd = Some j \<Longrightarrow> j \<noteq> i" for q gd j using fd_invD(4) [OF assms(1)] assms(4) by blast
  have tab: "length (fd_table (procs ?s q)) = NUM_MAX_PROC_FD" for q
    using fd_invD(2) [OF assms(1)] by (simp add: set_fdesc_def set_fd_def)
  have valid: "j < NUM_FDESCS \<and> f_valid ((fdesc_array s)[i := f] ! j)" if "fd_at ?s q gd = Some j" for q gd j
    using that other fd_invD(1,3,4) [OF assms(1)] assms(3,5) by (auto simp: at nth_list_update split: if_splits)
  have inj: "q = q' \<and> gd = gd'" if "fd_at ?s q gd = Some j" "fd_at ?s q' gd' = Some j" for q q' gd gd' j
    using that other fd_invD(5) [OF assms(1)] by (auto simp: at split: if_splits)
  show ?thesis unfolding fd_inv_def ar using fd_invD(1) [OF assms(1)] tab valid inj by (metis length_list_update)
qed

lemma fd_slot_at: "fd_range fd \<Longrightarrow> fd_slot fd s = fd_at s (current_running s) (nat fd)"
  by (auto simp: fd_range_def fd_slot_def fd_at_def proc_of_def)

text \<open>A state that some lower operation has left, seen through its descriptors.\<close>

lemma fds_eq: "fds s' = fds s \<Longrightarrow> fdesc_array s' = fdesc_array s \<and> procs s' = procs s \<and> current_running s' = current_running s"
  by (simp add: fds_def)

lemma fds_set_fdesc: "fds s' = fds s \<Longrightarrow> fds (set_fdesc i f s') = fds (set_fdesc i f s)"
  by (simp add: fds_def set_fdesc_def)

lemma install_fd_inv: "fd_inv s \<Longrightarrow> install_fd ip rd wr s = Some (r, s') \<Longrightarrow> fd_inv s'"
proof -
  assume i: "fd_inv s" and e: "install_fd ip rd wr s = Some (r, s')"
  have close: "inode_close ip s = Some s' \<Longrightarrow> fd_inv s'" for s'
    using i fd_inv_fds [OF more_fds [OF inode_close_keeps]] by blast
  show ?thesis
  proof (cases "find (\<lambda>i. fd_table (proc_of s) ! i = None) [0..<NUM_MAX_PROC_FD]")
    case None
    then show ?thesis using e close by (auto simp: install_fd_def elim!: bind_SomeE)
  next
    case (Some fd)
    then have fd: "fd < NUM_MAX_PROC_FD" by (auto simp: find_Some_iff)
    show ?thesis
    proof (cases "find (\<lambda>i. \<not> f_valid (fdesc_array s ! i)) [0..<NUM_FDESCS]")
      case None
      then show ?thesis using Some e close by (auto simp: install_fd_def elim!: bind_SomeE)
    next
      case j: (Some j)
      let ?f = "\<lparr>f_inode = ip, f_valid = True, wpos = 0, rpos = 0, readable = rd, writable = wr\<rparr>"
      have jj: "j < NUM_FDESCS" "\<not> f_valid (fdesc_array s ! j)" using j by (auto simp: find_Some_iff)
      let ?s = "set_fd (current_running s) fd (Some j) (set_fdesc j ?f s)"
      have "current_running (set_fdesc j ?f s) = current_running s" by (simp add: set_fdesc_def)
      then have "inode_unlock ip ?s = Some s'" using Some j e by (auto simp: install_fd_def Let_def elim!: bind_SomeE)
      then have "fd_inv s' = fd_inv ?s" by (rule fd_inv_fds [OF more_fds [OF inode_unlock_keeps]])
      then show ?thesis using fd_inv_install [OF i fd jj] by simp
    qed
  qed
qed

lemma do_open_inv:
  assumes i: "fd_inv s" and e: "do_open path mode s = Some (r, s')"
  shows "fd_inv s'"
proof -
  let ?wr = "mode AND O_WRONLY \<noteq> 0 \<or> mode AND O_RDWR \<noteq> 0" and ?rd = "mode AND O_RDONLY \<noteq> 0 \<or> mode AND O_RDWR \<noteq> 0"
  obtain t0 s0 t s1 where o: "(if ?wr then path_create path FS_TYPE_FILE s else Some (None, s)) = Some (t0, s0)"
      "(if t0 = None then path_resolve_entry path s0 else Some (t0, s0)) = Some (t, s1)"
      "(case t of None \<Rightarrow> Some (-1, s1)
        | Some ip \<Rightarrow> do {
            s \<leftarrow> inode_open ip s1;
            if i_type (inode s ip) = FS_TYPE_DIR then do { s \<leftarrow> inode_close ip s; Some (-1, s) }
            else install_fd ip ?rd ?wr s }) = Some (r, s')"
    using e unfolding do_open_def Let_def by (auto elim!: bind_SomeE simp del: split_paired_All)
  have "fds s0 = fds s" using o(1) path_create_keeps by (auto split: if_splits)
  moreover have "fds s1 = fds s0" using o(2) path_resolve_entry_keeps by (auto split: if_splits)
  ultimately have i1: "fd_inv s1" using fd_inv_fds [of s1 s] i by simp
  show ?thesis
  proof (cases t)
    case None
    then show ?thesis using o(3) i1 by simp
  next
    case (Some ip)
    then obtain s2 where s2: "inode_open ip s1 = Some s2"
        "(if i_type (inode s2 ip) = FS_TYPE_DIR then do { s \<leftarrow> inode_close ip s2; Some (-1, s) } else install_fd ip ?rd ?wr s2) = Some (r, s')"
      using o(3) by (auto elim!: bind_SomeE)
    have i2: "fd_inv s2" using fd_inv_fds [OF more_fds [OF inode_open_keeps [OF s2(1)]]] i1 by simp
    show ?thesis
    proof (cases "i_type (inode s2 ip) = FS_TYPE_DIR")
      case True
      then show ?thesis using s2(2) i2 fd_inv_fds [OF more_fds [OF inode_close_keeps]] by (auto elim!: bind_SomeE)
    next
      case False
      then show ?thesis using s2(2) install_fd_inv [OF i2] by auto
    qed
  qed
qed

text \<open>A call that works on one open descriptor and keeps it valid.\<close>

lemma fd_inv_update:
  assumes "fd_inv s" "fd_range fd" "fd_slot fd s = Some i" "fds s1 = fds s" "f_valid f = f_valid (fdesc_array s1 ! i)"
  shows "fd_inv (set_fdesc i f s1)"
proof -
  have at: "fd_at s (current_running s) (nat fd) = Some i" using assms(2,3) by (simp add: fd_slot_at)
  have i1: "fd_inv s1" using fd_inv_fds [OF assms(4)] assms(1) by simp
  have "f_valid f" using fd_invD(4) [OF assms(1) at] fds_eq [OF assms(4)] assms(5) by simp
  then show ?thesis by (rule fd_inv_valid [OF i1 _ fd_invD(3) [OF assms(1) at]])
qed

lemma fd_inv_keep: "fd_inv s \<Longrightarrow> fds s' = fds s \<Longrightarrow> fd_inv s'"
  using fd_inv_fds by blast

lemma do_read_inv:
  assumes i: "fd_inv s" and e: "do_read fd len s = Some (r, bs, s')"
  shows "fd_inv s'"
proof (cases "fd_range fd \<and> fd_slot fd s \<noteq> None")
  case False
  then show ?thesis using i e by (auto simp: do_read_def split: if_splits)
next
  case True
  then obtain k where k: "fd_range fd" "fd_slot fd s = Some k" by blast
  obtain s1 s2 where s: "inode_open (f_inode (fdesc_array s ! k)) s = Some s1"
      "inode_read (f_inode (fdesc_array s ! k)) (rpos (fdesc_array s1 ! k)) len s1 = Some (bs, s2)"
      "inode_unlock (f_inode (fdesc_array s ! k))
        (set_fdesc k ((fdesc_array s2 ! k)\<lparr>rpos := rpos (fdesc_array s2 ! k) + of_nat (length bs)\<rparr>) s2) = Some s'"
    using e k by (auto simp: do_read_def Let_def elim!: bind_SomeE)
  have f: "fds s2 = fds s" using s(1,2) by (auto dest!: path_keeps)
  have "fd_inv (set_fdesc k ((fdesc_array s2 ! k)\<lparr>rpos := rpos (fdesc_array s2 ! k) + of_nat (length bs)\<rparr>) s2)"
    by (rule fd_inv_update [OF i k f]) simp
  then show ?thesis by (rule fd_inv_keep) (rule more_fds [OF inode_unlock_keeps [OF s(3)]])
qed

lemma do_write_inv:
  assumes i: "fd_inv s" and e: "do_write fd src s = Some (r, s')"
  shows "fd_inv s'"
proof (cases "fd_range fd \<and> fd_slot fd s \<noteq> None")
  case False
  then show ?thesis using i e by (auto simp: do_write_def split: if_splits)
next
  case True
  then obtain k where k: "fd_range fd" "fd_slot fd s = Some k" by blast
  obtain s1 n s2 where s: "inode_open (f_inode (fdesc_array s ! k)) s = Some s1"
      "inode_write (f_inode (fdesc_array s ! k)) (wpos (fdesc_array s1 ! k)) src s1 = Some (n, s2)"
      "inode_unlock (f_inode (fdesc_array s ! k))
        (set_fdesc k ((fdesc_array s2 ! k)\<lparr>wpos := wpos (fdesc_array s2 ! k) + of_nat n\<rparr>) s2) = Some s'"
    using e k by (auto simp: do_write_def Let_def elim!: bind_SomeE)
  have f: "fds s2 = fds s" using s(1,2) by (auto dest!: path_keeps)
  have "fd_inv (set_fdesc k ((fdesc_array s2 ! k)\<lparr>wpos := wpos (fdesc_array s2 ! k) + of_nat n\<rparr>) s2)"
    by (rule fd_inv_update [OF i k f]) simp
  then show ?thesis by (rule fd_inv_keep) (rule more_fds [OF inode_unlock_keeps [OF s(3)]])
qed

lemma do_lseek_inv:
  assumes i: "fd_inv s" and e: "do_lseek fd off whence s = Some (r, s')"
  shows "fd_inv s'"
proof (cases "fd_range fd \<and> fd_slot fd s \<noteq> None")
  case False
  then show ?thesis using i e by (auto simp: do_lseek_def split: if_splits)
next
  case True
  then obtain k where k: "fd_range fd" "fd_slot fd s = Some k" by blast
  obtain s1 s2 w rp where s: "inode_open (f_inode (fdesc_array s ! k)) s = Some s1"
      "inode_unlock (f_inode (fdesc_array s ! k)) s1 = Some s2"
      "s' = set_fdesc k ((fdesc_array s2 ! k)\<lparr>wpos := w, rpos := rp\<rparr>) s2"
    using e k by (auto simp: do_lseek_def Let_def elim!: bind_SomeE)
  have f: "fds s2 = fds s" using s(1,2) by (auto dest!: path_keeps)
  show ?thesis unfolding s(3) by (rule fd_inv_update [OF i k f]) simp
qed

text \<open>Closing one place of a table, the step of \<open>do_close\<close> and of \<open>cleanup_fd\<close>.\<close>

lemma fd_inv_drop:
  assumes "fd_inv s" "fd_at s p fd = Some i" "fds s1 = fds s"
  shows "fd_inv (set_fd p fd None (set_fdesc i f s1))"
proof -
  have "fd_inv s1" by (rule fd_inv_keep [OF assms(1,3)])
  moreover have "fd_at s1 p fd = Some i" using assms(2) fds_eq [OF assms(3)] by (auto simp: fd_at_def split: if_splits)
  ultimately show ?thesis by (rule fd_inv_close)
qed

lemma do_close_inv:
  assumes i: "fd_inv s" and e: "do_close fd s = Some (r, s')"
  shows "fd_inv s'"
proof (cases "fd_range fd \<and> fd_slot fd s \<noteq> None")
  case False
  then show ?thesis using i e by (auto simp: do_close_def split: if_splits)
next
  case True
  then obtain k where k: "fd_range fd" "fd_slot fd s = Some k" by blast
  obtain s1 where s: "inode_deref (f_inode (fdesc_array s ! k)) s = Some s1"
      "s' = set_fd (current_running s1) (nat fd) None (set_fdesc k ((fdesc_array s1 ! k)\<lparr>f_valid := False\<rparr>) s1)"
    using e k by (auto simp: do_close_def Let_def set_fdesc_def elim!: bind_SomeE)
  have f: "fds s1 = fds s" using s(1) by (auto dest!: path_keeps)
  show ?thesis using s(2) fd_inv_drop [OF i _ f] k fds_eq [OF f] by (simp add: fd_slot_at)
qed

lemma cleanup_loop_inv: "fd_inv s \<Longrightarrow> \<forall>i \<in> set js. i < NUM_MAX_PROC_FD \<Longrightarrow> cleanup_loop p js s = Some s' \<Longrightarrow> fd_inv s'"
proof (induction js arbitrary: s)
  case (Cons i js)
  show ?case
  proof (cases "fd_table (procs s p) ! i")
    case None
    then show ?thesis using Cons by simp
  next
    case (Some k)
    let ?ip = "f_inode (fdesc_array s ! k)"
    obtain s1 s2 where s: "(if acquired (inode s ?ip) then inode_unlock ?ip s else Some s) = Some s1" "inode_deref ?ip s1 = Some s2"
        "cleanup_loop p js (set_fd p i None (set_fdesc k ((fdesc_array s2 ! k)\<lparr>f_valid := False\<rparr>) s2)) = Some s'"
      using Cons(4) Some by (auto simp: Let_def elim!: bind_SomeE)
    have f: "fds s2 = fds s" using s(1,2) by (auto dest!: path_keeps split: if_splits)
    have "fd_at s p i = Some k" using Some Cons(3) by (simp add: fd_at_def)
    from Cons(1) [OF fd_inv_drop [OF Cons(2) this f] _ s(3)] Cons(3) show ?thesis by simp
  qed
qed simp

lemma do_cd_inv: "fd_inv s \<Longrightarrow> do_cd path s = Some (r, s') \<Longrightarrow> fd_inv s'"
proof -
  assume i: "fd_inv s" and e: "do_cd path s = Some (r, s')"
  have cwd: "fd_inv (x\<lparr>procs := (procs x)(current_running x := (proc_of x)\<lparr>cwd_inode := n\<rparr>)\<rparr>)" if "fd_inv x" for x :: "'a fs_state_scheme" and n
  proof -
    let ?x = "x\<lparr>procs := (procs x)(current_running x := (proc_of x)\<lparr>cwd_inode := n\<rparr>)\<rparr>"
    have t: "fd_table (procs ?x p) = fd_table (procs x p)" for p by (simp add: proc_of_def)
    have a: "fd_at ?x = fd_at x" unfolding fd_at_def fun_eq_iff t by simp
    have b: "fdesc_array ?x = fdesc_array x" by simp
    show ?thesis using that unfolding fd_inv_def t a b .
  qed
  obtain t s1 where r: "path_resolve_entry path s = Some (t, s1)" using e by (auto simp: do_cd_def elim!: bind_SomeE)
  then have f: "fds s1 = fds s" by (auto dest!: fs_keeps)
  then have i1: "fd_inv s1" using i by (rule fd_inv_keep [rotated])
  show ?thesis
  proof (cases t)
    case None
    then show ?thesis using e r i1 by (auto simp: do_cd_def)
  next
    case (Some ip)
    then obtain s2 where s: "inode_deref ip (s1\<lparr>procs := (procs s1)(current_running s1 := (proc_of s1)\<lparr>cwd_inode := inode_num (inode s1 ip)\<rparr>)\<rparr>) = Some s2" "s' = s2"
      using e r by (auto simp: do_cd_def Let_def elim!: bind_SomeE)
    then show ?thesis using fd_inv_keep [OF cwd [OF i1] more_fds [OF inode_deref_keeps]] by blast
  qed
qed

text \<open>The calls of the processes, with the switches between them.\<close>

datatype fs_call =
    Open "u8 list" u32 | Read int u32 | Write int "u8 list" | Close int | Lseek int u32 int
  | Cd "u8 list" | Mkdir "u8 list" | Rmdir "u8 list" | Ls "u8 list" u32 | Ln "u8 list" "u8 list" | Rm "u8 list"
  | Exit nat | Switch nat

fun fs_exec :: "fs_call \<Rightarrow> 'a fs_state_scheme \<Rightarrow> 'a fs_state_scheme option" where
  "fs_exec (Open path mode) s = map_option snd (do_open path mode s)"
| "fs_exec (Read fd len) s = map_option (snd \<circ> snd) (do_read fd len s)"
| "fs_exec (Write fd src) s = map_option snd (do_write fd src s)"
| "fs_exec (Close fd) s = map_option snd (do_close fd s)"
| "fs_exec (Lseek fd off whence) s = map_option snd (do_lseek fd off whence s)"
| "fs_exec (Cd path) s = map_option snd (do_cd path s)"
| "fs_exec (Mkdir path) s = map_option snd (do_mkdir path s)"
| "fs_exec (Rmdir path) s = map_option snd (do_rmdir path s)"
| "fs_exec (Ls path opt) s = map_option (snd \<circ> snd) (do_ls path opt s)"
| "fs_exec (Ln src dst) s = map_option snd (do_ln src dst s)"
| "fs_exec (Rm path) s = map_option snd (do_rm path s)"
| "fs_exec (Exit p) s = cleanup_fd p s"
| "fs_exec (Switch p) s = Some (s\<lparr>current_running := p\<rparr>)"

fun fs_execs :: "fs_call list \<Rightarrow> 'a fs_state_scheme \<Rightarrow> 'a fs_state_scheme option" where
  "fs_execs [] s = Some s"
| "fs_execs (c # cs) s = Option.bind (fs_exec c s) (fs_execs cs)"

lemma do_mkdir_keeps: "do_mkdir path s = Some (r, s') \<Longrightarrow> fds s' = fds s"
  by (auto simp: do_mkdir_def elim!: bind_SomeE dest!: path_keeps path_create_keeps split: option.splits)

lemma do_rmdir_keeps: "do_rmdir path s = Some (r, s') \<Longrightarrow> fds s' = fds s"
  by (auto simp: do_rmdir_def dest!: path_remove_keeps)

lemma do_ln_keeps: "do_ln path dst s = Some (r, s') \<Longrightarrow> fds s' = fds s"
  by (auto simp: do_ln_def elim!: bind_SomeE dest!: path_keeps path_resolve_entry_keeps path_resolve_parent_keeps dir_link_keeps
      split: option.splits if_splits)

lemma do_rm_keeps: "do_rm path s = Some (r, s') \<Longrightarrow> fds s' = fds s"
  by (auto simp: do_rm_def elim!: bind_SomeE dest!: path_keeps path_resolve_parent_keeps dir_unlink_keeps split: option.splits)

lemma fd_inv_switch: "fd_inv (s\<lparr>current_running := p\<rparr>) = fd_inv s"
  by (simp add: fd_inv_def fd_at_def)

lemma fs_exec_inv: "fd_inv s \<Longrightarrow> fs_exec c s = Some s' \<Longrightarrow> fd_inv s'"
proof (induction c s rule: fs_exec.induct)
  case (12 p s)
  then show ?case using cleanup_loop_inv [of s "[0..<NUM_MAX_PROC_FD]" p s'] by (simp add: cleanup_fd_def)
qed (auto simp: fd_inv_switch intro: do_open_inv do_read_inv do_write_inv do_close_inv do_lseek_inv do_cd_inv
    fd_inv_keep [OF _ do_mkdir_keeps] fd_inv_keep [OF _ do_rmdir_keeps] fd_inv_keep [OF _ do_ls_keeps]
    fd_inv_keep [OF _ do_ln_keeps] fd_inv_keep [OF _ do_rm_keeps])


text \<open>A kernel without open files; its working directory is the directory of \<open>one_dir\<close>.\<close>

definition closed_fdesc :: fdesc_t where
  "closed_fdesc = \<lparr>f_inode = 0, f_valid = False, wpos = 0, rpos = 0, readable = False, writable = False\<rparr>"

definition idle_fs :: fs_state where
  "idle_fs = one_dir\<lparr>inodes := blank_inode\<lparr>i_type := FS_TYPE_DIR, link_count := 1, inode_num := 2, i_size := 32,
       direct := 3 # replicate 9 (-1), i_valid := True, ref_count := 1\<rparr> # replicate 63 blank_inode,
     fdesc_array := replicate NUM_FDESCS closed_fdesc,
     procs := (\<lambda>p. \<lparr>cwd_inode = 2, fd_table = replicate NUM_MAX_PROC_FD None\<rparr>)\<rparr>"

lemma idle_open: "\<exists>s. do_open [] 0 idle_fs = Some (-1, s) \<and> fds s = fds idle_fs"
proof -
  have up: "[0..<NINODE] = 0 # [1..<NINODE]" by (simp add: NINODE_def upt_conv_Cons)
  have n: "current_running idle_fs = 0" "cwd_inode (procs idle_fs 0) = 2" by (simp_all add: idle_fs_def one_dir_def)
  have x: "inode idle_fs 0 = blank_inode\<lparr>i_type := FS_TYPE_DIR, link_count := 1, inode_num := 2, i_size := 32,
       direct := 3 # replicate 9 (-1), i_valid := True, ref_count := 1\<rparr>" and l: "length (inodes idle_fs) = 64"
    by (simp_all add: idle_fs_def inode_def)
  have r: "inode_ref 2 idle_fs = Some (0, set_inode 0 ((inode idle_fs 0)\<lparr>ref_count := 2\<rparr>) idle_fs)"
    by (simp add: inode_ref_def up x FS_TYPE_DIR_def)
  let ?s1 = "set_inode 0 ((inode idle_fs 0)\<lparr>ref_count := 2\<rparr>) idle_fs"
  have "path_resolve_entry [] idle_fs = Some (Some 0, ?s1)"
    by (simp add: path_resolve_entry_def path_resolve_def char_at_def slash_def n r)
  moreover have "\<exists>s. inode_open 0 ?s1 = Some s \<and> i_type (inode s 0) = FS_TYPE_DIR \<and> (\<exists>s'. inode_close 0 s = Some s')"
    using l by (simp add: inode_open_def x blank_inode_def inode_close_def inode_unlock_def) (subst inode_deref.simps, simp)
  then obtain s s' where s: "inode_open 0 ?s1 = Some s" "i_type (inode s 0) = FS_TYPE_DIR" "inode_close 0 s = Some s'" by blast
  ultimately have "do_open [] 0 idle_fs = Some (-1, s')" using s by (simp add: do_open_def)
  moreover have "fds s' = fds idle_fs" using s(1,3) by (auto dest!: path_keeps)
  ultimately show ?thesis by blast
qed


end
