(* ===== verification/Spec2Isabelle.thy ===== *)
theory Spec2Isabelle
  imports Intrusive_List Kmalloc PgTable Sched Sync Printf Fs_Etc Fs_Descriptor
begin

text \<open>
  A verification library for the UCAS operating system laboratory kernel: a small RISC-V kernel
  in C and C++ for two harts, with processes, locks, demand paging, a file system on an SD card
  and a network driver. Paths below are relative to \<open>src/\<close>.

  \<^bold>\<open>How the code is read.\<close>
  \<^item> Each definition is an executable translation of the C function of the same name; a suffix such
    as \<open>_loop\<close>, \<open>_from\<close> or \<open>_step\<close> marks the body of a loop of that function.
  \<^item> State is passed explicitly, as a record with the global variables of the component.
  \<^item> An operation that may not come back has an option type. \<open>None\<close> stands for a kernel panic
    (\<open>asserts\<close>, \<open>err_halt\<close>: print and loop forever), for a loop that does not end, for a wait that
    nothing ends in the modelled part, and for an access that C leaves undefined. Each theory says
    which of these it has. Theorems about success say that the result is \<open>Some\<close>.
  \<^item> Unsigned C integers are words of their width, with wrap-around. An \<open>int\<close> whose range does not
    matter is an \<open>int\<close> or a \<open>nat\<close>.
  \<^item> The log is not state.
  \<^item> Kernel code runs under one kernel lock, so a kernel operation is atomic up to the process
    switch in \<open>do_scheduler\<close>.

  \<^bold>\<open>Basic theories.\<close>
  \<^item> \<open>Kernel_Prelude\<close>: the integer types, panics, generic lemmas, sequences of operations, and the
    locale \<open>simulation\<close>, which lifts a refinement of single calls to sequences of calls.
  \<^item> \<open>Intrusive_List\<close>: \<open>libs/list.c\<close> on a store of nodes. The specification is a family of
    sequences; \<open>rep\<close> relates the two, and every sequence of legal calls refines it.
  \<^item> \<open>C_String\<close>, \<open>Tiny_Libc\<close>, \<open>Printf\<close>: \<open>libs/string.c\<close> and the same functions of
    \<open>tiny_libc\<close>; character classes, number conversion and random numbers of \<open>tiny_libc\<close>; the
    formatted output of \<open>libs/printk.c\<close> and \<open>tiny_libc/printf.c\<close>. The lemmas give each function's
    meaning on zero-terminated strings and blocks of memory, that a number printed is the number
    read back, and that the formatter ends and stays inside its buffer. The locale
    \<open>format_engine\<close> holds the facts that both formatters share.

  \<^bold>\<open>Memory.\<close>
  \<^item> \<open>Kmalloc\<close>: the buddy allocator of \<open>kernel/mm/kmalloc.c\<close>, on 8-byte cells and list heads. The
    invariant is a tiling of the pool by aligned blocks; the lemmas show that an allocation is
    disjoint from all live blocks and fails only if no region is large enough, and that a block
    is merged with its free buddies when it is released.
  \<^item> \<open>PgTable\<close>: entries and addresses of \<open>arch/riscv/include/pgtable.h\<close> and the boot-time tables of
    \<open>arch/riscv/kernel/boot.c\<close>, against the translation \<open>sv39\<close> of the hardware.

  \<^bold>\<open>Processes.\<close>
  \<^item> \<open>Sched\<close>: the process table, the queues, the choice of the next process, sleeping, blocking and
    waking (\<open>kernel/sched/sched.cpp\<close>, \<open>kernel/sched/time.c\<close>, parts of \<open>kernel/sched/task.c\<close>). The
    queues are at the level of the list specification. The scheduler keeps every process in the
    queue that its status calls for and always finds a process to run.
  \<^item> \<open>Blocking\<close>: the contract of the scheduler towards code that blocks and wakes.
  \<^item> \<open>Sync\<close>: mutexes, condition variables, semaphores and barriers of \<open>kernel/sync\<close>. The step
    relation interleaves the calls of all processes; the invariant holds in every reachable state
    and gives mutual exclusion. The other lemmas describe single calls and bad handles.

  \<^bold>\<open>File system.\<close> The state is one record that each layer extends.
  \<^item> \<open>Fs_Block\<close>: buffers, the page cache and the block map (\<open>kernel/fs/block.c\<close>,
    \<open>kernel/fs/cache.c\<close>). The abstraction is \<open>view\<close>, what each block holds, with \<open>pins\<close>, the
    buffers in use.
  \<^item> \<open>Fs_Inode\<close>: \<open>kernel/fs/inode.c\<close>. \<open>Fs_File\<close> has the block map of a file as a tree of positions
    with its invariant; \<open>Fs_Content\<close> shows that reading and writing an inode is reading and
    writing a sequence of bytes.
  \<^item> \<open>Fs_Dcache\<close>: the entry cache of \<open>kernel/fs/dcache.c\<close>. The locales \<open>entry_cache\<close> and \<open>dir_cache\<close>
    are its contract with the directory code; a hit is an entry of the directory.
  \<^item> \<open>Fs_Dir\<close>: directories and paths (\<open>kernel/fs/dir.c\<close>). A lookup, cached or not, gives the first
    entry of the directory with that name.
  \<^item> \<open>Fs_Syscall\<close>: \<open>kernel/fs/fs.cpp\<close>, from \<open>do_mkfs\<close> to \<open>do_lseek\<close>; \<open>Fs_Etc\<close>: the configuration
    files and their parsers (\<open>kernel/fs/etc.c\<close>) and \<open>init_fs\<close>.
  \<^item> \<open>Fs_Descriptor\<close>: what the layers leave alone, and that the calls keep every open descriptor
    valid and in one table only.

  \<^bold>\<open>Loops, bounds and fuel.\<close>
  \<^item> Loops with a counter are total recursions over it, with a termination proof.
  \<^item> Loops over a chain of pointers, up to a terminating zero or over the digits of a number are
    partial functions in the option type; the theorems about them prove that they return, or that
    they do not. No definition has fuel.
  \<^item> The answer of \<open>kmalloc\<close> to the entry cache (a block or \<open>NULL\<close>) is a stream in the
    state, so that the theorems hold for every pattern of failures.

  \<^bold>\<open>Outside the repository.\<close> The BIOS calls on the SD card read and write a store of sectors and
  succeed. The MMU is the definition \<open>sv39\<close>. \<open>rdtime\<close> and the page frame that backs the kmalloc
  pool are values of the state or arguments.

  \<^bold>\<open>Not modelled.\<close>
  \<^item> Spin locks and the ring buffer, which order harts by atomic instructions; assembly,
    trap entry, interrupts and the system call table.
  \<^item> Page frames, page groups, eviction and the page tables of processes (\<open>kernel/mm/mm.c\<close> and what
    is built on them: pipes, process creation, loading). The file system takes a page frame to be
    available; the eviction of one of its pages is the operation \<open>cache_evict\<close>.
  \<^item> Mailboxes, the network stack, the device drivers and the screen.
  \<^item> What a process does after \<open>switch_to\<close> returns to it, except where \<open>Sync\<close> has it as a step.
  \<^item> User programs other than the library, and the host tools.
\<close>

end
